(* ===== verification/Portico_Prelude.thy ===== *)
theory Portico_Prelude
  imports "HOL-Library.Word"
begin

text \<open>
  Shared vocabulary of the development: the C integer types as words, the
  collections of simplification facts of the components, and generic lemmas on
  lists and words.
\<close>

unbundle bit_operations_syntax

type_synonym u8 = "8 word"
type_synonym u16 = "16 word"
type_synonym u32 = "32 word"
type_synonym u64 = "64 word"
type_synonym bytes = "8 word list"

named_theorems frame_defs "definitions of the frame component"
named_theorems pool_defs "definitions of the buffer pool component"

section \<open>Words\<close>

lemma u8_unat_less [simp]: "unat (b :: u8) < 256"
  using unsigned_less [of b] by simp

lemma u8_less_256_cases:
  assumes "\<forall>n < 256. P (word_of_nat n :: u8)"
  shows "P (b :: u8)"
proof -
  have "P (word_of_nat (unat b))"
    using assms u8_unat_less by blast
  thus ?thesis by simp
qed

lemma all_less_set_upt:
  "(\<forall>n \<in> set [0..<k]. P n) \<Longrightarrow> n < k \<Longrightarrow> P n"
  by simp


lemma word_of_nat_unat_le: "unat (word_of_nat n :: 'a::len word) \<le> n"
  by (simp add: unat_of_nat)

lemma unat_of_nat_u64: "n < 2 ^ 64 \<Longrightarrow> unat (word_of_nat n :: u64) = n"
  by (simp add: unat_of_nat)

lemma unat_plus_1:
  assumes "unat (a :: 'a::len word) < unat (b :: 'a word)"
  shows "unat (a + 1) = unat a + 1"
proof -
  have "unat b < 2 ^ LENGTH('a)" by (rule unsigned_less)
  hence "unat a + 1 < 2 ^ LENGTH('a)" using assms by linarith
  hence "unat a + unat (1 :: 'a word) < 2 ^ LENGTH('a)" by simp
  hence "unat (a + 1) = unat a + unat (1 :: 'a word)" using unat_add_lem by blast
  thus ?thesis by simp
qed

lemma unat_minus_1: "0 < unat (a :: 'a::len word) \<Longrightarrow> unat (a - 1) = unat a - 1"
  by (subst unat_sub) (auto simp: word_le_nat_alt)

section \<open>Little- and big-endian words\<close>

text \<open>The value of \<open>*(uintN_t *)p\<close> on a little-endian machine, and the store.\<close>

fun load_le :: "bytes \<Rightarrow> 'a::len word" where
  "load_le [] = 0"
| "load_le (b # bs) = ucast b OR push_bit 8 (load_le bs)"

fun store_le :: "nat \<Rightarrow> 'a::len word \<Rightarrow> bytes" where
  "store_le 0 w = []"
| "store_le (Suc n) w = ucast w # store_le n (drop_bit 8 w)"

lemma length_store_le [simp]: "length (store_le n w) = n"
  by (induction n arbitrary: w) auto

lemma bit_load_le:
  "bit (load_le bs :: 'a::len word) n \<longleftrightarrow>
    n < LENGTH('a) \<and> n div 8 < length bs \<and> bit (bs ! (n div 8)) (n mod 8)"
proof (induction bs arbitrary: n)
  case Nil
  thus ?case by simp
next
  case (Cons b bs)
  show ?case
  proof (cases "n < 8")
    case True
    thus ?thesis by (auto simp: bit_or_iff bit_push_bit_iff bit_unsigned_iff)
  next
    case False
    hence "n div 8 = Suc ((n - 8) div 8)" "n mod 8 = (n - 8) mod 8"
      by (simp_all add: le_div_geq le_mod_geq)
    thus ?thesis using False Cons.IH [of "n - 8"]
      by (auto simp: bit_or_iff bit_push_bit_iff bit_unsigned_iff dest: bit_imp_le_length)
  qed
qed

lemma nth_store_le: "i < n \<Longrightarrow> store_le n w ! i = ucast (drop_bit (8 * i) w)"
proof (induction n arbitrary: i w)
  case 0
  thus ?case by simp
next
  case (Suc n)
  thus ?case by (cases i) (simp_all add: drop_bit_drop_bit add.commute)
qed

lemma store_le_xor:
  assumes "length bs = n" "length ms = n" "8 * n \<le> LENGTH('a::len)"
  shows "store_le n (load_le bs XOR load_le ms :: 'a word) = map2 (XOR) bs ms"
proof (rule nth_equalityI)
  show "length (store_le n (load_le bs XOR load_le ms :: 'a word)) = length (map2 (XOR) bs ms)"
    using assms by simp
next
  fix i assume "i < length (store_le n (load_le bs XOR load_le ms :: 'a word))"
  hence i: "i < n" by simp
  have "bit (store_le n (load_le bs XOR load_le ms :: 'a word) ! i) k =
      bit (map2 (XOR) bs ms ! i) k" if k: "k < 8" for k
  proof -
    have "8 * i + k < LENGTH('a)" using i k assms by linarith
    moreover have "(8 * i + k) div 8 = i" "(8 * i + k) mod 8 = k" using k by auto
    ultimately show ?thesis using i k assms
      by (simp add: nth_store_le bit_unsigned_iff bit_drop_bit_eq bit_xor_iff bit_load_le)
  qed
  thus "store_le n (load_le bs XOR load_le ms :: 'a word) ! i = map2 (XOR) bs ms ! i"
    by (intro bit_word_eqI) simp
qed

lemma store_load_le:
  "length bs = n \<Longrightarrow> 8 * n \<le> LENGTH('a::len) \<Longrightarrow> store_le n (load_le bs :: 'a word) = bs"
proof -
  assume n: "length bs = n" "8 * n \<le> LENGTH('a)"
  have "load_le (replicate n (0 :: u8)) = (0 :: 'a word)"
    by (rule bit_word_eqI) (simp add: bit_load_le)
  hence "store_le n (load_le bs :: 'a word) = map2 (XOR) bs (replicate n 0)"
    using store_le_xor [of bs n "replicate n 0", where ?'a = 'a] n by simp
  also have "\<dots> = bs" using n by (intro nth_equalityI) auto
  finally show ?thesis .
qed

text \<open>Big-endian bytes of a number (network order), and their value.\<close>

fun be_bytes :: "nat \<Rightarrow> nat \<Rightarrow> bytes" where
  "be_bytes 0 n = []"
| "be_bytes (Suc k) n = be_bytes k (n div 256) @ [word_of_nat (n mod 256)]"

definition load_be :: "bytes \<Rightarrow> 'a::len word" where
  "load_be bs = foldl (\<lambda>acc b. push_bit 8 acc OR ucast b) 0 bs"

lemma length_be_bytes [simp]: "length (be_bytes k n) = k"
  by (induction k arbitrary: n) auto

lemma load_be_snoc: "load_be (bs @ [b]) = (push_bit 8 (load_be bs) OR ucast b :: 'a::len word)"
  by (simp add: load_be_def)

lemma push_bit_or_byte:
  "(push_bit 8 a OR ucast (b :: u8) :: 'a::len word) = a * 256 + ucast b"
proof -
  have "push_bit 8 a AND ucast b = (0 :: 'a word)"
    by (rule bit_word_eqI) (auto simp: bit_and_iff bit_push_bit_iff bit_unsigned_iff dest: bit_imp_le_length)
  hence "push_bit 8 a OR ucast b = (push_bit 8 a + ucast b :: 'a word)"
    by (simp add: disjunctive_add_eq_or)
  thus ?thesis by (simp add: push_bit_eq_mult mult.commute)
qed

lemma load_be_bytes: "n < 256 ^ k \<Longrightarrow> load_be (be_bytes k n) = (word_of_nat n :: 'a::len word)"
proof (induction k arbitrary: n)
  case 0
  thus ?case by (simp add: load_be_def)
next
  case (Suc k)
  have "n div 256 < 256 ^ k" using Suc.prems by (simp add: div_less_iff_less_mult mult.commute)
  hence "load_be (be_bytes k (n div 256)) = (word_of_nat (n div 256) :: 'a word)" by (rule Suc.IH)
  moreover have "(ucast (word_of_nat (n mod 256) :: u8) :: 'a word) = word_of_nat (n mod 256)"
    by (simp add: unsigned_of_nat take_bit_nat_eq_self)
  ultimately have "load_be (be_bytes (Suc k) n) =
      (word_of_nat (n div 256) * 256 + word_of_nat (n mod 256) :: 'a word)"
    using push_bit_or_byte [of "word_of_nat (n div 256) :: 'a word" "word_of_nat (n mod 256)"]
    by (simp add: load_be_snoc)
  also have "\<dots> = word_of_nat (n div 256 * 256 + n mod 256)" by (simp only: of_nat_add of_nat_mult) simp
  finally show ?case by simp
qed

section \<open>Counting loops\<close>

text \<open>\<open>for (i = lo; i < hi; i += k) body\<close> on a state.\<close>

function for_by :: "nat \<Rightarrow> nat \<Rightarrow> nat \<Rightarrow> (nat \<Rightarrow> 's \<Rightarrow> 's) \<Rightarrow> 's \<Rightarrow> 's" where
  "for_by k i hi body s = (if i < hi \<and> 0 < k then for_by k (i + k) hi body (body i s) else s)"
  by pat_completeness auto
termination
  by (relation "measure (\<lambda>(k, i, hi, body, s). hi - i)") auto

declare for_by.simps [simp del]

lemma for_by_invariant:
  assumes "I i s" "i \<le> hi" "0 < k" "k dvd (hi - i)"
    and "\<And>j t. I j t \<Longrightarrow> i \<le> j \<Longrightarrow> k dvd (j - i) \<Longrightarrow> j + k \<le> hi \<Longrightarrow> I (j + k) (body j t)"
  shows "I hi (for_by k i hi body s)"
  using assms
proof (induction k i hi body s rule: for_by.induct)
  case (1 k i hi body s)
  show ?case
  proof (cases "i < hi")
    case False
    thus ?thesis using 1 by (simp add: for_by.simps)
  next
    case True
    have le: "i + k \<le> hi" using True 1(5) by (auto dest: dvd_imp_le)
    have "hi - i = (hi - (i + k)) + k" using le by simp
    hence d: "k dvd hi - (i + k)" using 1(5) by (metis dvd_add_triv_right_iff)
    have "I (i + k) (body i s)" using 1(2,6) le by simp
    moreover have "I (j + k) (body j t)"
      if "I j t" "i + k \<le> j" "k dvd j - (i + k)" "j + k \<le> hi" for j t
    proof -
      have "j - i = (j - (i + k)) + k" using that by simp
      hence "k dvd j - i" using that(3) by (metis dvd_add_triv_right_iff)
      thus ?thesis using 1(6) that by simp
    qed
    ultimately show ?thesis
      using 1(1,4) True le d by (simp add: for_by.simps [of k i])
  qed
qed

end
