(* ===== verification/Slot_Pool.thy ===== *)
theory Slot_Pool
  imports Portico_Prelude
begin

text \<open>
  The interface of a fixed-capacity pool of numbered slots, as the buffer pools, the
  message-node pool and the free-connection stack implement it: what a client may rely on
  when it allocates and releases slots in any order.
\<close>

datatype pool_op = Alloc | Release nat

text \<open>The results of a sequence of requests, each with the slots live when it was made.\<close>

primrec pool_run :: "('p \<Rightarrow> nat option \<times> 'p) \<Rightarrow> (nat \<Rightarrow> 'p \<Rightarrow> 'p) \<Rightarrow> ('p \<Rightarrow> nat set) \<Rightarrow>
    pool_op list \<Rightarrow> 'p \<Rightarrow> (nat set \<times> nat option) list \<times> 'p" where
  "pool_run alloc release live [] p = ([], p)"
| "pool_run alloc release live (op # ops) p =
    (case op of
       Alloc \<Rightarrow> (let (r, q) = alloc p; (rs, q') = pool_run alloc release live ops q
                 in ((live p, r) # rs, q'))
     | Release i \<Rightarrow> pool_run alloc release live ops (release i p))"

text \<open>
  Laws: an allocation returns a slot that is not live, and fails only when every slot is;
  a live slot can be released.
\<close>

locale slot_pool =
  fixes inv :: "'p \<Rightarrow> bool"
    and live :: "'p \<Rightarrow> nat set"
    and cap :: "'p \<Rightarrow> nat"
    and alloc :: "'p \<Rightarrow> nat option \<times> 'p"
    and release :: "nat \<Rightarrow> 'p \<Rightarrow> 'p"
  assumes live_cap: "inv p \<Longrightarrow> live p \<subseteq> {..<cap p}"
    and alloc_some: "inv p \<Longrightarrow> alloc p = (Some i, q) \<Longrightarrow>
      inv q \<and> i < cap p \<and> i \<notin> live p \<and> live q = insert i (live p) \<and> cap q = cap p"
    and alloc_none: "inv p \<Longrightarrow> alloc p = (None, q) \<Longrightarrow>
      inv q \<and> live p = {..<cap p} \<and> live q = live p \<and> cap q = cap p"
    and release_live: "inv p \<Longrightarrow> i \<in> live p \<Longrightarrow>
      inv (release i p) \<and> live (release i p) = live p - {i} \<and> cap (release i p) = cap p"
begin

lemma alloc_none_iff:
  assumes "inv p"
  shows "fst (alloc p) = None \<longleftrightarrow> live p = {..<cap p}"
proof (cases "alloc p")
  case (Pair r q)
  thus ?thesis
    using alloc_none [OF assms, of q] alloc_some [OF assms, of _ q] by (cases r) auto
qed

lemma live_finite: "inv p \<Longrightarrow> finite (live p) \<and> card (live p) \<le> cap p"
  using live_cap [of p] card_mono [of "{..<cap p}" "live p"] finite_subset by fastforce

lemma alloc_inv:
  assumes "inv p"
  shows "inv (snd (alloc p)) \<and> cap (snd (alloc p)) = cap p"
proof (cases "alloc p")
  case (Pair r q)
  thus ?thesis using alloc_some [OF assms, of _ q] alloc_none [OF assms, of q] by (cases r) auto
qed

end

text \<open>A pool that ignores the release of a slot that is not live.\<close>

locale guarded_pool = slot_pool +
  assumes release_dead: "inv p \<Longrightarrow> i \<notin> live p \<Longrightarrow> release i p = p"
begin

lemma release_any:
  "inv p \<Longrightarrow> inv (release i p) \<and> live (release i p) = live p - {i} \<and> cap (release i p) = cap p"
  using release_live release_dead by (cases "i \<in> live p") auto

lemma run_inv: "inv p \<Longrightarrow> inv (snd (pool_run alloc release live ops p)) \<and>
    cap (snd (pool_run alloc release live ops p)) = cap p"
proof (induction ops arbitrary: p)
  case Nil
  thus ?case by simp
next
  case (Cons op ops)
  thus ?case
    using alloc_inv [OF Cons.prems] release_any [OF Cons.prems]
    by (cases op) (auto simp: case_prod_beta Let_def)
qed

lemma run_exclusive:
  assumes "inv p" "(l, r) \<in> set (fst (pool_run alloc release live ops p))"
  shows "case r of Some i \<Rightarrow> i < cap p \<and> i \<notin> l | None \<Rightarrow> l = {..<cap p}"
  using assms
proof (induction ops arbitrary: p)
  case Nil
  thus ?case by simp
next
  case (Cons op ops)
  show ?case
  proof (cases op)
    case Alloc
    obtain r' q where q: "alloc p = (r', q)" by fastforce
    have iq: "inv q" "cap q = cap p" using alloc_inv [OF Cons.prems(1)] q by auto
    have "(l, r) = (live p, r') \<or> (l, r) \<in> set (fst (pool_run alloc release live ops q))"
      using Cons.prems(2) Alloc q by (auto simp: case_prod_beta Let_def)
    thus ?thesis
    proof
      assume "(l, r) = (live p, r')"
      thus ?thesis
        using alloc_some [OF Cons.prems(1), of _ q] alloc_none [OF Cons.prems(1), of q] q
        by (auto split: option.splits)
    next
      assume "(l, r) \<in> set (fst (pool_run alloc release live ops q))"
      from Cons.IH [OF iq(1) this] show ?thesis by (simp only: iq(2))
    qed
  next
    case (Release i)
    have q: "inv (release i p)" "cap (release i p) = cap p"
      using release_any [OF Cons.prems(1)] by simp_all
    have "(l, r) \<in> set (fst (pool_run alloc release live ops (release i p)))"
      using Cons.prems(2) Release by simp
    from Cons.IH [OF q(1) this] show ?thesis by (simp only: q(2))
  qed
qed

end

section \<open>Chains of free indices\<close>

text \<open>The chain of free indices from a head through an array of next indices.\<close>

fun free_chain :: "u32 \<Rightarrow> u32 list \<Rightarrow> u32 \<Rightarrow> nat list \<Rightarrow> bool" where
  "free_chain stop nx h [] = (h = stop)"
| "free_chain stop nx h (i # is) = (h = word_of_nat i \<and> i < length nx \<and> free_chain stop nx (nx ! i) is)"

lemma free_chain_bound: "free_chain stop nx h xs \<Longrightarrow> set xs \<subseteq> {..<length nx}"
  by (induction xs arbitrary: h) auto

lemma free_chain_update:
  "i \<notin> set xs \<Longrightarrow> free_chain stop (nx[i := v]) h xs = free_chain stop nx h xs"
  by (induction xs arbitrary: h) auto

lemma free_chain_unique:
  assumes "free_chain stop nx h xs" "free_chain stop nx h ys"
    and "\<forall>i < length nx. (word_of_nat i :: u32) \<noteq> stop \<and> unat (word_of_nat i :: u32) = i"
  shows "xs = ys"
  using assms(1,2)
proof (induction xs arbitrary: h ys)
  case Nil
  thus ?case using assms(3) by (cases ys) auto
next
  case (Cons i xs)
  then obtain j ys' where ys: "ys = j # ys'" using assms(3) by (cases ys) auto
  hence "i = j" using Cons.prems assms(3) by (metis free_chain.simps(2))
  thus ?case using Cons ys by auto
qed

text \<open>The initial chain \<open>0, 1, ..., n - 1\<close>.\<close>

lemma free_chain_upt:
  assumes "length nx = n" "\<forall>i < n. nx ! i = (if Suc i = n then stop else word_of_nat (Suc i))"
  shows "k \<le> n \<Longrightarrow> free_chain stop nx (if k = n then stop else word_of_nat k) [k..<n]"
proof (induction "n - k" arbitrary: k)
  case 0
  thus ?case by simp
next
  case (Suc d)
  hence k: "k < n" by simp
  have "free_chain stop nx (if Suc k = n then stop else word_of_nat (Suc k)) [Suc k..<n]"
    using Suc k by (intro Suc.hyps) auto
  thus ?case using k assms by (simp add: upt_rec [of k n])
qed

end
