(* ===== verification/Ws_Utils.thy ===== *)
theory Ws_Utils
  imports Slot_Pool
begin

text \<open>
  Shared helpers (ws\_utils.c): SHA-1 and Base64 for the accept key, case-insensitive string
  comparison and token search, the FNV-1a hash, the free-index stack and the performance
  counters. A NUL-terminated string is the list of its bytes before the NUL.
\<close>

definition bytes_of :: "string \<Rightarrow> bytes" where
  "bytes_of s = map of_char s"

text \<open>Reading \<open>s[i]\<close> of a NUL-terminated string.\<close>

definition cchar :: "bytes \<Rightarrow> nat \<Rightarrow> u8" where
  "cchar s i = (if i < length s then s ! i else 0)"

section \<open>SHA-1\<close>

definition rotl32 :: "nat \<Rightarrow> u32 \<Rightarrow> u32" where
  "rotl32 n x = push_bit n x OR drop_bit (32 - n) x"

function sha1_zeros :: "nat \<Rightarrow> bytes" where
  "sha1_zeros new_len = (if new_len mod 64 = 56 then [] else 0 # sha1_zeros (new_len + 1))"
  by pat_completeness auto
termination
proof (relation "measure (\<lambda>n. (120 - n mod 64) mod 64)")
  fix n :: nat assume n: "n mod 64 \<noteq> 56"
  define k where "k = n mod 64"
  have "Suc n mod 64 = (if k = 63 then 0 else Suc k)" "k < 64" "k \<noteq> 56"
    using n by (simp_all add: mod_Suc k_def)
  moreover have "(120 - Suc k) mod 64 < (120 - k) mod 64" if "k < 56"
    using that by (simp add: mod_if [of "119 - k"] mod_if [of "120 - k"]) arith
  moreover have "(120 - Suc k) mod 64 < (120 - k) mod 64" if "56 < k" "k < 63"
    using that by (simp add: mod_if [of "119 - k"] mod_if [of "120 - k"]) arith
  ultimately show "(n + 1, n) \<in> measure (\<lambda>n. (120 - n mod 64) mod 64)"
    by (cases "k < 56"; cases "k < 63") (auto simp: k_def [symmetric])
qed simp

declare sha1_zeros.simps [simp del]

definition sha1_pad :: "bytes \<Rightarrow> bytes" where
  "sha1_pad data =
    (let len = length data;
         bit_len = (word_of_nat len * 8 :: u64);
         msg = data @ [0x80] @ sha1_zeros (len + 1)
     in msg @ map (\<lambda>i. ucast (drop_bit (56 - i * 8) bit_len AND 0xFF)) [0..<8])"

definition sha1_word :: "bytes \<Rightarrow> nat \<Rightarrow> u32" where
  "sha1_word chunk i =
    push_bit 24 (ucast (chunk ! (i * 4))) OR push_bit 16 (ucast (chunk ! (i * 4 + 1))) OR
    push_bit 8 (ucast (chunk ! (i * 4 + 2))) OR ucast (chunk ! (i * 4 + 3))"

definition sha1_extend :: "u32 list \<Rightarrow> nat \<Rightarrow> u32 list" where
  "sha1_extend w i =
    (let tmp = w ! (i - 3) XOR w ! (i - 8) XOR w ! (i - 14) XOR w ! (i - 16)
     in w @ [push_bit 1 tmp OR drop_bit 31 tmp])"

type_synonym sha1_state = "u32 \<times> u32 \<times> u32 \<times> u32 \<times> u32"

fun sha1_round :: "u32 list \<Rightarrow> sha1_state \<Rightarrow> nat \<Rightarrow> sha1_state" where
  "sha1_round w (a, b, c, d, e) i =
    (let (f, k) =
       (if i < 20 then ((b AND c) OR (NOT b AND d), 0x5A827999)
        else if i < 40 then (b XOR c XOR d, 0x6ED9EBA1)
        else if i < 60 then ((b AND c) OR (b AND d) OR (c AND d), 0x8F1BBCDC)
        else (b XOR c XOR d, 0xCA62C1D6));
         temp = rotl32 5 a + f + e + k + w ! i
     in (temp, a, rotl32 30 b, c, d))"

fun sha1_chunk :: "sha1_state \<Rightarrow> bytes \<Rightarrow> sha1_state" where
  "sha1_chunk (h0, h1, h2, h3, h4) chunk =
    (let w = foldl sha1_extend (map (sha1_word chunk) [0..<16]) [16..<80];
         (a, b, c, d, e) = foldl (sha1_round w) (h0, h1, h2, h3, h4) [0..<80]
     in (h0 + a, h1 + b, h2 + c, h3 + d, h4 + e))"

definition sha1_out :: "u32 \<Rightarrow> bytes" where
  "sha1_out h = [ucast (drop_bit 24 h AND 0xFF), ucast (drop_bit 16 h AND 0xFF),
     ucast (drop_bit 8 h AND 0xFF), ucast (h AND 0xFF)]"

definition ws_sha1 :: "(nat \<Rightarrow> bool) \<Rightarrow> bytes \<Rightarrow> bytes option" where
  "ws_sha1 malloc_ok data =
    (if \<not> malloc_ok (length data + 72) then None
     else
       let msg = sha1_pad data;
           (h0, h1, h2, h3, h4) =
             foldl (\<lambda>h k. sha1_chunk h (take 64 (drop (64 * k) msg)))
               (0x67452301, 0xEFCDAB89, 0x98BADCFE, 0x10325476, 0xC3D2E1F0)
               [0..<length msg div 64]
       in Some (sha1_out h0 @ sha1_out h1 @ sha1_out h2 @ sha1_out h3 @ sha1_out h4))"

section \<open>Base64\<close>

definition base64_chars :: bytes where
  "base64_chars = bytes_of ''ABCDEFGHIJKLMNOPQRSTUVWXYZabcdefghijklmnopqrstuvwxyz0123456789+/''"

definition base64_quad :: "u8 \<Rightarrow> u8 \<Rightarrow> u8 \<Rightarrow> bytes" where
  "base64_quad x y z =
    (let triple = (push_bit 16 (ucast x) OR push_bit 8 (ucast y) OR ucast z :: u32)
     in [base64_chars ! unat (drop_bit 18 triple AND 0x3F),
         base64_chars ! unat (drop_bit 12 triple AND 0x3F),
         base64_chars ! unat (drop_bit 6 triple AND 0x3F),
         base64_chars ! unat (triple AND 0x3F)])"

fun base64_loop :: "bytes \<Rightarrow> bytes" where
  "base64_loop [] = []"
| "base64_loop [a] = base64_quad a 0 0"
| "base64_loop [a, b] = base64_quad a b 0"
| "base64_loop (a # b # c # rest) = base64_quad a b c @ base64_loop rest"

definition WS_BASE64_ENCODED_SIZE :: "nat \<Rightarrow> nat" where
  "WS_BASE64_ENCODED_SIZE n = (n + 2) div 3 * 4"

text \<open>The characters written before the terminating NUL; \<open>None\<close> is -1.\<close>

definition ws_base64_encode :: "bytes \<Rightarrow> nat \<Rightarrow> bytes option" where
  "ws_base64_encode input output_size =
    (let encoded_len = WS_BASE64_ENCODED_SIZE (length input);
         pad = (3 - length input mod 3) mod 3
     in if output_size < encoded_len + 1 then None
        else Some (take (encoded_len - pad) (base64_loop input) @ replicate pad (of_char CHR ''='')))"

definition base64_char :: "u8 \<Rightarrow> bool" where
  "base64_char c \<longleftrightarrow>
    (of_char CHR ''A'' \<le> c \<and> c \<le> of_char CHR ''Z'') \<or> (of_char CHR ''a'' \<le> c \<and> c \<le> of_char CHR ''z'') \<or>
    (of_char CHR ''0'' \<le> c \<and> c \<le> of_char CHR ''9'') \<or> c = of_char CHR ''+'' \<or>
    c = of_char CHR ''/'' \<or> c = of_char CHR ''=''"

fun base64_scan :: "bool \<Rightarrow> bytes \<Rightarrow> bool" where
  "base64_scan padding_found [] = True"
| "base64_scan padding_found (c # cs) =
    (if \<not> base64_char c then False
     else if c = of_char CHR ''='' then base64_scan True cs
     else if padding_found then False
     else base64_scan padding_found cs)"

definition ws_is_valid_base64 :: "bytes \<Rightarrow> bool" where
  "ws_is_valid_base64 input = (if length input mod 4 \<noteq> 0 then False else base64_scan False input)"

definition WS_WEBSOCKET_MAGIC_STRING :: bytes where
  "WS_WEBSOCKET_MAGIC_STRING = bytes_of ''258EAFA5-E914-47DA-95CA-C5AB0DC85B11''"

text \<open>\<open>snprintf\<close> into the fixed buffer truncates the concatenation.\<close>

definition ws_generate_accept_key :: "(nat \<Rightarrow> bool) \<Rightarrow> bytes \<Rightarrow> bytes option" where
  "ws_generate_accept_key malloc_ok client_key =
    (let combined = take (24 + length WS_WEBSOCKET_MAGIC_STRING) (client_key @ WS_WEBSOCKET_MAGIC_STRING)
     in case ws_sha1 malloc_ok combined of
          None \<Rightarrow> None
        | Some hash \<Rightarrow>
            (case ws_base64_encode hash (28 + 1) of
               None \<Rightarrow> None
             | Some key \<Rightarrow> if length key \<noteq> 28 then None else Some key))"

definition ws_validate_websocket_key :: "bytes \<Rightarrow> bool" where
  "ws_validate_websocket_key key = (if length key \<noteq> 24 then False else ws_is_valid_base64 key)"

section \<open>Strings\<close>

definition tolower :: "u8 \<Rightarrow> u8" where
  "tolower c = (if 65 \<le> c \<and> c \<le> 90 then c + 32 else c)"

definition cdiff :: "u8 \<Rightarrow> u8 \<Rightarrow> int" where
  "cdiff a b = sint (tolower a) - sint (tolower b)"

fun ws_strcasecmp :: "bytes \<Rightarrow> bytes \<Rightarrow> int" where
  "ws_strcasecmp (a # s1) (b # s2) = (if cdiff a b \<noteq> 0 then cdiff a b else ws_strcasecmp s1 s2)"
| "ws_strcasecmp s1 s2 = cdiff (cchar s1 0) (cchar s2 0)"

fun ws_strncasecmp :: "bytes \<Rightarrow> bytes \<Rightarrow> nat \<Rightarrow> int" where
  "ws_strncasecmp s1 s2 0 = 0"
| "ws_strncasecmp s1 s2 (Suc n) =
    (let diff = cdiff (cchar s1 0) (cchar s2 0) in
     if diff \<noteq> 0 \<or> s1 = [] \<or> s2 = [] then diff else ws_strncasecmp (tl s1) (tl s2) n)"

definition isspace :: "u8 \<Rightarrow> bool" where
  "isspace c \<longleftrightarrow> c = 32 \<or> (9 \<le> c \<and> c \<le> 13)"

text \<open>The trailing loop keeps the first character: it stops at \<open>end > str\<close>.\<close>

definition ws_trim_whitespace :: "bytes \<Rightarrow> bytes" where
  "ws_trim_whitespace str =
    (case dropWhile isspace str of
       [] \<Rightarrow> []
     | c # cs \<Rightarrow> c # rev (dropWhile isspace (rev cs)))"

text \<open>\<open>strtok_r\<close> with a delimiter set: the maximal runs of non-delimiters.\<close>

function strtok_all :: "(u8 \<Rightarrow> bool) \<Rightarrow> bytes \<Rightarrow> bytes list" where
  "strtok_all delim s =
    (case dropWhile delim s of
       [] \<Rightarrow> []
     | c # cs \<Rightarrow> takeWhile (\<lambda>x. \<not> delim x) (c # cs) # strtok_all delim (dropWhile (\<lambda>x. \<not> delim x) (c # cs)))"
  by pat_completeness auto
termination
proof (relation "measure (\<lambda>(delim, s). length s)")
  fix delim :: "u8 \<Rightarrow> bool" and s c cs
  assume eq: "dropWhile delim s = c # cs"
  have "\<not> delim c" using hd_dropWhile [of delim s] eq by simp
  hence "length (dropWhile (\<lambda>x. \<not> delim x) (c # cs)) \<le> length cs"
    by (simp add: length_dropWhile_le)
  moreover have "length (c # cs) \<le> length s" using eq length_dropWhile_le by metis
  ultimately show "((delim, dropWhile (\<lambda>x. \<not> delim x) (c # cs)), (delim, s)) \<in> measure (\<lambda>(delim, s). length s)"
    by simp
qed simp

declare strtok_all.simps [simp del]

definition token_delim :: "u8 \<Rightarrow> bool" where
  "token_delim c \<longleftrightarrow> c = 32 \<or> c = 9 \<or> c = 44"

definition ws_string_contains_token :: "(nat \<Rightarrow> bool) \<Rightarrow> bytes \<Rightarrow> bytes \<Rightarrow> bool" where
  "ws_string_contains_token malloc_ok str token =
    (if \<not> malloc_ok (length str + 1) then False
     else list_ex (\<lambda>current. ws_strcasecmp (ws_trim_whitespace current) token = 0)
       (strtok_all token_delim str))"

section \<open>FNV-1a\<close>

definition ws_fnv1a_hash :: "bytes \<Rightarrow> u64" where
  "ws_fnv1a_hash data = foldl (\<lambda>hash b. (hash XOR ucast b) * 1099511628211) 14695981039346656037 data"

definition ws_fnv1a_hash_uint32 :: "u32 \<Rightarrow> u64" where
  "ws_fnv1a_hash_uint32 value = ws_fnv1a_hash (store_le 4 value)"

section \<open>Stack of free indices\<close>

text \<open>\<open>as_data\<close> is \<open>None\<close> for NULL; the head \<open>UINTPTR_MAX\<close> is the empty stack.\<close>

definition UINTPTR_MAX :: u64 where
  "UINTPTR_MAX = 0xFFFFFFFFFFFFFFFF"

definition UINT32_MAX :: u32 where
  "UINT32_MAX = 0xFFFFFFFF"

record ws_atomic_stack =
  as_head :: u64
  as_data :: "u32 list option"
  as_capacity :: nat

definition ws_atomic_stack_init ::
  "(nat \<Rightarrow> bool) \<Rightarrow> ws_atomic_stack \<Rightarrow> nat \<Rightarrow> int \<times> ws_atomic_stack" where
  "ws_atomic_stack_init malloc_ok stack capacity =
    (if capacity = 0 then (-1, stack)
     else if \<not> malloc_ok (capacity * 4) then (-1, stack\<lparr>as_data := None\<rparr>)
     else (0, \<lparr>as_head = 0,
        as_data = Some (map (\<lambda>i. if i + 1 < capacity then word_of_nat (i + 1) else UINT32_MAX) [0..<capacity]),
        as_capacity = capacity\<rparr>))"

definition ws_atomic_stack_destroy :: "ws_atomic_stack \<Rightarrow> ws_atomic_stack" where
  "ws_atomic_stack_destroy stack =
    (case as_data stack of None \<Rightarrow> stack
     | Some _ \<Rightarrow> \<lparr>as_head = UINTPTR_MAX, as_data = None, as_capacity = 0\<rparr>)"

definition ws_atomic_stack_push :: "ws_atomic_stack \<Rightarrow> u32 \<Rightarrow> bool \<times> ws_atomic_stack" where
  "ws_atomic_stack_push stack v =
    (case as_data stack of
       None \<Rightarrow> (False, stack)
     | Some data \<Rightarrow>
         if unat v \<ge> as_capacity stack then (False, stack)
         else (True, stack\<lparr>
           as_data := Some (data[unat v := (if as_head stack = UINTPTR_MAX then UINT32_MAX
                                            else ucast (as_head stack))]),
           as_head := ucast v\<rparr>))"

definition ws_atomic_stack_pop :: "ws_atomic_stack \<Rightarrow> u32 option \<times> ws_atomic_stack" where
  "ws_atomic_stack_pop stack =
    (case as_data stack of
       None \<Rightarrow> (None, stack)
     | Some data \<Rightarrow>
         if as_head stack = UINTPTR_MAX then (None, stack)
         else
           let next = data ! unat (as_head stack)
           in (Some (ucast (as_head stack)),
               stack\<lparr>as_head := (if next = UINT32_MAX then UINTPTR_MAX else ucast next)\<rparr>))"

section \<open>Performance counters\<close>

record ws_perf_counters =
  pc_operations :: u64
  pc_bytes_processed :: u64
  pc_active_count :: u32
  pc_peak_count :: u32

definition ws_perf_counters_init :: ws_perf_counters where
  "ws_perf_counters_init = \<lparr>pc_operations = 0, pc_bytes_processed = 0, pc_active_count = 0, pc_peak_count = 0\<rparr>"

definition ws_perf_counters_increment_ops :: "ws_perf_counters \<Rightarrow> ws_perf_counters" where
  "ws_perf_counters_increment_ops c = c\<lparr>pc_operations := pc_operations c + 1\<rparr>"

definition ws_perf_counters_add_bytes :: "ws_perf_counters \<Rightarrow> u64 \<Rightarrow> ws_perf_counters" where
  "ws_perf_counters_add_bytes c n = c\<lparr>pc_bytes_processed := pc_bytes_processed c + n\<rparr>"

definition ws_perf_counters_increment_active :: "ws_perf_counters \<Rightarrow> ws_perf_counters" where
  "ws_perf_counters_increment_active c =
    (let new_count = pc_active_count c + 1
     in c\<lparr>pc_active_count := new_count,
          pc_peak_count := (if new_count > pc_peak_count c then new_count else pc_peak_count c)\<rparr>)"

definition ws_perf_counters_decrement_active :: "ws_perf_counters \<Rightarrow> ws_perf_counters" where
  "ws_perf_counters_decrement_active c = c\<lparr>pc_active_count := pc_active_count c - 1\<rparr>"


section \<open>Accept key\<close>

lemma length_base64_loop: "length (base64_loop xs) = WS_BASE64_ENCODED_SIZE (length xs)"
proof (induction xs rule: base64_loop.induct)
  case (4 a b c rest)
  have "(length rest + 2 + 3) div 3 = (length rest + 2) div 3 + 1" by (rule div_add_self2) simp
  thus ?case using 4 by (simp add: base64_quad_def Let_def WS_BASE64_ENCODED_SIZE_def add.commute)
qed (simp_all add: base64_quad_def Let_def WS_BASE64_ENCODED_SIZE_def)

lemma base64_chars_check: "list_all (\<lambda>c. base64_char c \<and> c \<noteq> of_char CHR ''='') base64_chars"
  by code_simp

lemma length_base64_chars: "length base64_chars = 64"
  by code_simp

lemma and_3f_less: "unat (x AND 0x3F :: u32) < 64"
proof -
  have "x AND 0x3F \<le> (0x3F :: u32)" by (rule word_and_le1)
  thus ?thesis by (simp add: word_le_nat_alt)
qed

lemma base64_loop_chars: "c \<in> set (base64_loop xs) \<Longrightarrow> base64_char c \<and> c \<noteq> 61"
proof (induction xs rule: base64_loop.induct)
  case (4 a b c rest)
  thus ?case
    using base64_chars_check and_3f_less length_base64_chars
    by (auto simp: base64_quad_def Let_def list_all_length)
qed (use base64_chars_check and_3f_less length_base64_chars in
      \<open>auto simp: base64_quad_def Let_def list_all_length\<close>)

lemma base64_scan_pad: "base64_scan True (replicate n (61))"
  by (induction n) (auto simp: base64_char_def)

lemma base64_scan_append:
  "(\<forall>c \<in> set xs. base64_char c \<and> c \<noteq> 61) \<Longrightarrow>
   base64_scan False (xs @ replicate n (61))"
proof (induction xs)
  case Nil
  thus ?case by (cases n) (auto simp: base64_char_def base64_scan_pad)
qed auto

lemma ws_base64_encode_valid:
  assumes "WS_BASE64_ENCODED_SIZE (length input) < output_size"
  shows "\<exists>out. ws_base64_encode input output_size = Some out \<and>
    length out = WS_BASE64_ENCODED_SIZE (length input) \<and> ws_is_valid_base64 out"
proof -
  let ?e = "WS_BASE64_ENCODED_SIZE (length input)"
  let ?pad = "(3 - length input mod 3) mod 3"
  let ?out = "take (?e - ?pad) (base64_loop input) @ replicate ?pad (61)"
  have pad: "(of_char CHR ''='' :: u8) = 61" by simp
  have le: "?pad \<le> ?e"
    by (cases "length input") (auto simp: WS_BASE64_ENCODED_SIZE_def intro: le_trans [of _ 2])
  have len: "length ?out = ?e" using le by (simp add: length_base64_loop)
  have "base64_scan False ?out"
    by (rule base64_scan_append) (auto dest: in_set_takeD base64_loop_chars)
  moreover have "?e mod 4 = 0" by (simp add: WS_BASE64_ENCODED_SIZE_def)
  ultimately have "ws_is_valid_base64 ?out" using len by (simp add: ws_is_valid_base64_def)
  moreover have "ws_base64_encode input output_size = Some ?out"
    using assms by (simp add: ws_base64_encode_def Let_def pad)
  ultimately show ?thesis using len by blast
qed

lemma ws_sha1_length: "ws_sha1 malloc_ok data = Some h \<Longrightarrow> length h = 20"
  by (auto simp: ws_sha1_def sha1_out_def Let_def split: prod.splits if_splits)

lemma ws_sha1_total: "\<forall>n. malloc_ok n \<Longrightarrow> \<exists>h. ws_sha1 malloc_ok data = Some h"
  by (simp add: ws_sha1_def Let_def case_prod_beta)

lemma generate_accept_key:
  assumes "\<forall>n. malloc_ok n"
  shows "\<exists>key. ws_generate_accept_key malloc_ok client_key = Some key \<and> length key = 28 \<and>
    ws_is_valid_base64 key"
proof -
  let ?m = "take (24 + length WS_WEBSOCKET_MAGIC_STRING) (client_key @ WS_WEBSOCKET_MAGIC_STRING)"
  obtain h where h: "ws_sha1 malloc_ok ?m = Some h" using ws_sha1_total [OF assms] by blast
  have "WS_BASE64_ENCODED_SIZE (length h) = 28"
    using ws_sha1_length [OF h] by (simp add: WS_BASE64_ENCODED_SIZE_def)
  then obtain k where "ws_base64_encode h (28 + 1) = Some k" "length k = 28" "ws_is_valid_base64 k"
    using ws_base64_encode_valid [of h "28 + 1"] by auto
  thus ?thesis using h by (simp add: ws_generate_accept_key_def Let_def)
qed



section \<open>Token search\<close>

lemma tolower_zero: "tolower c = 0 \<longleftrightarrow> c = 0"
proof -
  have "\<forall>n \<in> set [0..<256]. (tolower (word_of_nat n) = 0) = ((word_of_nat n :: u8) = 0)" by code_simp
  hence "\<forall>n < 256. (tolower (word_of_nat n) = 0) = ((word_of_nat n :: u8) = 0)" by simp
  thus ?thesis by (rule u8_less_256_cases)
qed

lemma cdiff_zero: "cdiff a b = 0 \<longleftrightarrow> tolower a = tolower b"
proof
  assume "cdiff a b = 0"
  hence "(word_of_int (sint (tolower a)) :: u8) = word_of_int (sint (tolower b))"
    by (simp add: cdiff_def)
  thus "tolower a = tolower b" by simp
qed (simp add: cdiff_def)

text \<open>On strings without NUL bytes the comparison decides equality up to ASCII case.\<close>

lemma ws_strcasecmp_zero:
  assumes "0 \<notin> set s1" "0 \<notin> set s2"
  shows "ws_strcasecmp s1 s2 = 0 \<longleftrightarrow> map tolower s1 = map tolower s2"
  using assms
proof (induction s1 s2 rule: ws_strcasecmp.induct, goal_cases)
  case (1 a s1 b s2)
  thus ?case by (auto simp: cdiff_zero)
next
  case (2 s2)
  have "tolower 0 \<noteq> tolower c" if "c \<noteq> 0" for c using that tolower_zero by metis
  thus ?case using 2 by (cases s2) (auto simp: cdiff_zero cchar_def)
next
  case (3 s1)
  have "tolower c \<noteq> tolower 0" if "c \<noteq> 0" for c using that tolower_zero by metis
  thus ?case using 3 by (cases s1) (auto simp: cdiff_zero cchar_def)
qed

section \<open>The free-index stack is a slot pool\<close>

text \<open>
  The stack represents the free indices \<open>xs\<close>, top first. Its capacity is at most
  \<open>UINT32_MAX\<close>, so that no index is the end marker.
\<close>

definition stack_rep :: "ws_atomic_stack \<Rightarrow> nat list \<Rightarrow> bool" where
  "stack_rep s xs \<longleftrightarrow>
    (\<exists>d. as_data s = Some d \<and> length d = as_capacity s \<and> as_capacity s \<le> unat UINT32_MAX \<and> distinct xs \<and>
      free_chain UINT32_MAX d (if as_head s = UINTPTR_MAX then UINT32_MAX else ucast (as_head s)) xs \<and>
      (as_head s \<noteq> UINTPTR_MAX \<longrightarrow> unat (as_head s) < as_capacity s))"

definition stack_inv :: "ws_atomic_stack \<Rightarrow> bool" where
  "stack_inv s \<longleftrightarrow> (\<exists>xs. stack_rep s xs)"

definition stack_live :: "ws_atomic_stack \<Rightarrow> nat set" where
  "stack_live s = {i. i < as_capacity s \<and> (\<forall>xs. stack_rep s xs \<longrightarrow> i \<notin> set xs)}"

definition stack_alloc :: "ws_atomic_stack \<Rightarrow> nat option \<times> ws_atomic_stack" where
  "stack_alloc s = (let (v, t) = ws_atomic_stack_pop s in (map_option unat v, t))"

definition stack_release :: "nat \<Rightarrow> ws_atomic_stack \<Rightarrow> ws_atomic_stack" where
  "stack_release i s = snd (ws_atomic_stack_push s (word_of_nat i))"

lemma stack_index:
  "i < n \<Longrightarrow> n \<le> unat UINT32_MAX \<Longrightarrow>
   (word_of_nat i :: u32) \<noteq> UINT32_MAX \<and> unat (word_of_nat i :: u32) = i \<and>
   (ucast (word_of_nat i :: u32) :: u64) = word_of_nat i \<and> (word_of_nat i :: u64) \<noteq> UINTPTR_MAX \<and>
   unat (word_of_nat i :: u64) = i \<and> (ucast (word_of_nat i :: u64) :: u32) = word_of_nat i"
proof -
  assume "i < n" "n \<le> unat UINT32_MAX"
  hence i: "i < 2 ^ 32 - 1" by (simp add: UINT32_MAX_def)
  have a: "unat (word_of_nat i :: u32) = i" "unat (word_of_nat i :: u64) = i"
    using i by (simp_all add: unat_of_nat)
  moreover have "unat UINT32_MAX = 2 ^ 32 - 1" "unat UINTPTR_MAX = 2 ^ 64 - 1"
    by (simp_all add: UINT32_MAX_def UINTPTR_MAX_def)
  moreover have "(ucast (word_of_nat i :: u32) :: u64) = word_of_nat i"
    "(ucast (word_of_nat i :: u64) :: u32) = word_of_nat i"
    using i by (simp_all add: unsigned_of_nat take_bit_nat_eq_self)
  ultimately show ?thesis using i by fastforce
qed

lemma stack_rep_unique: "stack_rep s xs \<Longrightarrow> stack_rep s ys \<Longrightarrow> xs = ys"
  unfolding stack_rep_def using free_chain_unique stack_index by (metis option.inject)

lemma stack_rep_bound: "stack_rep s xs \<Longrightarrow> set xs \<subseteq> {..<as_capacity s}"
  by (auto simp: stack_rep_def dest!: free_chain_bound)

lemma stack_live_rep: "stack_rep s xs \<Longrightarrow> stack_live s = {..<as_capacity s} - set xs"
  using stack_rep_unique by (auto simp: stack_live_def)

lemma stack_init_rep:
  assumes "ws_atomic_stack_init malloc_ok s0 capacity = (0, s)" "capacity \<le> unat UINT32_MAX"
  shows "stack_rep s [0..<capacity]"
proof -
  let ?d = "map (\<lambda>i. if i + 1 < capacity then word_of_nat (i + 1) else UINT32_MAX) [0..<capacity]"
  have s: "as_data s = Some ?d" "as_head s = 0" "as_capacity s = capacity" "0 < capacity"
    using assms(1) by (auto simp: ws_atomic_stack_init_def split: if_splits)
  have "free_chain UINT32_MAX ?d (if 0 = capacity then UINT32_MAX else word_of_nat 0) [0..<capacity]"
    by (rule free_chain_upt) auto
  thus ?thesis using s assms(2) by (simp add: stack_rep_def UINTPTR_MAX_def)
qed

lemma stack_pop_rep:
  assumes "stack_rep s xs"
  shows "case xs of
      [] \<Rightarrow> ws_atomic_stack_pop s = (None, s)
    | i # ys \<Rightarrow> fst (ws_atomic_stack_pop s) = Some (word_of_nat i) \<and>
        stack_rep (snd (ws_atomic_stack_pop s)) ys \<and>
        as_capacity (snd (ws_atomic_stack_pop s)) = as_capacity s"
proof -
  obtain d where d: "as_data s = Some d" "length d = as_capacity s" "as_capacity s \<le> unat UINT32_MAX"
      "distinct xs"
      "free_chain UINT32_MAX d (if as_head s = UINTPTR_MAX then UINT32_MAX else ucast (as_head s)) xs"
      "as_head s \<noteq> UINTPTR_MAX \<longrightarrow> unat (as_head s) < as_capacity s"
    using assms by (auto simp: stack_rep_def)
  have head: "\<exists>k. as_head s = word_of_nat k \<and> k < as_capacity s" if "as_head s \<noteq> UINTPTR_MAX"
    using d(6) that by (intro exI [of _ "unat (as_head s)"]) simp
  show ?thesis
  proof (cases xs)
    case Nil
    have "as_head s = UINTPTR_MAX"
    proof (rule ccontr)
      assume ne: "as_head s \<noteq> UINTPTR_MAX"
      then obtain k where k: "as_head s = word_of_nat k" "k < as_capacity s" using head by blast
      thus False using stack_index [OF k(2) d(3)] d(5) Nil ne by simp
    qed
    thus ?thesis using Nil d(1) by (simp add: ws_atomic_stack_pop_def)
  next
    case (Cons i ys)
    have i: "i < as_capacity s" using d(2,5) Cons by simp
    note w = stack_index [OF i d(3)]
    have ne: "as_head s \<noteq> UINTPTR_MAX"
      using d(5) Cons w by (cases "as_head s = UINTPTR_MAX") simp_all
    then obtain k where k: "as_head s = word_of_nat k" "k < as_capacity s" using head by blast
    note wk = stack_index [OF k(2) d(3)]
    have "(word_of_nat k :: u32) = word_of_nat i" using d(5) Cons ne k wk by simp
    hence "k = i" using wk w by metis
    hence eq: "as_head s = word_of_nat i" "unat (as_head s) = i"
      "ucast (as_head s) = (word_of_nat i :: u32)" using k w by simp_all
    have nxt: "free_chain UINT32_MAX d (d ! i) ys" using d(5) Cons by simp
    have nb: "(ucast (d ! i) :: u64) \<noteq> UINTPTR_MAX" "unat (ucast (d ! i) :: u64) < as_capacity s"
      "(ucast (ucast (d ! i) :: u64) :: u32) = d ! i" if "d ! i \<noteq> UINT32_MAX"
    proof -
      obtain j zs where "ys = j # zs" using nxt \<open>d ! i \<noteq> UINT32_MAX\<close> by (cases ys) simp_all
      hence j: "d ! i = word_of_nat j" "j < as_capacity s" using nxt d(2) by simp_all
      note v = stack_index [OF j(2) d(3)]
      show "(ucast (d ! i) :: u64) \<noteq> UINTPTR_MAX" "unat (ucast (d ! i) :: u64) < as_capacity s"
        "(ucast (ucast (d ! i) :: u64) :: u32) = d ! i"
        using v j by simp_all
    qed
    define h where "h = (if d ! i = UINT32_MAX then UINTPTR_MAX else ucast (d ! i))"
    have pop: "ws_atomic_stack_pop s = (Some (word_of_nat i), s\<lparr>as_head := h\<rparr>)"
      using d(1) ne eq(2,3) by (simp add: ws_atomic_stack_pop_def Let_def h_def)
    have "(if h = UINTPTR_MAX then UINT32_MAX else ucast h) = d ! i" using nb by (simp add: h_def)
    moreover have "h \<noteq> UINTPTR_MAX \<longrightarrow> unat h < as_capacity s" using nb by (simp add: h_def)
    ultimately have "stack_rep (s\<lparr>as_head := h\<rparr>) ys"
      using d(1-4) Cons nxt unfolding stack_rep_def by (intro exI [of _ d]) (auto split: if_splits)
    thus ?thesis using Cons pop by simp
  qed
qed

lemma stack_push_rep:
  assumes "stack_rep s xs" "i < as_capacity s" "i \<notin> set xs"
  shows "stack_rep (stack_release i s) (i # xs) \<and> as_capacity (stack_release i s) = as_capacity s"
proof -
  obtain d where d: "as_data s = Some d" "length d = as_capacity s" "as_capacity s \<le> unat UINT32_MAX"
      "distinct xs"
      "free_chain UINT32_MAX d (if as_head s = UINTPTR_MAX then UINT32_MAX else ucast (as_head s)) xs"
    using assms(1) by (auto simp: stack_rep_def)
  note w = stack_index [OF assms(2) d(3)]
  show ?thesis
    using d w assms(2,3)
    by (simp add: stack_release_def ws_atomic_stack_push_def stack_rep_def free_chain_update)
qed

interpretation fstack: slot_pool stack_inv stack_live as_capacity stack_alloc stack_release
proof (unfold_locales, goal_cases)
  case (1 s)
  thus ?case by (auto simp: stack_live_def)
next
  case (2 s i t)
  then obtain xs where rep: "stack_rep s xs" by (auto simp: stack_inv_def)
  then obtain j ys where xs: "xs = j # ys"
    using stack_pop_rep [OF rep] 2 by (cases xs) (auto simp: stack_alloc_def)
  have j: "j < as_capacity s" "j \<notin> set ys"
    using stack_rep_bound [OF rep] rep xs by (auto simp: stack_rep_def)
  have cap: "as_capacity s \<le> unat UINT32_MAX" using rep by (auto simp: stack_rep_def)
  have t: "i = j" "stack_rep t ys" "as_capacity t = as_capacity s"
    using stack_pop_rep [OF rep] 2 xs stack_index [OF j(1) cap]
    by (auto simp: stack_alloc_def case_prod_beta Let_def)
  show ?case
    using t j stack_live_rep [OF rep] stack_live_rep [OF t(2)] xs by (auto simp: stack_inv_def)
next
  case (3 s t)
  then obtain xs where rep: "stack_rep s xs" by (auto simp: stack_inv_def)
  hence "xs = []" "t = s"
    using stack_pop_rep [OF rep] 3 by (cases xs; auto simp: stack_alloc_def case_prod_beta Let_def)+
  thus ?case using 3 rep stack_live_rep by (auto simp: stack_inv_def)
next
  case (4 s i)
  then obtain xs where rep: "stack_rep s xs" by (auto simp: stack_inv_def)
  have i: "i < as_capacity s" "i \<notin> set xs" using 4 stack_live_rep [OF rep] by auto
  show ?case
    using stack_push_rep [OF rep i] stack_live_rep [OF rep] stack_live_rep [of "stack_release i s" "i # xs"]
    by (auto simp: stack_inv_def)
qed

end
