(* ===== verification/C_Text.thy ===== *)
theory C_Text
  imports Ws_Utils
begin

text \<open>
  Text as the C library handles it, on byte lists: decimal output, searches in strings,
  comparison up to ASCII case, and bounded copies.
\<close>

definition CRLF :: bytes where
  "CRLF = [13, 10]"

text \<open>The contents of a NUL-terminated buffer.\<close>

definition cstr :: "bytes \<Rightarrow> bytes" where
  "cstr s = takeWhile (\<lambda>c. c \<noteq> 0) s"

text \<open>\<open>strncpy\<close> into a buffer of \<open>n\<close> bytes, terminated by hand: at most \<open>n - 1\<close> bytes are kept.\<close>

definition copy_trunc :: "nat \<Rightarrow> bytes \<Rightarrow> bytes" where
  "copy_trunc n s = take (n - 1) s"

text \<open>Unsigned decimal, as \<open>%zu\<close> and \<open>%d\<close> print it.\<close>

fun dec :: "nat \<Rightarrow> bytes" where
  "dec n = (if n < 10 then [48 + word_of_nat n] else dec (n div 10) @ [48 + word_of_nat (n mod 10)])"

declare dec.simps [simp del]

definition ci_prefix :: "bytes \<Rightarrow> bytes \<Rightarrow> bool" where
  "ci_prefix name s \<longleftrightarrow> length name \<le> length s \<and> map tolower (take (length name) s) = map tolower name"

text \<open>
  \<open>strcasestr(s + pos, name)\<close> as the position of the match in \<open>s\<close>.
\<close>

definition strcasestr_from :: "bytes \<Rightarrow> bytes \<Rightarrow> nat \<Rightarrow> nat option" where
  "strcasestr_from s name pos = find (\<lambda>i. ci_prefix name (drop i s)) [pos..<Suc (length s)]"

text \<open>\<open>strstr(s, t)\<close> for a non-empty \<open>t\<close>: the bytes of \<open>s\<close> before the first occurrence, if any.\<close>

fun before :: "bytes \<Rightarrow> bytes \<Rightarrow> bytes option" where
  "before t [] = None"
| "before t (c # s) = (if take (length t) (c # s) = t then Some [] else map_option ((#) c) (before t s))"

section \<open>Facts\<close>

lemma before_line:
  assumes "13 \<notin> set l"
  shows "before CRLF (l @ CRLF @ rest) = Some l"
  using assms by (induction l) (auto simp: CRLF_def)

lemma before_none: "13 \<notin> set l \<Longrightarrow> before CRLF l = None"
  by (induction l) (auto simp: CRLF_def)

lemma find_append: "find P (xs @ ys) = (case find P xs of None \<Rightarrow> find P ys | Some x \<Rightarrow> Some x)"
  by (induction xs) auto

lemma find_upt_skip:
  assumes "\<forall>i. a \<le> i \<and> i < b \<longrightarrow> \<not> P i" "a \<le> b" "b \<le> c"
  shows "find P [a..<c] = find P [b..<c]"
proof -
  have "[a..<c] = [a..<b] @ [b..<c]" using assms(2,3) upt_add_eq_append [of a b "c - b"] by simp
  moreover have "find P [a..<b] = None" using assms(1) by (auto simp: find_None_iff)
  ultimately show ?thesis by (simp add: find_append)
qed

lemma find_Some_least:
  assumes "find P [a..<c] = Some i"
  shows "P i \<and> a \<le> i \<and> i < c \<and> (\<forall>j. a \<le> j \<and> j < i \<longrightarrow> \<not> P j)"
proof -
  obtain k where k: "k < length [a..<c]" "P ([a..<c] ! k)" "i = [a..<c] ! k" "\<forall>j < k. \<not> P ([a..<c] ! j)"
    using assms by (auto simp: find_Some_iff)
  have i: "i = a + k" "i < c" using k by auto
  have "\<not> P j" if "a \<le> j" "j < i" for j
    using k(4) [rule_format, of "j - a"] that i by auto
  thus ?thesis using k i by auto
qed

lemma map_tolower_length: "map tolower a = map tolower b \<Longrightarrow> length a = length b"
  by (metis length_map)

end
