(* ===== verification/Http_Parser.thy ===== *)
theory Http_Parser
  imports C_Text
begin

text \<open>
  The HTTP request parser the server uses (picohttpparser.c), on byte lists: a pointer into the
  input is the list of the bytes that remain. A parser step needs more data (the result -2), finds
  the input malformed (-1), or returns a value and the remaining input. \<open>sse\<close> says whether the
  SSE 4.2 search is compiled in.
\<close>

datatype 'a presult = PIncomplete | PMalformed | POk 'a bytes

fun pbind :: "'a presult \<Rightarrow> ('a \<Rightarrow> bytes \<Rightarrow> 'b presult) \<Rightarrow> 'b presult" where
  "pbind PIncomplete f = PIncomplete"
| "pbind PMalformed f = PMalformed"
| "pbind (POk x rest) f = f x rest"

section \<open>Character classes\<close>

definition IS_PRINTABLE_ASCII :: "u8 \<Rightarrow> bool" where
  "IS_PRINTABLE_ASCII c \<longleftrightarrow> c - 32 < 95"

text \<open>The rows of the table are those of the source, 32 entries each.\<close>

definition token_char_map :: "bool list" where
  "token_char_map = map (\<lambda>c. c = (1 :: nat))
    ([0,0,0,0,0,0,0,0,0,0,0,0,0,0,0,0,0,0,0,0,0,0,0,0,0,0,0,0,0,0,0,0] @
     [0,1,0,1,1,1,1,1,0,0,1,1,0,1,1,0,1,1,1,1,1,1,1,1,1,1,0,0,0,0,0,0] @
     [0,1,1,1,1,1,1,1,1,1,1,1,1,1,1,1,1,1,1,1,1,1,1,1,1,1,1,0,0,0,1,1] @
     [1,1,1,1,1,1,1,1,1,1,1,1,1,1,1,1,1,1,1,1,1,1,1,1,1,1,1,0,1,0,1,0] @
     replicate 128 0)"

definition token_char :: "u8 \<Rightarrow> bool" where
  "token_char c = token_char_map ! unat c"

definition in_ranges :: "(u8 \<times> u8) list \<Rightarrow> u8 \<Rightarrow> bool" where
  "in_ranges ranges c \<longleftrightarrow> (\<exists>(lo, hi) \<in> set ranges. lo \<le> c \<and> c \<le> hi)"

text \<open>
  The search in blocks of 16 bytes for the first byte in one of the ranges: the position it stops
  at, and whether it found one.
\<close>

primrec findchar_blocks :: "nat \<Rightarrow> bytes \<Rightarrow> (u8 \<times> u8) list \<Rightarrow> bytes \<times> bool" where
  "findchar_blocks 0 buf ranges = (buf, False)"
| "findchar_blocks (Suc blocks) buf ranges =
    (case find (\<lambda>r. in_ranges ranges (buf ! r)) [0..<16] of
       Some r \<Rightarrow> (drop r buf, True)
     | None \<Rightarrow> findchar_blocks blocks (drop 16 buf) ranges)"

definition findchar_fast :: "bool \<Rightarrow> bytes \<Rightarrow> (u8 \<times> u8) list \<Rightarrow> bytes \<times> bool" where
  "findchar_fast sse buf ranges =
    (if sse \<and> length buf \<ge> 16 then findchar_blocks (length buf div 16) buf ranges else (buf, False))"

definition ranges_token :: "(u8 \<times> u8) list" where
  "ranges_token = [(0, 32), (0x22, 0x22), (0x28, 0x29), (0x2C, 0x2C), (0x2F, 0x2F), (0x3A, 0x40), (0x5B, 0x5D), (0x7B, 0xFF)]"

definition ranges_path :: "(u8 \<times> u8) list" where
  "ranges_path = [(0, 32), (127, 127)]"

definition ranges_eol :: "(u8 \<times> u8) list" where
  "ranges_eol = [(0, 8), (10, 31), (127, 127)]"

section \<open>Tokens\<close>

text \<open>Both loops stop at the delimiter, which stays in the input.\<close>

fun token_loop :: "u8 \<Rightarrow> bytes \<Rightarrow> unit presult" where
  "token_loop next_char [] = PIncomplete"
| "token_loop next_char (c # cs) =
    (if c = next_char then POk () (c # cs) else if \<not> token_char c then PMalformed else token_loop next_char cs)"

text \<open>The token is the input consumed.\<close>

definition consumed :: "bytes \<Rightarrow> unit presult \<Rightarrow> bytes presult" where
  "consumed buf r = pbind r (\<lambda>_ rest. POk (take (length buf - length rest) buf) rest)"

definition parse_token :: "bool \<Rightarrow> bytes \<Rightarrow> u8 \<Rightarrow> bytes presult" where
  "parse_token sse buf next_char =
    (case findchar_fast sse buf ranges_token of
       (buf', found) \<Rightarrow> if \<not> found \<and> buf' = [] then PIncomplete else consumed buf (token_loop next_char buf'))"

fun path_loop :: "bytes \<Rightarrow> unit presult" where
  "path_loop [] = PIncomplete"
| "path_loop (c # cs) =
    (if c = 32 then POk () (c # cs)
     else if \<not> IS_PRINTABLE_ASCII c \<and> (c < 32 \<or> c = 127) then PMalformed else path_loop cs)"

definition ADVANCE_TOKEN :: "bool \<Rightarrow> bytes \<Rightarrow> bytes presult" where
  "ADVANCE_TOKEN sse buf =
    (case findchar_fast sse buf ranges_path of
       (buf', found) \<Rightarrow> if \<not> found \<and> buf' = [] then PIncomplete else consumed buf (path_loop buf'))"

definition expect_char :: "u8 \<Rightarrow> bytes \<Rightarrow> unit presult" where
  "expect_char ch buf = (case buf of [] \<Rightarrow> PIncomplete | c # cs \<Rightarrow> if c \<noteq> ch then PMalformed else POk () cs)"

text \<open>
  The rest of the line. Without SSE the source looks at eight bytes per round as long as there are
  eight; the flag of the result says that a control character was found.
\<close>

definition is_eol_ctl :: "u8 \<Rightarrow> bool" where
  "is_eol_ctl c \<longleftrightarrow> c < 32 \<and> c \<noteq> 9 \<or> c = 127"

function eol_by_eight :: "bytes \<Rightarrow> bytes \<times> bool" where
  "eol_by_eight buf =
    (if length buf \<ge> 8 then
       (case find (\<lambda>i. \<not> IS_PRINTABLE_ASCII (buf ! i)) [0..<8] of
          None \<Rightarrow> eol_by_eight (drop 8 buf)
        | Some i \<Rightarrow> if is_eol_ctl (buf ! i) then (drop i buf, True) else eol_by_eight (drop (i + 1) buf))
     else (buf, False))"
  by pat_completeness auto
termination by (relation "measure length") auto

declare eol_by_eight.simps [simp del]

fun eol_loop :: "bytes \<Rightarrow> unit presult" where
  "eol_loop [] = PIncomplete"
| "eol_loop (c # cs) = (if \<not> IS_PRINTABLE_ASCII c \<and> is_eol_ctl c then POk () (c # cs) else eol_loop cs)"

text \<open>At \<open>FOUND_CTL\<close>: the line ends with CRLF or LF.\<close>

definition found_ctl :: "bytes \<Rightarrow> bytes \<Rightarrow> bytes presult" where
  "found_ctl token buf =
    (case buf of
       [] \<Rightarrow> PMalformed
     | c # cs \<Rightarrow>
         if c = 13 then pbind (expect_char 10 cs) (\<lambda>_ rest. POk token rest)
         else if c = 10 then POk token cs
         else PMalformed)"

definition get_token_to_eol :: "bool \<Rightarrow> bytes \<Rightarrow> bytes presult" where
  "get_token_to_eol sse buf =
    (case (if sse then findchar_fast sse buf ranges_eol else eol_by_eight buf) of
       (buf', found) \<Rightarrow> pbind (consumed buf (if found then POk () buf' else eol_loop buf')) found_ctl)"

section \<open>Requests\<close>

text \<open>\<open>is_complete\<close> looks for two line ends in a row, from three bytes before \<open>last_len\<close>.\<close>

fun complete_loop :: "nat \<Rightarrow> bytes \<Rightarrow> unit presult" where
  "complete_loop ret_cnt [] = PIncomplete"
| "complete_loop ret_cnt (c # cs) =
    (if c = 13 then
       (case cs of
          [] \<Rightarrow> PIncomplete
        | d # ds \<Rightarrow> if d \<noteq> 10 then PMalformed else if ret_cnt + 1 = 2 then POk () ds else complete_loop (ret_cnt + 1) ds)
     else if c = 10 then (if ret_cnt + 1 = 2 then POk () cs else complete_loop (ret_cnt + 1) cs)
     else complete_loop 0 cs)"

declare complete_loop.simps [simp del]

definition is_complete :: "bytes \<Rightarrow> nat \<Rightarrow> unit presult" where
  "is_complete buf last_len = complete_loop 0 (if last_len < 3 then buf else drop (last_len - 3) buf)"

definition parse_http_version :: "bytes \<Rightarrow> int presult" where
  "parse_http_version buf =
    (if length buf < 9 then PIncomplete
     else if take 7 buf \<noteq> bytes_of ''HTTP/1.'' then PMalformed
     else
       let c = buf ! 7
       in if c < 48 \<or> 57 < c then PMalformed else POk (int (unat c) - 48) (drop 8 buf))"

text \<open>A folded line has no name: \<open>None\<close>.\<close>

type_synonym phr_header = "bytes option \<times> bytes"

definition strip_value :: "bytes \<Rightarrow> bytes" where
  "strip_value value = rev (dropWhile (\<lambda>c. c = 32 \<or> c = 9) (rev value))"

fun skip_blanks :: "bytes \<Rightarrow> unit presult" where
  "skip_blanks [] = PIncomplete"
| "skip_blanks (c # cs) = (if c = 32 \<or> c = 9 then skip_blanks cs else POk () (c # cs))"

definition parse_header_name :: "bool \<Rightarrow> nat \<Rightarrow> bytes \<Rightarrow> bytes option presult" where
  "parse_header_name sse num_headers buf =
    (if \<not> (num_headers \<noteq> 0 \<and> (hd buf = 32 \<or> hd buf = 9)) then
       pbind (parse_token sse buf 58)
         (\<lambda>name rest.
           if name = [] then PMalformed
           else pbind (skip_blanks (tl rest)) (\<lambda>_ rest. POk (Some name) rest))
     else POk None buf)"

text \<open>One header line.\<close>

definition parse_header_line :: "bool \<Rightarrow> nat \<Rightarrow> bytes \<Rightarrow> phr_header presult" where
  "parse_header_line sse num_headers buf =
    pbind (parse_header_name sse num_headers buf)
      (\<lambda>name rest. pbind (get_token_to_eol sse rest) (\<lambda>v rest. POk (name, strip_value v) rest))"

lemma pbind_cong [fundef_cong]:
  "r = r' \<Longrightarrow> (\<And>x rest. r' = POk x rest \<Longrightarrow> f x rest = g x rest) \<Longrightarrow> pbind r f = pbind r' g"
  by (cases r') auto

lemma pbind_POk: "pbind r f = POk y rest \<longleftrightarrow> (\<exists>x rest'. r = POk x rest' \<and> f x rest' = POk y rest)"
  by (cases r) auto

lemma pbind_PMalformed: "pbind r f = PMalformed \<longleftrightarrow> r = PMalformed \<or> (\<exists>x rest. r = POk x rest \<and> f x rest = PMalformed)"
  by (cases r) auto

lemma findchar_blocks_length: "length (fst (findchar_blocks k buf ranges)) \<le> length buf"
proof (induction k arbitrary: buf)
  case (Suc k)
  thus ?case using le_trans [OF Suc.IH [of "drop 16 buf"]] by (auto split: option.split)
qed simp

lemma findchar_fast_length: "findchar_fast sse buf ranges = (buf', found) \<Longrightarrow> length buf' \<le> length buf"
  using findchar_blocks_length [of "length buf div 16" buf ranges]
  by (auto simp: findchar_fast_def split: if_splits)

lemma eol_by_eight_length: "length (fst (eol_by_eight buf)) \<le> length buf"
proof (induction buf rule: eol_by_eight.induct)
  case (1 buf)
  show ?case
    using 1 by (subst eol_by_eight.simps) (force split: option.split)
qed

lemma token_loop_length: "token_loop nc buf = POk u rest \<Longrightarrow> length rest \<le> length buf"
  by (induction nc buf rule: token_loop.induct) (auto split: if_splits)

lemma eol_loop_length: "eol_loop buf = POk u rest \<Longrightarrow> length rest \<le> length buf"
  by (induction buf rule: eol_loop.induct) (auto split: if_splits)

lemma skip_blanks_length: "skip_blanks buf = POk u rest \<Longrightarrow> length rest \<le> length buf"
  by (induction buf rule: skip_blanks.induct) (auto split: if_splits)

lemma parse_token_length: "parse_token sse buf nc = POk t rest \<Longrightarrow> length rest \<le> length buf"
  by (auto simp: parse_token_def consumed_def pbind_POk split: prod.splits if_splits
      dest!: findchar_fast_length token_loop_length)

lemma found_ctl_length: "found_ctl token buf = POk t rest \<Longrightarrow> length rest < length buf"
  by (auto simp: found_ctl_def expect_char_def pbind_POk split: list.splits if_splits)

lemma get_token_to_eol_length:
  assumes "get_token_to_eol sse buf = POk t rest"
  shows "length rest < length buf"
proof -
  obtain buf' found where s: "(if sse then findchar_fast sse buf ranges_eol else eol_by_eight buf) = (buf', found)"
    by force
  have b: "length buf' \<le> length buf"
    using s findchar_fast_length eol_by_eight_length [of buf] by (auto split: if_splits)
  obtain r where "(if found then POk () buf' else eol_loop buf') = POk () r" "length rest < length r"
    using assms s by (auto simp: get_token_to_eol_def consumed_def pbind_POk dest!: found_ctl_length)
  thus ?thesis using b eol_loop_length [of buf'] by (force split: if_splits)
qed

lemma parse_header_name_length:
  assumes "parse_header_name sse n buf = POk h rest"
  shows "length rest \<le> length buf"
proof (cases "n \<noteq> 0 \<and> (hd buf = 32 \<or> hd buf = 9)")
  case True
  thus ?thesis using assms by (auto simp: parse_header_name_def)
next
  case False
  then obtain name r1 where "parse_token sse buf 58 = POk name r1" "skip_blanks (tl r1) = POk () rest"
    using assms by (auto simp: parse_header_name_def pbind_POk split: if_splits)
  from parse_token_length [OF this(1)] skip_blanks_length [OF this(2)] show ?thesis by simp
qed

lemma parse_header_line_length:
  assumes "parse_header_line sse n buf = POk h rest"
  shows "length rest < length buf"
proof -
  obtain name r1 v where r: "parse_header_name sse n buf = POk name r1" "get_token_to_eol sse r1 = POk v rest"
    using assms by (auto simp: parse_header_line_def pbind_POk)
  show ?thesis using get_token_to_eol_length [OF r(2)] parse_header_name_length [OF r(1)] by linarith
qed

function parse_headers :: "bool \<Rightarrow> nat \<Rightarrow> nat \<Rightarrow> bytes \<Rightarrow> phr_header list presult" where
  "parse_headers sse max_headers num_headers buf =
    (case buf of
       [] \<Rightarrow> PIncomplete
     | c # cs \<Rightarrow>
         if c = 13 then pbind (expect_char 10 cs) (\<lambda>_ rest. POk [] rest)
         else if c = 10 then POk [] cs
         else if num_headers = max_headers then PMalformed
         else pbind (parse_header_line sse num_headers buf)
           (\<lambda>h rest. pbind (parse_headers sse max_headers (num_headers + 1) rest) (\<lambda>hs rest. POk (h # hs) rest)))"
  by pat_completeness auto
termination
  by (relation "measure (\<lambda>(sse, max_headers, num_headers, buf). length buf)")
    (auto dest: parse_header_line_length)

declare parse_headers.simps [simp del]

record phr_request =
  pr_method :: bytes
  pr_path :: bytes
  pr_minor_version :: int
  pr_headers :: "phr_header list"

text \<open>After a token: the delimiter and any further spaces.\<close>

fun skip_spaces :: "bytes \<Rightarrow> unit presult" where
  "skip_spaces [] = PIncomplete"
| "skip_spaces (c # cs) = (if c = 32 then skip_spaces cs else POk () (c # cs))"

definition line_end :: "bytes \<Rightarrow> unit presult" where
  "line_end buf =
    (case buf of
       [] \<Rightarrow> PIncomplete
     | c # cs \<Rightarrow> if c = 13 then expect_char 10 cs else if c = 10 then POk () cs else PMalformed)"

definition parse_request :: "bool \<Rightarrow> nat \<Rightarrow> bytes \<Rightarrow> phr_request presult" where
  "parse_request sse max_headers buf =
    pbind
      (case buf of
         [] \<Rightarrow> PIncomplete
       | c # cs \<Rightarrow> if c = 13 then expect_char 10 cs else if c = 10 then POk () cs else POk () buf)
      (\<lambda>_ buf. pbind (parse_token sse buf 32)
      (\<lambda>verb buf. pbind (skip_spaces (tl buf))
      (\<lambda>_ buf. pbind (ADVANCE_TOKEN sse buf)
      (\<lambda>path buf. pbind (skip_spaces (tl buf))
      (\<lambda>_ buf. if verb = [] \<or> path = [] then PMalformed
               else pbind (parse_http_version buf)
      (\<lambda>minor_version buf. pbind (line_end buf)
      (\<lambda>_ buf. pbind (parse_headers sse max_headers 0 buf)
      (\<lambda>headers buf. POk \<lparr>pr_method = verb, pr_path = path, pr_minor_version = minor_version, pr_headers = headers\<rparr> buf))))))))"

text \<open>The conversion of a size to \<open>int\<close>.\<close>

definition c_int :: "nat \<Rightarrow> int" where
  "c_int n = sint (word_of_nat n :: u32)"

text \<open>The result is the number of bytes consumed, -1 or -2.\<close>

definition phr_parse_request :: "bool \<Rightarrow> bytes \<Rightarrow> nat \<Rightarrow> nat \<Rightarrow> int \<times> phr_request option" where
  "phr_parse_request sse buf max_headers last_len =
    (case (if last_len \<noteq> 0 then is_complete buf last_len else POk () []) of
       PIncomplete \<Rightarrow> (-2, None)
     | PMalformed \<Rightarrow> (-1, None)
     | POk _ _ \<Rightarrow>
         (case parse_request sse max_headers buf of
            PIncomplete \<Rightarrow> (-2, None)
          | PMalformed \<Rightarrow> (-1, None)
          | POk req rest \<Rightarrow> (c_int (length buf - length rest), Some req)))"

end
