(* ===== verification/Http_Request.thy ===== *)
theory Http_Request
  imports Http_Parser
begin

text \<open>
  HTTP requests (request.c): the request record, its accessors, the framing of the body by
  Content-Length, and the parser of one request from a receive buffer. Pointers into the buffer
  are the byte lists they denote; a null pointer is \<open>None\<close>.
\<close>

definition PORTICO_MAX_HEADERS :: nat where
  "PORTICO_MAX_HEADERS = 64"

definition PORTICO_MAX_BODY :: nat where
  "PORTICO_MAX_BODY = 16 * 1024 * 1024"

definition PORTICO_MAX_HEADER_SIZE :: nat where
  "PORTICO_MAX_HEADER_SIZE = 32 * 1024"

definition LONG_MAX :: int where
  "LONG_MAX = 9223372036854775807"

record portico_request =
  rq_method :: bytes
  rq_path :: bytes
  rq_query :: "bytes option"
  rq_minor_version :: int
  rq_headers :: "phr_header list"
  rq_body :: "bytes option"
  rq_body_len :: nat
  rq_keep_alive :: bool
  rq_client_ip :: bytes

definition zero_request :: portico_request where
  "zero_request = \<lparr>rq_method = [], rq_path = [], rq_query = None, rq_minor_version = 0, rq_headers = [],
    rq_body = None, rq_body_len = 0, rq_keep_alive = False, rq_client_ip = []\<rparr>"

section \<open>Accessors\<close>

text \<open>Equal up to ASCII case: equal lengths and \<open>strncasecmp(a, b, n) == 0\<close>, for strings without NUL.\<close>

definition ci_eq :: "bytes \<Rightarrow> bytes \<Rightarrow> bool" where
  "ci_eq a b \<longleftrightarrow> length a = length b \<and> map tolower a = map tolower b"

definition portico_req_method_is :: "portico_request \<Rightarrow> bytes \<Rightarrow> bool" where
  "portico_req_method_is req m \<longleftrightarrow> rq_method req = m"

definition portico_req_path_is :: "portico_request \<Rightarrow> bytes \<Rightarrow> bool" where
  "portico_req_path_is req p \<longleftrightarrow> rq_path req = p"

text \<open>The name of a header; a folded line has the length 0.\<close>

definition header_name :: "phr_header \<Rightarrow> bytes" where
  "header_name h = (case fst h of None \<Rightarrow> [] | Some name \<Rightarrow> name)"

fun find_header :: "bytes \<Rightarrow> phr_header list \<Rightarrow> bytes option" where
  "find_header name [] = None"
| "find_header name (h # hs) = (if ci_eq (header_name h) name then Some (snd h) else find_header name hs)"

definition portico_req_header :: "portico_request \<Rightarrow> bytes \<Rightarrow> bytes option" where
  "portico_req_header req name = find_header name (rq_headers req)"

definition portico_req_client_ip :: "portico_request \<Rightarrow> bytes" where
  "portico_req_client_ip req = rq_client_ip req"

section \<open>Body framing\<close>

text \<open>The digits of one element; \<open>None\<close> is a non-digit or an overflow of \<open>long\<close>.\<close>

fun clen_digits :: "int \<Rightarrow> bytes \<Rightarrow> int option" where
  "clen_digits val [] = Some val"
| "clen_digits val (c # cs) =
    (if c < 48 \<or> 57 < c then None
     else
       let d = int (unat c) - 48
       in if val > (LONG_MAX - d) div 10 then None else clen_digits (val * 10 + d) cs)"

text \<open>The element between the positions \<open>start\<close> and \<open>j\<close> without the blanks around it.\<close>

definition trim_blanks :: "bytes \<Rightarrow> bytes" where
  "trim_blanks s = strip_value (dropWhile (\<lambda>c. c = 32 \<or> c = 9) s)"

type_synonym clen_state = "bool \<times> int"

definition clen_element :: "bytes \<Rightarrow> clen_state \<Rightarrow> clen_state option" where
  "clen_element s st =
    (let e = trim_blanks s
     in if e = [] then None
        else case clen_digits 0 e of
               None \<Rightarrow> None
             | Some val \<Rightarrow> if fst st \<and> val \<noteq> snd st then None else Some (True, val))"

function clen_list :: "bytes \<Rightarrow> nat \<Rightarrow> nat \<Rightarrow> clen_state \<Rightarrow> clen_state option" where
  "clen_list v start j st =
    (if j \<le> length v then
       if j = length v \<or> v ! j = 44 then
         case clen_element (take (j - start) (drop start v)) st of
           None \<Rightarrow> None
         | Some st' \<Rightarrow> clen_list v (j + 1) (j + 1) st'
       else clen_list v start (j + 1) st
     else Some st)"
  by pat_completeness auto
termination by (relation "measure (\<lambda>(v, start, j, st). Suc (length v) - j)") auto

declare clen_list.simps [simp del]

fun framing_loop :: "phr_header list \<Rightarrow> clen_state \<Rightarrow> int \<times> int" where
  "framing_loop [] st = (0, if fst st then snd st else 0)"
| "framing_loop (h # hs) st =
    (if ci_eq (header_name h) (bytes_of ''Transfer-Encoding'') then (-3, 0)
     else if \<not> ci_eq (header_name h) (bytes_of ''Content-Length'') then framing_loop hs st
     else case clen_list (snd h) 0 0 st of
            None \<Rightarrow> (-1, 0)
          | Some st' \<Rightarrow> framing_loop hs st')"

text \<open>The result code and the content length.\<close>

definition resolve_body_framing :: "portico_request \<Rightarrow> int \<times> int" where
  "resolve_body_framing req = framing_loop (rq_headers req) (False, 0)"

section \<open>Tokens of a header\<close>

definition list_delim :: "u8 \<Rightarrow> bool" where
  "list_delim c \<longleftrightarrow> c = 44 \<or> c = 32 \<or> c = 9"

lemma dropWhile_twice_shorter:
  assumes "dropWhile P v \<noteq> []"
  shows "length (dropWhile (\<lambda>c. \<not> P c) (dropWhile P v)) < length v"
proof -
  obtain c w where w: "dropWhile P v = c # w" using assms by (cases "dropWhile P v") auto
  hence "\<not> P c" using hd_dropWhile [OF assms] by simp
  hence "length (dropWhile (\<lambda>c. \<not> P c) (c # w)) \<le> length w" by (simp add: length_dropWhile_le)
  thus ?thesis using length_dropWhile_le [of P v] w by simp
qed

function token_scan :: "bytes \<Rightarrow> bytes \<Rightarrow> bool" where
  "token_scan token v =
    (if v = [] then False
     else
       let v = dropWhile list_delim v;
           t = takeWhile (\<lambda>c. \<not> list_delim c) v
       in if ci_eq t token then True else if v = [] then False else token_scan token (dropWhile (\<lambda>c. \<not> list_delim c) v))"
  by pat_completeness auto
termination
  by (relation "measure (\<lambda>(token, v). length v)") (auto intro: dropWhile_twice_shorter)

declare token_scan.simps [simp del]

definition header_token_present :: "portico_request \<Rightarrow> bytes \<Rightarrow> bytes \<Rightarrow> bool" where
  "header_token_present req name token =
    (case portico_req_header req name of None \<Rightarrow> False | Some v \<Rightarrow> token_scan token v)"

section \<open>One request\<close>

text \<open>Path and query: split at the first question mark.\<close>

definition split_target :: "bytes \<Rightarrow> bytes \<times> bytes option" where
  "split_target target =
    (case dropWhile (\<lambda>c. c \<noteq> 63) target of
       [] \<Rightarrow> (target, None)
     | q # rest \<Rightarrow> (takeWhile (\<lambda>c. c \<noteq> 63) target, Some rest))"

definition portico_http_parse :: "bool \<Rightarrow> bytes \<Rightarrow> int \<times> portico_request" where
  "portico_http_parse sse buf =
    (case phr_parse_request sse buf PORTICO_MAX_HEADERS 0 of
       (pret, parsed) \<Rightarrow>
         if pret = -2 then (0, zero_request)
         else if pret = -1 then (-1, zero_request)
         else case parsed of
           None \<Rightarrow> (-1, zero_request)
         | Some p \<Rightarrow>
             let req = zero_request \<lparr>rq_method := pr_method p, rq_minor_version := pr_minor_version p,
                   rq_path := fst (split_target (pr_path p)), rq_query := snd (split_target (pr_path p)),
                   rq_headers := pr_headers p\<rparr>
             in case resolve_body_framing req of
               (fr, clen) \<Rightarrow>
                 if fr \<noteq> 0 then (fr, req)
                 else if clen > int PORTICO_MAX_BODY then (-2, req)
                 else
                   let total = nat pret + nat clen
                   in if length buf < total then (0, req)
                      else
                        let req = req \<lparr>rq_body := (if clen > 0 then Some (take (nat clen) (drop (nat pret) buf)) else None),
                              rq_body_len := nat clen\<rparr>;
                            req = req \<lparr>rq_keep_alive :=
                              (if pr_minor_version p \<ge> 1 then \<not> header_token_present req (bytes_of ''Connection'') (bytes_of ''close'')
                               else header_token_present req (bytes_of ''Connection'') (bytes_of ''keep-alive''))\<rparr>
                        in (c_int total, req))"

end
