(* ===== verification/Http_Parser_Spec.thy ===== *)
theory Http_Parser_Spec
  imports Http_Parser
begin

text \<open>
  What the request parser computes: the fast searches change nothing, a decision once taken is
  not changed by further input, and every well-formed request is parsed back.
\<close>

section \<open>The fast searches\<close>

lemma findchar_blocks_spec:
  assumes "16 * k \<le> length buf" "findchar_blocks k buf ranges = (buf', found)"
  shows "\<exists>n \<le> length buf. buf' = drop n buf \<and> (\<forall>i < n. \<not> in_ranges ranges (buf ! i)) \<and>
    (found \<longrightarrow> n < length buf \<and> in_ranges ranges (buf ! n))"
  using assms
proof (induction k arbitrary: buf)
  case 0
  thus ?case by (intro exI [of _ 0]) auto
next
  case (Suc k)
  show ?case
  proof (cases "find (\<lambda>r. in_ranges ranges (buf ! r)) [0..<16]")
    case (Some r)
    thus ?thesis using Suc.prems find_Some_least [OF Some] by (intro exI [of _ r]) auto
  next
    case None
    then obtain n where n: "n \<le> length (drop 16 buf)" "buf' = drop n (drop 16 buf)"
      "\<forall>i < n. \<not> in_ranges ranges (drop 16 buf ! i)"
      "found \<longrightarrow> n < length (drop 16 buf) \<and> in_ranges ranges (drop 16 buf ! n)"
    proof -
      have "16 * k \<le> length (drop 16 buf)" "findchar_blocks k (drop 16 buf) ranges = (buf', found)"
        using Suc.prems None by simp_all
      from Suc.IH [OF this] show thesis using that by blast
    qed
    have none: "\<not> in_ranges ranges (buf ! i)" if "i < 16" for i
      using None that by (auto simp: find_None_iff)
    have "\<not> in_ranges ranges (buf ! i)" if "i < n + 16" for i
    proof (cases "i < 16")
      case False
      thus ?thesis using n(3) [rule_format, of "i - 16"] that Suc.prems(1) by simp
    qed (rule none)
    thus ?thesis using n Suc.prems(1) by (intro exI [of _ "n + 16"]) (auto simp: add.commute)
  qed
qed

lemma findchar_fast_spec:
  assumes "findchar_fast sse buf ranges = (buf', found)"
  shows "\<exists>n \<le> length buf. buf' = drop n buf \<and> (\<forall>i < n. \<not> in_ranges ranges (buf ! i)) \<and>
    (found \<longrightarrow> n < length buf \<and> in_ranges ranges (buf ! n))"
proof (cases "sse \<and> 16 \<le> length buf")
  case True
  thus ?thesis using assms findchar_blocks_spec [of "length buf div 16" buf ranges buf' found]
    by (simp add: findchar_fast_def)
next
  case False
  hence "buf' = buf" "\<not> found" using assms by (auto simp: findchar_fast_def split: if_splits)
  thus ?thesis by (intro exI [of _ 0]) auto
qed

lemma all_bytes: "(\<forall>n < 256. P (word_of_nat n :: u8)) \<Longrightarrow> P c"
  by (rule u8_less_256_cases)

lemma not_range_token: "\<not> in_ranges ranges_token c \<Longrightarrow> token_char c \<and> c \<noteq> 32 \<and> c \<noteq> 58"
proof -
  let ?ok = "\<lambda>c b. in_ranges ranges_token c \<or> b \<and> c \<noteq> 32 \<and> c \<noteq> 58"
  have "list_all (\<lambda>(n, b). ?ok (word_of_nat n) b) (zip [0..<256] token_char_map)" by code_simp
  moreover have "length token_char_map = 256" by code_simp
  ultimately have "?ok (word_of_nat n) (token_char_map ! n)" if "n < 256" for n
    using that by (auto simp: list_all_length)
  from this [of "unat c"] show "\<not> in_ranges ranges_token c \<Longrightarrow> token_char c \<and> c \<noteq> 32 \<and> c \<noteq> 58"
    by (simp add: token_char_def)
qed

lemma not_range_path: "\<not> in_ranges ranges_path c \<Longrightarrow> c \<noteq> 32 \<and> \<not> (c < 32 \<or> c = 127)"
  by (auto simp: in_ranges_def ranges_path_def not_le)

lemma range_eol_ctl: "in_ranges ranges_eol c \<longleftrightarrow> is_eol_ctl c"
proof -
  have "list_all (\<lambda>n. let c = word_of_nat n in in_ranges ranges_eol c \<longleftrightarrow> is_eol_ctl c) [0..<256]"
    by code_simp
  thus ?thesis
    by (intro all_bytes [where P = "\<lambda>c. in_ranges ranges_eol c \<longleftrightarrow> is_eol_ctl c"])
      (auto simp: list_all_iff Let_def)
qed

lemma printable_not_ctl: "IS_PRINTABLE_ASCII c \<Longrightarrow> \<not> is_eol_ctl c"
proof -
  have "list_all (\<lambda>n. let c = word_of_nat n in IS_PRINTABLE_ASCII c \<longrightarrow> \<not> is_eol_ctl c) [0..<256]"
    by code_simp
  hence "IS_PRINTABLE_ASCII c \<longrightarrow> \<not> is_eol_ctl c"
    by (intro all_bytes [where P = "\<lambda>c. IS_PRINTABLE_ASCII c \<longrightarrow> \<not> is_eol_ctl c"])
      (auto simp: list_all_iff Let_def)
  thus "IS_PRINTABLE_ASCII c \<Longrightarrow> \<not> is_eol_ctl c" by blast
qed

text \<open>A loop that passes over every byte that satisfies \<open>P\<close> may start behind such bytes.\<close>

lemma skip_run:
  assumes "n \<le> length buf" "\<forall>i < n. P (buf ! i)" "\<And>c cs. P c \<Longrightarrow> loop (c # cs) = loop cs"
  shows "loop (drop n buf) = loop buf"
  using assms(1,2)
proof (induction n arbitrary: buf)
  case (Suc n)
  then obtain c cs where b: "buf = c # cs" by (cases buf) auto
  have "\<forall>i < n. P (cs ! i)" "P c" using Suc.prems(2) b by auto
  thus ?case using Suc.IH [of cs] Suc.prems(1) b assms(3) by simp
qed simp

lemma parse_token_scalar:
  assumes "nc = 32 \<or> nc = 58"
  shows "parse_token sse buf nc = consumed buf (token_loop nc buf)"
proof -
  obtain buf' found where f: "findchar_fast sse buf ranges_token = (buf', found)" by force
  then obtain n where n: "n \<le> length buf" "buf' = drop n buf" "\<forall>i < n. \<not> in_ranges ranges_token (buf ! i)"
    using findchar_fast_spec [OF f] by blast
  have "token_loop nc (drop n buf) = token_loop nc buf"
    using n(1,3) by (rule skip_run) (use assms in \<open>auto dest: not_range_token\<close>)
  thus ?thesis using f n(2) by (auto simp: parse_token_def consumed_def)
qed

lemma ADVANCE_TOKEN_scalar: "ADVANCE_TOKEN sse buf = consumed buf (path_loop buf)"
proof -
  obtain buf' found where f: "findchar_fast sse buf ranges_path = (buf', found)" by force
  then obtain n where n: "n \<le> length buf" "buf' = drop n buf" "\<forall>i < n. \<not> in_ranges ranges_path (buf ! i)"
    using findchar_fast_spec [OF f] by blast
  have "path_loop (drop n buf) = path_loop buf"
    using n(1,3) by (rule skip_run) (auto dest: not_range_path)
  thus ?thesis using f n(2) by (auto simp: ADVANCE_TOKEN_def consumed_def)
qed

lemma eol_loop_ctl: "eol_loop (c # cs) = (if is_eol_ctl c then POk () (c # cs) else eol_loop cs)"
  using printable_not_ctl by auto

lemma eol_by_eight_spec: "(case eol_by_eight buf of (buf', found) \<Rightarrow> if found then POk () buf' else eol_loop buf') = eol_loop buf"
proof (induction buf rule: eol_by_eight.induct)
  case (1 buf)
  show ?case
  proof (cases "8 \<le> length buf")
    case False
    thus ?thesis by (simp add: eol_by_eight.simps)
  next
    case True
    show ?thesis
    proof (cases "find (\<lambda>i. \<not> IS_PRINTABLE_ASCII (buf ! i)) [0..<8]")
      case None
      have "eol_loop (drop 8 buf) = eol_loop buf"
        by (rule skip_run [where P = "\<lambda>c. IS_PRINTABLE_ASCII c"]) (use True None in \<open>auto simp: find_None_iff\<close>)
      thus ?thesis using 1(1) [OF True None] True None by (simp add: eol_by_eight.simps [of buf])
    next
      case (Some i)
      have i: "\<not> IS_PRINTABLE_ASCII (buf ! i)" "i < 8" "\<forall>j < i. IS_PRINTABLE_ASCII (buf ! j)"
        using find_Some_least [OF Some] by auto
      have s: "eol_loop (drop i buf) = eol_loop buf"
        by (rule skip_run [where P = "\<lambda>c. IS_PRINTABLE_ASCII c"]) (use True i in auto)
      have d: "drop i buf = buf ! i # drop (i + 1) buf" using i True by (simp add: Cons_nth_drop_Suc)
      show ?thesis
      proof (cases "is_eol_ctl (buf ! i)")
        case ctl: True
        hence "eol_loop buf = POk () (drop i buf)" using s d by (simp add: eol_loop_ctl del: eol_loop.simps)
        thus ?thesis using True Some ctl by (simp add: eol_by_eight.simps [of buf])
      next
        case ctl: False
        hence "eol_loop buf = eol_loop (drop (i + 1) buf)" using s d by (simp add: eol_loop_ctl del: eol_loop.simps)
        thus ?thesis using True Some ctl 1(2) [OF True Some ctl] by (simp add: eol_by_eight.simps [of buf])
      qed
    qed
  qed
qed

lemma get_token_to_eol_scalar: "get_token_to_eol sse buf = pbind (consumed buf (eol_loop buf)) found_ctl"
proof (cases sse)
  case True
  obtain buf' found where f: "findchar_fast True buf ranges_eol = (buf', found)" by force
  then obtain n where n: "n \<le> length buf" "buf' = drop n buf" "\<forall>i < n. \<not> in_ranges ranges_eol (buf ! i)"
      "found \<longrightarrow> n < length buf \<and> in_ranges ranges_eol (buf ! n)"
    using findchar_fast_spec [OF f] by blast
  have s: "eol_loop (drop n buf) = eol_loop buf"
    using n(1,3) by (rule skip_run) (auto simp: range_eol_ctl eol_loop_ctl)
  have "(if found then POk () buf' else eol_loop buf') = eol_loop buf"
  proof (cases found)
    case True
    hence "drop n buf = buf ! n # drop (Suc n) buf" "is_eol_ctl (buf ! n)"
      using n(4) by (simp_all add: Cons_nth_drop_Suc range_eol_ctl)
    thus ?thesis using s True n(2) by (simp add: eol_loop_ctl del: eol_loop.simps)
  next
    case False
    thus ?thesis using s n(2) by simp
  qed
  thus ?thesis using True f by (simp add: get_token_to_eol_def)
next
  case False
  thus ?thesis using eol_by_eight_spec [of buf]
    by (simp add: get_token_to_eol_def split: prod.splits if_splits)
qed

lemma parse_header_line_sse: "parse_header_line sse n buf = parse_header_line False n buf"
  by (simp add: parse_header_line_def parse_header_name_def parse_token_scalar get_token_to_eol_scalar [of sse]
      get_token_to_eol_scalar [of False])

lemma parse_headers_sse: "parse_headers sse m n buf = parse_headers False m n buf"
proof (induction sse m n buf rule: parse_headers.induct)
  case (1 sse m n buf)
  thus ?case
    by (subst (1 2) parse_headers.simps)
      (auto simp: parse_header_line_sse [of sse] split: list.split intro!: pbind_cong)
qed

lemma parse_request_sse: "parse_request sse m buf = parse_request False m buf"
  unfolding parse_request_def parse_token_scalar [of 32, simplified, of sse] parse_token_scalar [of 32, simplified, of False]
    ADVANCE_TOKEN_scalar [of sse] ADVANCE_TOKEN_scalar [of False] parse_headers_sse [of sse] ..

section \<open>More input does not change a decision\<close>

definition stable_at :: "(bytes \<Rightarrow> 'a presult) \<Rightarrow> bytes \<Rightarrow> bool" where
  "stable_at p buf \<longleftrightarrow>
    (\<forall>more. (p buf = PMalformed \<longrightarrow> p (buf @ more) = PMalformed) \<and>
            (\<forall>x rest. p buf = POk x rest \<longrightarrow> p (buf @ more) = POk x (rest @ more)))"

lemma stable_bind:
  assumes "stable_at p buf" "\<And>x rest. p buf = POk x rest \<Longrightarrow> stable_at (f x) rest"
  shows "stable_at (\<lambda>b. pbind (p b) f) buf"
  using assms by (cases "p buf") (auto simp: stable_at_def)

lemma stable_if:
  "(Q \<Longrightarrow> stable_at p buf) \<Longrightarrow> (\<not> Q \<Longrightarrow> stable_at q buf) \<Longrightarrow> stable_at (\<lambda>b. if Q then p b else q b) buf"
  by (cases Q) simp_all

lemma stable_return [simp]: "stable_at (POk x) buf" "stable_at (\<lambda>_. PMalformed) buf"
  by (simp_all add: stable_at_def)

lemma stable_expect_char [simp]: "stable_at (expect_char ch) buf"
  by (cases buf) (auto simp: stable_at_def expect_char_def)

lemma stable_token_loop [simp]: "stable_at (token_loop nc) buf"
  by (induction nc buf rule: token_loop.induct) (auto simp: stable_at_def)

lemma stable_path_loop [simp]: "stable_at path_loop buf"
  by (induction buf rule: path_loop.induct) (auto simp: stable_at_def)

lemma stable_eol_loop [simp]: "stable_at eol_loop buf"
  by (induction buf rule: eol_loop.induct) (auto simp: stable_at_def)

lemma stable_skip_blanks [simp]: "stable_at skip_blanks buf"
  by (induction buf rule: skip_blanks.induct) (auto simp: stable_at_def)

lemma stable_skip_spaces [simp]: "stable_at skip_spaces buf"
  by (induction buf rule: skip_spaces.induct) (auto simp: stable_at_def)

lemma stable_line_end [simp]: "stable_at line_end buf"
  using stable_expect_char [of 10 "tl buf"] by (cases buf) (auto simp: stable_at_def line_end_def)

lemma stable_tl: "stable_at p (tl buf) \<Longrightarrow> buf \<noteq> [] \<Longrightarrow> stable_at (\<lambda>b. p (tl b)) buf"
  by (simp add: stable_at_def)

lemma stable_consumed:
  assumes "stable_at p buf" "\<And>u rest. p buf = POk u rest \<Longrightarrow> length rest \<le> length buf"
  shows "stable_at (\<lambda>b. consumed b (p b)) buf"
  using assms by (cases "p buf") (auto simp: stable_at_def consumed_def)

lemma path_loop_length: "path_loop buf = POk u rest \<Longrightarrow> length rest \<le> length buf"
  by (induction buf rule: path_loop.induct) (auto split: if_splits)

lemma token_loop_stops: "token_loop nc buf = POk u rest \<Longrightarrow> rest \<noteq> []"
  by (induction nc buf rule: token_loop.induct) (auto split: if_splits)

lemma path_loop_stops: "path_loop buf = POk u rest \<Longrightarrow> rest \<noteq> []"
  by (induction buf rule: path_loop.induct) (auto split: if_splits)

lemma stable_parse_token [simp]: "nc = 32 \<or> nc = 58 \<Longrightarrow> stable_at (\<lambda>b. parse_token sse b nc) buf"
  using stable_consumed [OF stable_token_loop token_loop_length, of nc buf] by (simp add: parse_token_scalar)

lemma stable_ADVANCE_TOKEN [simp]: "stable_at (ADVANCE_TOKEN sse) buf"
  using stable_consumed [OF stable_path_loop path_loop_length, of buf]
  by (simp add: ADVANCE_TOKEN_scalar [of sse, abs_def])

lemma stable_found_ctl [simp]: "buf \<noteq> [] \<Longrightarrow> stable_at (found_ctl token) buf"
  using stable_bind [OF stable_expect_char [of 10 "tl buf"], of "\<lambda>_. POk token"]
  by (cases buf) (auto simp: stable_at_def found_ctl_def)

lemma eol_loop_stops: "eol_loop buf = POk u rest \<Longrightarrow> rest \<noteq> []"
  by (induction buf rule: eol_loop.induct) (auto split: if_splits)

lemma consumed_POk: "consumed buf r = POk t rest \<longleftrightarrow> r = POk () rest \<and> t = take (length buf - length rest) buf"
  by (cases r) (auto simp: consumed_def)

lemma stable_get_token_to_eol [simp]: "stable_at (get_token_to_eol sse) buf"
proof -
  have "stable_at (\<lambda>b. pbind (consumed b (eol_loop b)) found_ctl) buf"
    by (intro stable_bind stable_consumed stable_eol_loop eol_loop_length)
      (auto simp: consumed_POk dest: eol_loop_stops)
  thus ?thesis by (simp add: get_token_to_eol_scalar [of sse, abs_def])
qed

lemma parse_token_stops: "parse_token sse buf nc = POk t rest \<Longrightarrow> nc = 32 \<or> nc = 58 \<Longrightarrow> rest \<noteq> []"
  by (auto simp: parse_token_scalar consumed_POk dest: token_loop_stops)

lemma ADVANCE_TOKEN_stops: "ADVANCE_TOKEN sse buf = POk t rest \<Longrightarrow> rest \<noteq> []"
  by (auto simp: ADVANCE_TOKEN_scalar consumed_POk dest: path_loop_stops)

lemma stable_parse_header_name:
  assumes "buf \<noteq> []"
  shows "stable_at (parse_header_name sse n) buf"
proof -
  let ?named = "\<lambda>b. pbind (parse_token sse b 58) (\<lambda>name rest. if name = [] then PMalformed
      else pbind (skip_blanks (tl rest)) (\<lambda>_ rest. POk (Some name) rest))"
  have "stable_at ?named buf"
  proof (rule stable_bind)
    fix name rest assume "parse_token sse buf 58 = POk name rest"
    hence "stable_at (\<lambda>b. skip_blanks (tl b)) rest" by (intro stable_tl) (auto dest: parse_token_stops)
    thus "stable_at (\<lambda>rest. if name = [] then PMalformed
        else pbind (skip_blanks (tl rest)) (\<lambda>_ rest. POk (Some name) rest)) rest"
      by (cases "name = []") (simp_all add: stable_bind)
  qed simp
  thus ?thesis using assms by (cases buf) (auto simp: stable_at_def parse_header_name_def)
qed

lemma stable_parse_header_line: "buf \<noteq> [] \<Longrightarrow> stable_at (parse_header_line sse n) buf"
  unfolding parse_header_line_def [abs_def] by (intro stable_bind stable_parse_header_name) auto

lemma stable_parse_headers [simp]: "stable_at (parse_headers sse m n) buf"
proof (induction sse m n buf rule: parse_headers.induct)
  case (1 sse m n buf)
  show ?case
  proof (cases buf)
    case Nil
    thus ?thesis by (simp add: stable_at_def parse_headers.simps)
  next
    case (Cons c cs)
    let ?line = "\<lambda>b. pbind (parse_header_line sse n b)
        (\<lambda>h rest. pbind (parse_headers sse m (n + 1) rest) (\<lambda>hs rest. POk (h # hs) rest))"
    have "stable_at (\<lambda>b. pbind (expect_char 10 b) (\<lambda>_ rest. POk ([] :: phr_header list) rest)) cs"
      by (intro stable_bind) auto
    moreover have "stable_at ?line buf" if "c \<noteq> 13" "c \<noteq> 10" "n \<noteq> m"
      using 1 [OF Cons that] Cons by (intro stable_bind stable_parse_header_line) auto
    ultimately show ?thesis using Cons
      by (auto simp: stable_at_def parse_headers.simps [of sse m n "c # _"])
  qed
qed

lemma stable_parse_http_version [simp]: "stable_at parse_http_version buf"
  by (auto simp: stable_at_def parse_http_version_def nth_append Let_def)

lemma stable_parse_request: "stable_at (parse_request sse m) buf"
proof -
  let ?first = "\<lambda>b. case b of [] \<Rightarrow> PIncomplete
      | c # cs \<Rightarrow> if c = 13 then expect_char 10 cs else if c = 10 then POk () cs else POk () b"
  have "stable_at ?first buf"
    using stable_expect_char [of 10 "tl buf"] by (cases buf) (auto simp: stable_at_def)
  moreover have "stable_at (\<lambda>b. skip_spaces (tl b)) r" if "r \<noteq> []" for r
    using that by (intro stable_tl) auto
  ultimately show ?thesis
    unfolding parse_request_def [abs_def]
    by (intro stable_bind) (auto intro!: stable_bind stable_if dest: parse_token_stops ADVANCE_TOKEN_stops)
qed

section \<open>Well-formed requests\<close>

text \<open>A request as a client writes it.\<close>

definition header_lines :: "(bytes \<times> bytes) list \<Rightarrow> bytes" where
  "header_lines headers = concat (map (\<lambda>(name, v). name @ [58, 32] @ v @ CRLF) headers)"

definition request_head :: "bytes \<Rightarrow> bytes \<Rightarrow> nat \<Rightarrow> (bytes \<times> bytes) list \<Rightarrow> bytes" where
  "request_head verb target minor headers =
    verb @ [32] @ target @ [32] @ bytes_of ''HTTP/1.'' @ [48 + word_of_nat minor] @ CRLF @ header_lines headers @ CRLF"

definition wf_token :: "bytes \<Rightarrow> bool" where
  "wf_token t \<longleftrightarrow> t \<noteq> [] \<and> (\<forall>c \<in> set t. token_char c)"

definition wf_target :: "bytes \<Rightarrow> bool" where
  "wf_target t \<longleftrightarrow> t \<noteq> [] \<and> (\<forall>c \<in> set t. 32 < c \<and> c \<noteq> 127)"

definition blank :: "u8 \<Rightarrow> bool" where
  "blank c \<longleftrightarrow> c = 32 \<or> c = 9"

definition wf_value :: "bytes \<Rightarrow> bool" where
  "wf_value v \<longleftrightarrow> (\<forall>c \<in> set v. \<not> is_eol_ctl c) \<and> (v \<noteq> [] \<longrightarrow> \<not> blank (hd v) \<and> \<not> blank (last v))"

definition wf_header :: "bytes \<times> bytes \<Rightarrow> bool" where
  "wf_header h \<longleftrightarrow> wf_token (fst h) \<and> wf_value (snd h)"

lemma token_char_delim: "token_char c \<Longrightarrow> c \<noteq> 32 \<and> c \<noteq> 58 \<and> c \<noteq> 13 \<and> c \<noteq> 10 \<and> c \<noteq> 9"
proof -
  have "\<not> token_char 32" "\<not> token_char 58" "\<not> token_char 13" "\<not> token_char 10" "\<not> token_char 9" by code_simp+
  thus "token_char c \<Longrightarrow> c \<noteq> 32 \<and> c \<noteq> 58 \<and> c \<noteq> 13 \<and> c \<noteq> 10 \<and> c \<noteq> 9" by blast
qed

lemma parse_token_run:
  assumes "\<forall>c \<in> set t. token_char c" "nc = 32 \<or> nc = 58"
  shows "parse_token sse (t @ nc # rest) nc = POk t (nc # rest)"
proof -
  have "token_loop nc (t @ nc # rest) = POk () (nc # rest)"
    using assms by (induction t) (auto dest: token_char_delim)
  thus ?thesis using assms(2) by (simp add: parse_token_scalar consumed_def)
qed

lemma ADVANCE_TOKEN_run:
  assumes "\<forall>c \<in> set t. 32 < c \<and> c \<noteq> 127"
  shows "ADVANCE_TOKEN sse (t @ 32 # rest) = POk t (32 # rest)"
proof -
  have "path_loop (t @ 32 # rest) = POk () (32 # rest)"
    using assms by (induction t) (auto simp: not_less_iff_gr_or_eq)
  thus ?thesis by (simp add: ADVANCE_TOKEN_scalar consumed_def)
qed

lemma get_token_to_eol_run:
  assumes "\<forall>c \<in> set v. \<not> is_eol_ctl c"
  shows "get_token_to_eol sse (v @ CRLF @ rest) = POk v rest"
proof -
  have "eol_loop (v @ 13 # 10 # rest) = POk () (13 # 10 # rest)"
    using assms by (induction v) (auto simp: is_eol_ctl_def IS_PRINTABLE_ASCII_def)
  thus ?thesis by (simp add: get_token_to_eol_scalar consumed_def CRLF_def found_ctl_def expect_char_def)
qed

lemma strip_value_id: "v = [] \<or> \<not> blank (last v) \<Longrightarrow> strip_value v = v"
  by (cases v rule: rev_cases) (auto simp: strip_value_def blank_def)

lemma parse_header_line_run:
  assumes "wf_header (name, v)"
  shows "parse_header_line sse n (name @ [58, 32] @ v @ CRLF @ rest) = POk (Some name, v) rest"
proof -
  have wf: "\<forall>c \<in> set name. token_char c" "name \<noteq> []" "wf_value v" using assms by (auto simp: wf_header_def wf_token_def)
  have "hd name \<in> set name" using wf(2) by simp
  hence h: "hd name \<noteq> 32" "hd name \<noteq> 9" using wf(1) token_char_delim by blast+
  have "skip_blanks (32 # v @ CRLF @ rest) = POk () (v @ CRLF @ rest)"
    using wf(3) by (cases v) (auto simp: CRLF_def wf_value_def blank_def)
  hence "parse_header_name sse n (name @ [58, 32] @ v @ CRLF @ rest) = POk (Some name) (v @ CRLF @ rest)"
    using parse_token_run [of name 58 sse "32 # v @ CRLF @ rest"] wf(1,2) h by (simp add: parse_header_name_def)
  moreover have "strip_value v = v" using wf(3) by (intro strip_value_id) (auto simp: wf_value_def)
  ultimately show ?thesis
    using wf(3) by (simp add: parse_header_line_def get_token_to_eol_run [of v] wf_value_def)
qed

lemma parse_headers_run:
  assumes "\<forall>h \<in> set headers. wf_header h" "n + length headers \<le> m"
  shows "parse_headers sse m n (header_lines headers @ CRLF @ rest) = POk (map (apfst Some) headers) rest"
  using assms
proof (induction headers arbitrary: n)
  case Nil
  thus ?case by (simp add: header_lines_def parse_headers.simps CRLF_def expect_char_def)
next
  case (Cons h headers)
  obtain name v where h: "h = (name, v)" by force
  have wf: "wf_header (name, v)" using Cons.prems h by simp
  then obtain c cs where name: "name = c # cs" "token_char c" by (cases name) (auto simp: wf_header_def wf_token_def)
  let ?buf = "name @ [58, 32] @ v @ CRLF @ header_lines headers @ CRLF @ rest"
  have b: "header_lines (h # headers) @ CRLF @ rest = ?buf" by (simp add: header_lines_def h)
  have "parse_headers sse m n ?buf = pbind (parse_header_line sse n ?buf)
      (\<lambda>h rest. pbind (parse_headers sse m (n + 1) rest) (\<lambda>hs rest. POk (h # hs) rest))"
    using name token_char_delim [of c] Cons.prems(2) by (subst parse_headers.simps) simp
  also have "\<dots> = POk (map (apfst Some) (h # headers)) rest"
    using Cons.IH [of "n + 1"] Cons.prems parse_header_line_run [OF wf, of sse n "header_lines headers @ CRLF @ rest"]
    by (simp add: h)
  finally show ?case using b by simp
qed

lemma parse_http_version_run:
  assumes "minor < 10"
  shows "parse_http_version (bytes_of ''HTTP/1.'' @ [48 + word_of_nat minor] @ CRLF @ rest) = POk (int minor) (CRLF @ rest)"
proof -
  have "minor \<in> {0, 1, 2, 3, 4, 5, 6, 7, 8, 9}" using assms by simp presburger
  thus ?thesis by (auto simp: parse_http_version_def bytes_of_def CRLF_def)
qed

lemma parse_request_run:
  assumes "wf_token verb" "wf_target target" "minor < 10" "\<forall>h \<in> set headers. wf_header h" "length headers \<le> m"
  shows "parse_request sse m (request_head verb target minor headers @ rest) =
    POk \<lparr>pr_method = verb, pr_path = target, pr_minor_version = int minor, pr_headers = map (apfst Some) headers\<rparr> rest"
proof -
  obtain c cs where verb: "verb = c # cs" "token_char c" using assms(1) by (cases verb) (auto simp: wf_token_def)
  obtain d ds where target: "target = d # ds" "d \<noteq> 32" using assms(2) by (cases target) (auto simp: wf_target_def)
  let ?v = "bytes_of ''HTTP/1.'' @ [48 + word_of_nat minor] @ CRLF @ header_lines headers @ CRLF @ rest"
  have m: "parse_token sse (verb @ 32 # target @ 32 # ?v) 32 = POk verb (32 # target @ 32 # ?v)"
    using assms(1) by (intro parse_token_run) (auto simp: wf_token_def)
  have t: "ADVANCE_TOKEN sse (target @ 32 # ?v) = POk target (32 # ?v)"
    using assms(2) by (intro ADVANCE_TOKEN_run) (auto simp: wf_target_def)
  have s: "skip_spaces (target @ 32 # ?v) = POk () (target @ 32 # ?v)" "skip_spaces ?v = POk () ?v"
    using target by (auto simp: bytes_of_def)
  have l: "line_end (CRLF @ header_lines headers @ CRLF @ rest) = POk () (header_lines headers @ CRLF @ rest)"
    by (simp add: line_end_def CRLF_def expect_char_def)
  have b: "request_head verb target minor headers @ rest = verb @ 32 # target @ 32 # ?v"
    by (simp add: request_head_def)
  have ne: "verb \<noteq> []" "target \<noteq> []" using verb target by auto
  have "parse_request sse m (verb @ 32 # target @ 32 # ?v) =
      pbind (POk () (verb @ 32 # target @ 32 # ?v)) (\<lambda>_ buf. pbind (parse_token sse buf 32)
      (\<lambda>verb buf. pbind (skip_spaces (tl buf))
      (\<lambda>_ buf. pbind (ADVANCE_TOKEN sse buf)
      (\<lambda>path buf. pbind (skip_spaces (tl buf))
      (\<lambda>_ buf. if verb = [] \<or> path = [] then PMalformed
               else pbind (parse_http_version buf)
      (\<lambda>minor_version buf. pbind (line_end buf)
      (\<lambda>_ buf. pbind (parse_headers sse m 0 buf)
      (\<lambda>headers buf. POk \<lparr>pr_method = verb, pr_path = path, pr_minor_version = minor_version, pr_headers = headers\<rparr> buf))))))))"
    using verb token_char_delim [of c] by (simp add: parse_request_def)
  thus ?thesis
    unfolding b using ne assms(3,4,5)
    by (simp add: m t s l parse_http_version_run parse_headers_run del: append.simps append_assoc)
qed

section \<open>Claim\<close>

text \<open>
  C28. The result of the request parser does not depend on the vector search being compiled in: the
  scans by blocks of 16 bytes and by eight bytes give what the plain loops give, on every input.
\<close>

theorem request_parser_vector_independent:
  "phr_parse_request True buf max_headers last_len = phr_parse_request False buf max_headers last_len"
  unfolding phr_parse_request_def parse_request_sse [of True] ..

end
