(* ===== verification/Http_Request_Spec.thy ===== *)
theory Http_Request_Spec
  imports Http_Request Http_Parser_Spec
begin

text \<open>
  Properties of request parsing: body framing accepts exactly the unambiguous requests, the parser
  is stable under further input, stays inside its buffer, and parses back what a client renders.
\<close>

section \<open>Splitting at delimiters\<close>

fun split_by :: "(u8 \<Rightarrow> bool) \<Rightarrow> bytes \<Rightarrow> bytes list" where
  "split_by P [] = [[]]"
| "split_by P (c # cs) =
    (if P c then [] # split_by P cs else (c # hd (split_by P cs)) # tl (split_by P cs))"

lemma split_by_not_Nil [simp]: "split_by P v \<noteq> []"
  by (cases v) auto

lemma split_by_hd_tl [simp]: "hd (split_by P v) # tl (split_by P v) = split_by P v"
  by simp

lemma split_by_run: "\<forall>c \<in> set v. \<not> P c \<Longrightarrow> split_by P v = [v]"
  by (induction v) auto

section \<open>Numbers\<close>

definition digit :: "u8 \<Rightarrow> bool" where
  "digit c \<longleftrightarrow> 48 \<le> c \<and> c \<le> 57"

definition dec_val :: "nat \<Rightarrow> bytes \<Rightarrow> nat" where
  "dec_val = foldl (\<lambda>n c. 10 * n + (unat c - 48))"

lemma dec_val_simps [simp]:
  "dec_val n [] = n"
  "dec_val n (c # cs) = dec_val (10 * n + (unat c - 48)) cs"
  "dec_val n (cs @ [c]) = 10 * dec_val n cs + (unat c - 48)"
  by (simp_all add: dec_val_def)

lemma dec_val_ge: "n \<le> dec_val n cs"
proof (induction cs arbitrary: n)
  case (Cons c cs)
  show ?case using Cons [of "10 * n + (unat c - 48)"] by simp
qed simp

lemma digit_unat: "digit c \<longleftrightarrow> 48 \<le> unat c \<and> unat c \<le> 57"
  by (simp add: digit_def word_le_nat_alt)

lemma clen_digits_spec:
  assumes "int val \<le> LONG_MAX"
  shows "clen_digits (int val) s =
    (if (\<forall>c \<in> set s. digit c) \<and> int (dec_val val s) \<le> LONG_MAX then Some (int (dec_val val s)) else None)"
  using assms
proof (induction s arbitrary: val)
  case Nil
  thus ?case by simp
next
  case (Cons c cs)
  have nd: "c < 48 \<or> 57 < c \<longleftrightarrow> \<not> digit c" by (auto simp: digit_def)
  show ?case
  proof (cases "digit c")
    case False
    thus ?thesis using nd by (simp add: Let_def)
  next
    case True
    have d: "int (unat c) - 48 = int (unat c - 48)" "unat c - 48 \<le> 9" using True by (auto simp: digit_unat)
    let ?v = "10 * val + (unat c - 48)"
    have over: "int val > (LONG_MAX - (int (unat c) - 48)) div 10 \<longleftrightarrow> \<not> int ?v \<le> LONG_MAX"
    proof -
      have "(LONG_MAX - x) div 10 < y \<longleftrightarrow> \<not> 10 * y + x \<le> LONG_MAX" for x y :: int by presburger
      from this [of "int (unat c) - 48" "int val"] show ?thesis using d by simp
    qed
    have v: "int val * 10 + (int (unat c) - 48) = int ?v" using d by simp
    show ?thesis
    proof (cases "int ?v \<le> LONG_MAX")
      case le: True
      have "clen_digits (int val) (c # cs) = clen_digits (int ?v) cs"
        using nd True over le v by (simp only: clen_digits.simps Let_def) simp
      thus ?thesis using Cons.IH [OF le] True by simp
    next
      case False
      have "clen_digits (int val) (c # cs) = None"
        using nd True over False v by (simp only: clen_digits.simps Let_def) simp
      moreover have "\<not> int (dec_val val (c # cs)) \<le> LONG_MAX"
        using False dec_val_ge [of ?v cs] by simp
      ultimately show ?thesis by simp
    qed
  qed
qed

lemma unat_digit_byte: "n < 10 \<Longrightarrow> unat (48 + word_of_nat n :: u8) = 48 + n"
  by (subst unat_word_ariths) (simp add: unat_of_nat)

lemma dec_digits: "\<forall>c \<in> set (dec n). digit c"
proof (induction n rule: dec.induct)
  case (1 n)
  thus ?case using unat_digit_byte [of n] unat_digit_byte [of "n mod 10"]
    by (subst dec.simps) (auto simp: digit_unat)
qed

lemma dec_not_Nil [simp]: "dec n \<noteq> []"
  by (subst dec.simps) simp

lemma dec_val_dec: "dec_val 0 (dec n) = n"
proof (induction n rule: dec.induct)
  case (1 n)
  show ?case
  proof (cases "n < 10")
    case True
    thus ?thesis using unat_digit_byte [of n] by (subst dec.simps) simp
  next
    case False
    thus ?thesis using 1 unat_digit_byte [of "n mod 10"] by (subst dec.simps) simp
  qed
qed

section \<open>Body framing\<close>

text \<open>The value of one element of a Content-Length list, if it is a run of digits.\<close>

definition element_value :: "bytes \<Rightarrow> int option" where
  "element_value e =
    (let t = trim_blanks e
     in if t \<noteq> [] \<and> (\<forall>c \<in> set t. digit c) \<and> int (dec_val 0 t) \<le> LONG_MAX then Some (int (dec_val 0 t)) else None)"

definition comma :: "u8 \<Rightarrow> bool" where
  "comma c \<longleftrightarrow> c = 44"

definition is_named :: "string \<Rightarrow> phr_header \<Rightarrow> bool" where
  "is_named name h = ci_eq (header_name h) (bytes_of name)"

definition clen_elements :: "phr_header list \<Rightarrow> bytes list" where
  "clen_elements hs = concat (map (split_by comma \<circ> snd) (filter (is_named ''Content-Length'') hs))"

lemma clen_element_value:
  "clen_element e st =
    (case element_value e of None \<Rightarrow> None | Some val \<Rightarrow> if fst st \<and> val \<noteq> snd st then None else Some (True, val))"
  using clen_digits_spec [of 0 "trim_blanks e"] by (simp add: clen_element_def element_value_def Let_def LONG_MAX_def)

fun elements_fold :: "bytes list \<Rightarrow> clen_state \<Rightarrow> clen_state option" where
  "elements_fold [] st = Some st"
| "elements_fold (e # es) st = (case clen_element e st of None \<Rightarrow> None | Some st' \<Rightarrow> elements_fold es st')"

lemma elements_fold_append:
  "elements_fold (es @ es') st = (case elements_fold es st of None \<Rightarrow> None | Some st' \<Rightarrow> elements_fold es' st')"
  by (induction es arbitrary: st) (auto split: option.split)

lemma clen_list_fold:
  assumes "start \<le> j" "j \<le> length v"
  shows "clen_list v start j st =
    elements_fold ((take (j - start) (drop start v) @ hd (split_by comma (drop j v))) # tl (split_by comma (drop j v))) st"
  using assms
proof (induction v start j st rule: clen_list.induct)
  case (1 v start j st)
  let ?cur = "take (j - start) (drop start v)"
  consider "j = length v" | "j < length v" "v ! j = 44" | "j < length v" "v ! j \<noteq> 44" using 1(4) by linarith
  thus ?case
  proof cases
    case 1
    thus ?thesis using \<open>start \<le> j\<close>
      by (subst clen_list.simps) (auto simp: clen_list.simps [of v "Suc _"] split: option.split)
  next
    case 2
    have d: "drop j v = 44 # drop (Suc j) v" using 2 by (metis Cons_nth_drop_Suc)
    have IH: "clen_list v (Suc j) (Suc j) st' = elements_fold (split_by comma (drop (Suc j) v)) st'"
      if "clen_element ?cur st = Some st'" for st'
      using 1(1) [of st'] 2 that by (simp del: elements_fold.simps)
    show ?thesis using 2 d IH by (subst clen_list.simps) (auto simp: comma_def split: option.split)
  next
    case 3
    have d: "drop j v = v ! j # drop (Suc j) v" using 3 by (metis Cons_nth_drop_Suc)
    have t: "take (Suc j - start) (drop start v) = ?cur @ [v ! j]"
      using 3 \<open>start \<le> j\<close> by (simp add: Suc_diff_le take_Suc_conv_app_nth)
    have "\<not> comma (v ! j)" using 3 by (simp add: comma_def)
    thus ?thesis using 3 d t 1(2) \<open>start \<le> j\<close> by (subst clen_list.simps) simp
  qed
qed

lemma clen_list_split: "clen_list v 0 0 st = elements_fold (split_by comma v) st"
  using clen_list_fold [of 0 0 v st] by (simp del: elements_fold.simps)

lemma elements_fold_agree:
  "elements_fold es st = Some st' \<longleftrightarrow>
    (es = [] \<and> st' = st) \<or>
    (es \<noteq> [] \<and> fst st' \<and> (\<forall>e \<in> set es. element_value e = Some (snd st')) \<and> (fst st \<longrightarrow> snd st = snd st'))"
proof (induction es arbitrary: st)
  case Nil
  thus ?case by auto
next
  case (Cons e es)
  show ?case
    by (cases st) (auto simp: clen_element_value Cons.IH prod_eq_iff split: option.splits)
qed

lemma framing_loop_spec:
  "framing_loop hs st = (0, n) \<longleftrightarrow>
    (\<forall>h \<in> set hs. \<not> is_named ''Transfer-Encoding'' h) \<and>
    (\<exists>st'. elements_fold (clen_elements hs) st = Some st' \<and> n = (if fst st' then snd st' else 0))"
proof (induction hs arbitrary: st)
  case Nil
  thus ?case by (auto simp: clen_elements_def)
next
  case (Cons h hs)
  show ?case
  proof (cases "is_named ''Content-Length'' h")
    case True
    hence "clen_elements (h # hs) = split_by comma (snd h) @ clen_elements hs" by (simp add: clen_elements_def)
    thus ?thesis using True Cons.IH
      by (auto simp: is_named_def clen_list_split elements_fold_append split: option.split)
  next
    case False
    hence "clen_elements (h # hs) = clen_elements hs" by (simp add: clen_elements_def)
    thus ?thesis using False Cons.IH by (auto simp: is_named_def)
  qed
qed

lemma framing_loop_codes: "fst (framing_loop hs st) \<in> {0, -1, -3}"
  by (induction hs st rule: framing_loop.induct) (auto split: option.split)

lemma framing_spec:
  "resolve_body_framing req = (0, n) \<longleftrightarrow>
    (\<forall>h \<in> set (rq_headers req). \<not> is_named ''Transfer-Encoding'' h) \<and>
    (if clen_elements (rq_headers req) = [] then n = 0
     else \<forall>e \<in> set (clen_elements (rq_headers req)). element_value e = Some n)"
  by (auto simp: resolve_body_framing_def framing_loop_spec elements_fold_agree)

section \<open>Tokens of a header\<close>

definition header_tokens :: "bytes \<Rightarrow> bytes list" where
  "header_tokens v = filter (\<lambda>t. t \<noteq> []) (split_by list_delim v)"

lemma header_tokens_skip: "header_tokens (dropWhile list_delim v) = header_tokens v"
  by (induction v) (auto simp: header_tokens_def)

lemma split_by_takeWhile:
  "split_by P v = takeWhile (\<lambda>c. \<not> P c) v #
    (case dropWhile (\<lambda>c. \<not> P c) v of [] \<Rightarrow> [] | c # cs \<Rightarrow> split_by P cs)"
  by (induction v) (auto split: list.splits)

lemma header_tokens_first:
  assumes "v \<noteq> []" "\<not> list_delim (hd v)"
  shows "header_tokens v = takeWhile (\<lambda>c. \<not> list_delim c) v # header_tokens (dropWhile (\<lambda>c. \<not> list_delim c) v)"
proof -
  let ?t = "takeWhile (\<lambda>c. \<not> list_delim c) v" and ?d = "dropWhile (\<lambda>c. \<not> list_delim c) v"
  have t: "?t \<noteq> []" using assms by (cases v) auto
  show ?thesis
  proof (cases ?d)
    case Nil
    thus ?thesis using t
      by (subst header_tokens_def, subst split_by_takeWhile) (simp add: header_tokens_def del: dropWhile_eq_Nil_conv)
  next
    case (Cons c cs)
    hence "list_delim c" using hd_dropWhile [of "\<lambda>c. \<not> list_delim c" v] by auto
    thus ?thesis using t Cons by (subst header_tokens_def, subst split_by_takeWhile) (simp add: header_tokens_def)
  qed
qed

lemma token_scan_spec:
  "token \<noteq> [] \<Longrightarrow> token_scan token v \<longleftrightarrow> (\<exists>t \<in> set (header_tokens v). ci_eq t token)"
proof (induction token v rule: token_scan.induct)
  case (1 token v)
  let ?w = "dropWhile list_delim v"
  have e: "\<not> ci_eq [] token" using 1(2) by (auto simp: ci_eq_def)
  show ?case
  proof (cases "?w = []")
    case True
    have "header_tokens v = header_tokens ?w" by (simp only: header_tokens_skip)
    also have "\<dots> = []" unfolding True by (simp add: header_tokens_def)
    finally have "header_tokens v = []" .
    thus ?thesis using True e by (subst token_scan.simps) (simp add: Let_def del: dropWhile_eq_Nil_conv)
  next
    case False
    hence v: "v \<noteq> []" by auto
    have "\<not> list_delim (hd ?w)" using False by (rule hd_dropWhile)
    hence h: "header_tokens v = takeWhile (\<lambda>c. \<not> list_delim c) ?w # header_tokens (dropWhile (\<lambda>c. \<not> list_delim c) ?w)"
      using header_tokens_first [OF False] by (simp add: header_tokens_skip)
    obtain t w' where t: "t = takeWhile (\<lambda>c. \<not> list_delim c) ?w" "w' = dropWhile (\<lambda>c. \<not> list_delim c) ?w" by simp
    have IH: "token_scan token w' \<longleftrightarrow> (\<exists>t \<in> set (header_tokens w'). ci_eq t token)" if "\<not> ci_eq t token"
      using 1(1) [OF v refl t(1) that False] 1(2) t(2) by blast
    have "token_scan token v = (ci_eq t token \<or> token_scan token w')"
      using v False by (subst token_scan.simps) (simp only: Let_def t if_False if_True simp_thms split: if_split, blast)
    moreover have "header_tokens v = t # header_tokens w'" using h by (simp only: t)
    ultimately show ?thesis using IH by (cases "ci_eq t token") simp_all
  qed
qed

section \<open>Sizes\<close>

lemma c_int_id: "n < 2 ^ 31 \<Longrightarrow> c_int n = int n"
  by (simp add: c_int_def signed_of_nat signed_take_bit_int_eq_self)

lemma skip_spaces_length: "skip_spaces buf = POk u rest \<Longrightarrow> length rest \<le> length buf"
  by (induction buf rule: skip_spaces.induct) (auto split: if_splits)

lemma expect_char_length: "expect_char ch buf = POk u rest \<Longrightarrow> length rest \<le> length buf"
  by (cases buf) (auto simp: expect_char_def split: if_splits)

lemma ADVANCE_TOKEN_length: "ADVANCE_TOKEN sse buf = POk t rest \<Longrightarrow> length rest \<le> length buf"
  by (auto simp: ADVANCE_TOKEN_scalar consumed_POk dest: path_loop_length)

lemma line_end_length: "line_end buf = POk u rest \<Longrightarrow> length rest \<le> length buf"
  by (cases buf) (auto simp: line_end_def split: if_splits dest: expect_char_length)

lemma parse_http_version_length: "parse_http_version buf = POk u rest \<Longrightarrow> length rest < length buf"
  by (auto simp: parse_http_version_def Let_def split: if_splits)

lemma parse_headers_length: "parse_headers sse m n buf = POk hs rest \<Longrightarrow> length rest \<le> length buf"
proof (induction sse m n buf arbitrary: hs rest rule: parse_headers.induct)
  case (1 sse m n buf)
  show ?case
  proof (cases buf)
    case Nil
    thus ?thesis using 1(2) by (simp add: parse_headers.simps)
  next
    case (Cons c cs)
    show ?thesis
    proof (cases "c = 13 \<or> c = 10")
      case True
      thus ?thesis using 1(2) Cons
        by (subst (asm) parse_headers.simps) (auto simp: pbind_POk split: if_splits dest: expect_char_length)
    next
      case False
      then obtain h r hs' where "n \<noteq> m" "parse_header_line sse n buf = POk h r" "parse_headers sse m (n + 1) r = POk hs' rest"
        using 1(2) Cons by (subst (asm) parse_headers.simps) (auto simp: pbind_POk split: if_splits)
      thus ?thesis using 1(1) [OF Cons, of h r hs' rest] False parse_header_line_length [of sse n buf h r] by fastforce
    qed
  qed
qed

lemma parse_request_length:
  assumes "parse_request sse m buf = POk r rest"
  shows "length rest < length buf"
proof -
  obtain b1 b2 b3 b4 b5 b6 b7 t p v hs where p:
    "(case buf of [] \<Rightarrow> PIncomplete
       | c # cs \<Rightarrow> if c = 13 then expect_char 10 cs else if c = 10 then POk () cs else POk () buf) = POk () b1"
    "parse_token sse b1 32 = POk t b2" "skip_spaces (tl b2) = POk () b3"
    "ADVANCE_TOKEN sse b3 = POk p b4" "skip_spaces (tl b4) = POk () b5"
    "parse_http_version b5 = POk v b6" "line_end b6 = POk () b7" "parse_headers sse m 0 b7 = POk hs rest"
    using assms by (auto simp: parse_request_def pbind_POk split: if_splits)
  have "length b1 \<le> length buf"
    using p(1) by (cases buf) (auto split: if_splits dest: expect_char_length)
  thus ?thesis
    using parse_token_length [OF p(2)] skip_spaces_length [OF p(3)] ADVANCE_TOKEN_length [OF p(4)]
      skip_spaces_length [OF p(5)] parse_http_version_length [OF p(6)] line_end_length [OF p(7)]
      parse_headers_length [OF p(8)]
    by simp
qed

section \<open>The parser of one request\<close>

lemma phr_parse_request_cases:
  "phr_parse_request sse buf m 0 =
    (case parse_request sse m buf of
       PIncomplete \<Rightarrow> (-2, None)
     | PMalformed \<Rightarrow> (-1, None)
     | POk req rest \<Rightarrow> (c_int (length buf - length rest), Some req))"
  by (simp add: phr_parse_request_def)

text \<open>The request as far as the header block determines it.\<close>

definition head_request :: "phr_request \<Rightarrow> portico_request" where
  "head_request p = zero_request \<lparr>rq_method := pr_method p, rq_minor_version := pr_minor_version p,
     rq_path := fst (split_target (pr_path p)), rq_query := snd (split_target (pr_path p)),
     rq_headers := pr_headers p\<rparr>"

text \<open>Persistence as the protocol version and the Connection header determine it.\<close>

definition persistent :: "int \<Rightarrow> phr_header list \<Rightarrow> bool" where
  "persistent minor headers =
    (let connection = (case find_header (bytes_of ''Connection'') headers of None \<Rightarrow> [] | Some v \<Rightarrow> header_tokens v)
     in if minor \<ge> 1 then \<not> (\<exists>t \<in> set connection. ci_eq t (bytes_of ''close''))
        else \<exists>t \<in> set connection. ci_eq t (bytes_of ''keep-alive''))"

lemma head_request_sel [simp]:
  "rq_method (head_request p) = pr_method p" "rq_minor_version (head_request p) = pr_minor_version p"
  "rq_path (head_request p) = fst (split_target (pr_path p))" "rq_query (head_request p) = snd (split_target (pr_path p))"
  "rq_headers (head_request p) = pr_headers p"
  by (simp_all add: head_request_def)

lemma header_token_present_spec:
  "token \<noteq> [] \<Longrightarrow> header_token_present req name token \<longleftrightarrow>
    (\<exists>t \<in> set (case find_header name (rq_headers req) of None \<Rightarrow> [] | Some v \<Rightarrow> header_tokens v). ci_eq t token)"
  by (cases "find_header name (rq_headers req)") (simp_all add: header_token_present_def portico_req_header_def token_scan_spec)

lemma keep_alive_persistent:
  "(if minor \<ge> 1 then \<not> header_token_present req (bytes_of ''Connection'') (bytes_of ''close'')
    else header_token_present req (bytes_of ''Connection'') (bytes_of ''keep-alive'')) =
   persistent minor (rq_headers req)"
proof -
  have "bytes_of ''close'' \<noteq> []" "bytes_of ''keep-alive'' \<noteq> []" by (simp_all add: bytes_of_def)
  thus ?thesis by (simp add: header_token_present_spec persistent_def Let_def)
qed

lemma http_parse_POk:
  assumes "length buf < 2 ^ 31" "parse_request sse PORTICO_MAX_HEADERS buf = POk p rest" "h = length buf - length rest"
  shows "portico_http_parse sse buf =
    (case resolve_body_framing (head_request p) of
       (fr, clen) \<Rightarrow>
         if fr \<noteq> 0 then (fr, head_request p)
         else if clen > int PORTICO_MAX_BODY then (-2, head_request p)
         else if length buf < h + nat clen then (0, head_request p)
         else (int (h + nat clen),
           (head_request p) \<lparr>rq_body := (if clen > 0 then Some (take (nat clen) (drop h buf)) else None),
             rq_body_len := nat clen, rq_keep_alive := persistent (pr_minor_version p) (pr_headers p)\<rparr>))"
proof -
  have "h < 2 ^ 31" using assms(1,3) by linarith
  hence "phr_parse_request sse buf PORTICO_MAX_HEADERS 0 = (int h, Some p)"
    using assms(2,3) by (simp add: phr_parse_request_cases c_int_id)
  hence eq: "portico_http_parse sse buf =
    (case resolve_body_framing (head_request p) of
       (fr, clen) \<Rightarrow>
         if fr \<noteq> 0 then (fr, head_request p)
         else if clen > int PORTICO_MAX_BODY then (-2, head_request p)
         else if length buf < h + nat clen then (0, head_request p)
         else (c_int (h + nat clen),
           (head_request p) \<lparr>rq_body := (if clen > 0 then Some (take (nat clen) (drop h buf)) else None),
             rq_body_len := nat clen, rq_keep_alive := persistent (pr_minor_version p) (pr_headers p)\<rparr>))"
    unfolding portico_http_parse_def keep_alive_persistent Let_def head_request_def [symmetric]
    by (cases "resolve_body_framing (head_request p)") simp
  have "c_int (h + nat clen) = int (h + nat clen)" if "\<not> length buf < h + nat clen" for clen
    using that assms(1) by (intro c_int_id) linarith
  thus ?thesis unfolding eq by (simp split: prod.split)
qed

lemma http_parse_ok:
  assumes "length buf < 2 ^ 31" "parse_request sse PORTICO_MAX_HEADERS buf = POk p rest"
    and "resolve_body_framing (head_request p) = (0, int n)" "n \<le> PORTICO_MAX_BODY" "n \<le> length rest"
  shows "portico_http_parse sse buf =
    (int (length buf - length rest + n),
     (head_request p) \<lparr>rq_body := (if n > 0 then Some (take n (drop (length buf - length rest) buf)) else None),
       rq_body_len := n, rq_keep_alive := persistent (pr_minor_version p) (pr_headers p)\<rparr>)"
proof -
  have "\<not> length buf < length buf - length rest + n" using parse_request_length [OF assms(2)] assms(5) by linarith
  thus ?thesis using http_parse_POk [OF assms(1,2) refl] assms(3,4) by simp
qed

lemma http_parse_stable:
  assumes "portico_http_parse sse buf = (r, req)" "r \<noteq> 0" "length (buf @ extra) < 2 ^ 31"
  shows "portico_http_parse sse (buf @ extra) = (r, req)"
proof (cases "parse_request sse PORTICO_MAX_HEADERS buf")
  case PIncomplete
  thus ?thesis using assms by (simp add: portico_http_parse_def phr_parse_request_cases)
next
  case PMalformed
  hence "parse_request sse PORTICO_MAX_HEADERS (buf @ extra) = PMalformed"
    using stable_parse_request [of sse PORTICO_MAX_HEADERS buf] by (simp add: stable_at_def)
  thus ?thesis using assms PMalformed by (simp add: portico_http_parse_def phr_parse_request_cases)
next
  case (POk p rest)
  hence extra: "parse_request sse PORTICO_MAX_HEADERS (buf @ extra) = POk p (rest @ extra)"
    using stable_parse_request [of sse PORTICO_MAX_HEADERS buf] by (simp add: stable_at_def)
  obtain h where h: "h = length buf - length rest" "h = length (buf @ extra) - length (rest @ extra)" by simp
  obtain fr clen where f: "resolve_body_framing (head_request p) = (fr, clen)" by force
  have l: "length buf < 2 ^ 31" using assms(3) by simp
  have "take (nat clen) (drop h (buf @ extra)) = take (nat clen) (drop h buf)" if "h + nat clen \<le> length buf"
    using that by simp
  thus ?thesis
    using assms(1,2) http_parse_POk [OF l POk h(1)] http_parse_POk [OF assms(3) extra h(2)] f
    by (auto split: if_splits)
qed

lemma framing_nonneg: "resolve_body_framing req = (0, clen) \<Longrightarrow> 0 \<le> clen"
  by (cases "clen_elements (rq_headers req)") (auto simp: framing_spec element_value_def Let_def split: if_splits)

lemma http_parse_accepted:
  assumes "portico_http_parse sse buf = (r, req)" "r > 0" "length buf < 2 ^ 31"
  shows "\<exists>p rest n. parse_request sse PORTICO_MAX_HEADERS buf = POk p rest \<and>
    resolve_body_framing (head_request p) = (0, int n) \<and> n \<le> PORTICO_MAX_BODY \<and> n \<le> length rest"
proof (cases "parse_request sse PORTICO_MAX_HEADERS buf")
  case (POk p rest)
  have l: "length rest < length buf" using parse_request_length [OF POk] .
  obtain fr clen where f: "resolve_body_framing (head_request p) = (fr, clen)" by force
  have "fr \<in> {0, -1, -3}"
    using f framing_loop_codes [of "pr_headers p" "(False, 0)"] by (simp add: resolve_body_framing_def)
  hence fr: "fr = 0" "clen \<le> int PORTICO_MAX_BODY" "nat clen \<le> length rest"
    using assms(1,2) http_parse_POk [OF assms(3) POk refl] f l by (auto split: if_splits)
  thus ?thesis using POk f framing_nonneg [of "head_request p" clen]
    by (intro exI [of _ p] exI [of _ rest] exI [of _ "nat clen"]) auto
qed (use assms in \<open>auto simp: portico_http_parse_def phr_parse_request_cases\<close>)

lemma http_parse_codes:
  assumes "portico_http_parse sse buf = (r, req)" "length buf < 2 ^ 31"
  shows "r > 0 \<or> r \<in> {0, -1, -2, -3}"
proof (cases "parse_request sse PORTICO_MAX_HEADERS buf")
  case (POk p rest)
  obtain fr clen where f: "resolve_body_framing (head_request p) = (fr, clen)" by force
  have "fr \<in> {0, -1, -3}"
    using f framing_loop_codes [of "pr_headers p" "(False, 0)"] by (simp add: resolve_body_framing_def)
  thus ?thesis using assms(1) http_parse_POk [OF assms(2) POk refl] f by (auto split: if_splits)
qed (use assms in \<open>auto simp: portico_http_parse_def phr_parse_request_cases\<close>)

lemma element_value_dec:
  assumes "int n \<le> LONG_MAX"
  shows "split_by comma (dec n) = [dec n]" "element_value (dec n) = Some (int n)"
proof -
  have d: "\<forall>c \<in> set (dec n). digit c" by (rule dec_digits)
  have b: "\<forall>c \<in> set (dec n). \<not> (c = 32 \<or> c = 9)" and k: "\<forall>c \<in> set (dec n). \<not> comma c"
    using d by (auto simp: digit_def comma_def)
  show "split_by comma (dec n) = [dec n]" using k by (rule split_by_run)
  have dw: "dropWhile (\<lambda>c. c = 32 \<or> c = 9) xs = xs" if "\<forall>c \<in> set xs. \<not> (c = 32 \<or> c = (9 :: u8))" for xs
    using that by (cases xs) auto
  have "trim_blanks (dec n) = dec n"
    using dw [OF b] dw [of "rev (dec n)"] b by (simp add: trim_blanks_def strip_value_def)
  thus "element_value (dec n) = Some (int n)" using d assms by (simp add: element_value_def dec_val_dec)
qed

lemma split_target_join:
  "split_target target = (path, query) \<Longrightarrow>
    target = (case query of None \<Rightarrow> path | Some q \<Rightarrow> path @ 63 # q) \<and> 63 \<notin> set path"
  by (induction target arbitrary: path) (auto simp: split_target_def split: list.splits if_splits)

text \<open>The headers announce a body of \<open>n\<close> bytes.\<close>

definition announces :: "nat \<Rightarrow> (bytes \<times> bytes) list \<Rightarrow> bool" where
  "announces n headers \<longleftrightarrow>
    (\<forall>h \<in> set headers. \<not> ci_eq (fst h) (bytes_of ''Transfer-Encoding'')) \<and>
    (\<forall>h \<in> set headers. ci_eq (fst h) (bytes_of ''Content-Length'') \<longrightarrow> snd h = dec n) \<and>
    (n \<noteq> 0 \<longrightarrow> (\<exists>h \<in> set headers. ci_eq (fst h) (bytes_of ''Content-Length'')))"

lemma announces_framing:
  assumes "announces n headers" "n \<le> PORTICO_MAX_BODY" "rq_headers req = map (apfst Some) headers"
  shows "resolve_body_framing req = (0, int n)"
proof -
  have n: "int n \<le> LONG_MAX" using assms(2) by (simp add: PORTICO_MAX_BODY_def LONG_MAX_def)
  have named: "is_named name (apfst Some h) = ci_eq (fst h) (bytes_of name)" for name h
    by (simp add: is_named_def header_name_def)
  have "e = dec n" if e: "e \<in> set (clen_elements (rq_headers req))" for e
  proof -
    obtain h where h: "h \<in> set headers" "is_named ''Content-Length'' (apfst Some h)" "e \<in> set (split_by comma (snd h))"
      using e assms(3) by (auto simp: clen_elements_def)
    hence "snd h = dec n" using assms(1) named by (simp add: announces_def)
    thus ?thesis using h(3) element_value_dec(1) [OF n] by simp
  qed
  moreover have "clen_elements (rq_headers req) \<noteq> []" if nz: "n \<noteq> 0"
  proof -
    obtain h where h: "h \<in> set headers" "ci_eq (fst h) (bytes_of ''Content-Length'')"
      using assms(1) nz by (auto simp: announces_def)
    hence "apfst Some h \<in> set (filter (is_named ''Content-Length'') (rq_headers req))" using assms(3) named by simp
    then obtain as bs where "filter (is_named ''Content-Length'') (rq_headers req) = as @ apfst Some h # bs"
      by (meson split_list)
    thus ?thesis by (simp add: clen_elements_def)
  qed
  moreover have "\<forall>h \<in> set (rq_headers req). \<not> is_named ''Transfer-Encoding'' h"
    using assms(1,3) named by (auto simp: announces_def)
  ultimately show ?thesis
    using element_value_dec(2) [OF n] by (auto simp: framing_spec)
qed

section \<open>Claims\<close>

text \<open>
  C24. A request that a client writes, with well-formed verb, target and headers and a body of the
  announced length, is parsed back exactly: verb, path and query, version, all headers in order,
  body and persistence. The result is the length of the request, whatever bytes follow it.
\<close>

theorem http_request_round_trip:
  assumes "wf_token verb" "wf_target target" "minor < 10" "\<forall>h \<in> set headers. wf_header h"
    and "length headers \<le> PORTICO_MAX_HEADERS" "announces (length body) headers" "length body \<le> PORTICO_MAX_BODY"
    and "length (request_head verb target minor headers @ body @ extra) < 2 ^ 31"
  shows "\<exists>req. portico_http_parse sse (request_head verb target minor headers @ body @ extra) =
      (int (length (request_head verb target minor headers) + length body), req) \<and>
    rq_method req = verb \<and>
    target = (case rq_query req of None \<Rightarrow> rq_path req | Some q \<Rightarrow> rq_path req @ 63 # q) \<and> 63 \<notin> set (rq_path req) \<and>
    rq_minor_version req = int minor \<and> rq_headers req = map (apfst Some) headers \<and>
    rq_body req = (if body = [] then None else Some body) \<and> rq_body_len req = length body \<and>
    rq_keep_alive req = persistent (int minor) (map (apfst Some) headers)"
proof -
  let ?head = "request_head verb target minor headers" and ?n = "length body"
  let ?p = "\<lparr>pr_method = verb, pr_path = target, pr_minor_version = int minor, pr_headers = map (apfst Some) headers\<rparr>"
  let ?req = "(head_request ?p) \<lparr>rq_body := (if body = [] then None else Some body), rq_body_len := ?n,
      rq_keep_alive := persistent (int minor) (map (apfst Some) headers)\<rparr>"
  have "parse_request sse PORTICO_MAX_HEADERS (?head @ body @ extra) = POk ?p (body @ extra)"
    using assms(1-5) by (rule parse_request_run)
  moreover have "resolve_body_framing (head_request ?p) = (0, int ?n)"
    using assms(6,7) by (rule announces_framing) simp
  ultimately have "portico_http_parse sse (?head @ body @ extra) = (int (length ?head + ?n), ?req)"
    using http_parse_ok [OF assms(8), of sse ?p "body @ extra" ?n] assms(7) by simp
  moreover have "target = (case rq_query ?req of None \<Rightarrow> rq_path ?req | Some q \<Rightarrow> rq_path ?req @ 63 # q) \<and> 63 \<notin> set (rq_path ?req)"
    by (rule split_target_join) simp
  ultimately show ?thesis by (intro exI [of _ ?req] conjI) simp_all
qed

definition demo_request_headers :: "(bytes \<times> bytes) list" where
  "demo_request_headers =
    [(bytes_of ''Host'', bytes_of ''example.org''), (bytes_of ''Content-Length'', bytes_of ''2''),
     (bytes_of ''Connection'', bytes_of ''x, Close'')]"

lemma demo_request_facts:
  "wf_token (bytes_of ''POST'')" "wf_target (bytes_of ''/a?b=1'')" "\<forall>h \<in> set demo_request_headers. wf_header h"
  "length demo_request_headers \<le> PORTICO_MAX_HEADERS" "announces (length (bytes_of ''hi'')) demo_request_headers"
  "length (bytes_of ''hi'') \<le> PORTICO_MAX_BODY"
  by (code_simp, code_simp, code_simp, code_simp, code_simp, simp add: bytes_of_def PORTICO_MAX_BODY_def)

lemma demo_request_size:
  "length (request_head (bytes_of ''POST'') (bytes_of ''/a?b=1'') 1 demo_request_headers @ bytes_of ''hi'' @ [71]) < 2 ^ 31"
  by (simp add: request_head_def header_lines_def demo_request_headers_def bytes_of_def CRLF_def)

theorem http_request_round_trip_witness:
  "\<exists>req. portico_http_parse True (request_head (bytes_of ''POST'') (bytes_of ''/a?b=1'') 1 demo_request_headers @ bytes_of ''hi'' @ [71]) =
      (int (length (request_head (bytes_of ''POST'') (bytes_of ''/a?b=1'') 1 demo_request_headers) + length (bytes_of ''hi'')), req) \<and>
    rq_body_len req = length (bytes_of ''hi'') \<and> rq_keep_alive req = persistent (int 1) (map (apfst Some) demo_request_headers)"
  using http_request_round_trip [OF demo_request_facts(1,2) _ demo_request_facts(3-6) demo_request_size, of True] by auto

text \<open>
  C25. Body framing leaves no room for request smuggling: a length is accepted exactly when no
  Transfer-Encoding header is present and every element of every Content-Length header is a run of
  digits, all with that same value (or there is none and the length is 0); everything else is
  refused with -1 or -3.
\<close>

theorem body_framing_exact:
  "(resolve_body_framing req = (0, n) \<longleftrightarrow>
     (\<forall>h \<in> set (rq_headers req). \<not> is_named ''Transfer-Encoding'' h) \<and>
     (if clen_elements (rq_headers req) = [] then n = 0
      else \<forall>e \<in> set (clen_elements (rq_headers req)). element_value e = Some n)) \<and>
   fst (resolve_body_framing req) \<in> {0, -1, -3}"
  using framing_spec framing_loop_codes by (simp add: resolve_body_framing_def)

definition demo_framing :: "string list \<Rightarrow> portico_request" where
  "demo_framing vs = zero_request \<lparr>rq_headers := map (\<lambda>v. (Some (bytes_of ''content-length''), bytes_of v)) vs\<rparr>"

theorem body_framing_exact_witness:
  "resolve_body_framing (demo_framing [''5, 5'', ''5'']) = (0, 5) \<and>
   \<not> (\<exists>n. resolve_body_framing (demo_framing [''5'', ''+5'']) = (0, n))"
proof -
  have "resolve_body_framing (demo_framing [''5, 5'', ''5'']) = (0, 5)"
    by (subst body_framing_exact [THEN conjunct1]) code_simp
  moreover have "clen_elements (rq_headers (demo_framing [''5'', ''+5''])) = [bytes_of ''5'', bytes_of ''+5'']"
    "element_value (bytes_of ''+5'') = None" by code_simp+
  hence "\<not> resolve_body_framing (demo_framing [''5'', ''+5'']) = (0, n)" for n
    by (subst body_framing_exact [THEN conjunct1]) simp
  ultimately show ?thesis by blast
qed

text \<open>
  C26. A decision of the parser is final: once it accepts or refuses the bytes received so far, the
  same answer and the same request come out however many further bytes have arrived.
\<close>

theorem http_parse_decision_final:
  "portico_http_parse sse buf = (r, req) \<Longrightarrow> r \<noteq> 0 \<Longrightarrow> length (buf @ extra) < 2 ^ 31 \<Longrightarrow>
    portico_http_parse sse (buf @ extra) = (r, req)"
  by (rule http_parse_stable)

theorem http_parse_decision_final_witness:
  "portico_http_parse False (bytes_of ''GET / HTTP/2.0'' @ [13, 10] @ [1, 2, 3]) = (-1, zero_request)"
proof -
  have "portico_http_parse False (bytes_of ''GET / HTTP/2.0'' @ [13, 10]) = (-1, zero_request)" by code_simp
  moreover have "length ((bytes_of ''GET / HTTP/2.0'' @ [13, 10]) @ [1, 2, 3]) < 2 ^ 31" by (simp add: bytes_of_def)
  ultimately show ?thesis
    using http_parse_decision_final [of False "bytes_of ''GET / HTTP/2.0'' @ [13, 10]" "-1" zero_request "[1, 2, 3]"] by simp
qed

text \<open>
  C27. On arbitrary input an accepted request lies inside the buffer: it is a header block followed by
  a body of the length that the framing determined, at most the limit, and the result is the sum of
  both. Every other result is 0 or one of the three refusals.
\<close>

theorem http_parse_bounds:
  assumes "portico_http_parse sse buf = (r, req)" "length buf < 2 ^ 31"
  shows "r > 0 \<and> (\<exists>h n. r = int (h + n) \<and> 0 < h \<and> h + n \<le> length buf \<and> n \<le> PORTICO_MAX_BODY \<and>
      resolve_body_framing req = (0, int n) \<and> rq_body_len req = n \<and>
      rq_body req = (if n = 0 then None else Some (take n (drop h buf)))) \<or>
    r \<in> {0, -1, -2, -3}"
proof (cases "r > 0")
  case True
  then obtain p rest n where p: "parse_request sse PORTICO_MAX_HEADERS buf = POk p rest"
    "resolve_body_framing (head_request p) = (0, int n)" "n \<le> PORTICO_MAX_BODY" "n \<le> length rest"
    using http_parse_accepted [OF assms(1) _ assms(2)] by blast
  have l: "length rest < length buf" using parse_request_length [OF p(1)] .
  have req: "r = int (length buf - length rest + n)" "rq_body_len req = n" "rq_headers req = pr_headers p"
      "rq_body req = (if n = 0 then None else Some (take n (drop (length buf - length rest) buf)))"
    using http_parse_ok [OF assms(2) p] assms(1) by auto
  have "resolve_body_framing req = (0, int n)"
    using p(2) req(3) by (simp add: resolve_body_framing_def)
  thus ?thesis using True req l p(3,4) by (intro disjI1 conjI exI [of _ "length buf - length rest"] exI [of _ n]) auto
next
  case False
  thus ?thesis using http_parse_codes [OF assms] by blast
qed

lemma demo_get_parsed:
  "\<exists>req. portico_http_parse False (request_head [71, 69, 84] [47] 0 []) = (18, req)"
proof -
  have "parse_request False PORTICO_MAX_HEADERS (request_head [71, 69, 84] [47] 0 [] @ []) =
      POk \<lparr>pr_method = [71, 69, 84], pr_path = [47], pr_minor_version = int 0, pr_headers = map (apfst Some) []\<rparr> []"
    by (rule parse_request_run) (code_simp | simp)+
  moreover have "length (request_head [71, 69, 84] [47] 0 []) = 18"
    by (simp add: request_head_def header_lines_def bytes_of_def CRLF_def)
  moreover have "announces 0 []" by (simp add: announces_def)
  hence "resolve_body_framing (head_request \<lparr>pr_method = [71, 69, 84], pr_path = [47], pr_minor_version = int 0,
      pr_headers = map (apfst Some) []\<rparr>) = (0, int 0)"
    by (rule announces_framing) simp_all
  ultimately show ?thesis using http_parse_ok [of "request_head [71, 69, 84] [47] 0 []" False _ "[]" 0] by simp
qed

theorem http_parse_bounds_witness:
  "\<exists>r req h n. portico_http_parse False (request_head [71, 69, 84] [47] 0 []) = (r, req) \<and>
    r = int (h + n) \<and> 0 < h \<and> h + n \<le> length (request_head [71, 69, 84] [47] 0 [])"
proof -
  obtain req where "portico_http_parse False (request_head [71, 69, 84] [47] 0 []) = (18, req)"
    using demo_get_parsed by blast
  moreover have "length (request_head [71, 69, 84] [47] 0 []) < 2 ^ 31"
    by (simp add: request_head_def header_lines_def bytes_of_def CRLF_def)
  ultimately show ?thesis
    using http_parse_bounds [of False "request_head [71, 69, 84] [47] 0 []" 18 req] by auto
qed

end
