(* ===== verification/Http_Response.thy ===== *)
theory Http_Response
  imports Http_Request_Spec
begin

text \<open>
  HTTP responses (response.c): the builders the application calls, status phrases, and the
  serialisation. The header buffer is the list of its used bytes; a body is absent (NULL) or a
  byte list. C strings are byte lists without the terminating NUL.
\<close>

definition PORTICO_RES_HEADERS_CAP :: nat where
  "PORTICO_RES_HEADERS_CAP = 4096"

record portico_response =
  rs_status :: int
  rs_headers :: bytes
  rs_body :: "bytes option"
  rs_owns_body :: bool
  rs_keep_alive :: bool
  rs_content_type_set :: bool
  rs_is_file :: bool
  rs_file_fd :: int
  rs_file_offset :: int
  rs_file_size :: int
  rs_head_only :: bool

definition zero_response :: portico_response where
  "zero_response = \<lparr>rs_status = 0, rs_headers = [], rs_body = None, rs_owns_body = False, rs_keep_alive = False,
     rs_content_type_set = False, rs_is_file = False, rs_file_fd = 0, rs_file_offset = 0, rs_file_size = 0,
     rs_head_only = False\<rparr>"

definition body_bytes :: "portico_response \<Rightarrow> bytes" where
  "body_bytes res = (case rs_body res of None \<Rightarrow> [] | Some b \<Rightarrow> b)"

section \<open>Builders\<close>

definition portico_res_status :: "portico_response \<Rightarrow> int \<Rightarrow> portico_response" where
  "portico_res_status res status = res\<lparr>rs_status := status\<rparr>"

definition header_line :: "bytes \<Rightarrow> bytes \<Rightarrow> bytes" where
  "header_line name v = name @ [58, 32] @ v @ CRLF"

definition portico_res_header :: "portico_response \<Rightarrow> bytes \<Rightarrow> bytes \<Rightarrow> portico_response" where
  "portico_res_header res name v =
    (let line = header_line name v;
         res = (if length line < PORTICO_RES_HEADERS_CAP - length (rs_headers res)
                then res\<lparr>rs_headers := rs_headers res @ line\<rparr> else res)
     in if ci_eq name (bytes_of ''Content-Type'') then res\<lparr>rs_content_type_set := True\<rparr> else res)"

definition portico_res_body ::
  "(nat \<Rightarrow> bool) \<Rightarrow> portico_response \<Rightarrow> bytes \<Rightarrow> bytes option \<Rightarrow> portico_response" where
  "portico_res_body malloc_ok res data content_type =
    (if \<not> malloc_ok (if data \<noteq> [] then length data else 1)
     then res\<lparr>rs_body := None, rs_owns_body := False\<rparr>
     else
       let res = res\<lparr>rs_body := Some data, rs_owns_body := True\<rparr>
       in case content_type of
            None \<Rightarrow> res
          | Some ct \<Rightarrow> if rs_content_type_set res then res else portico_res_header res (bytes_of ''Content-Type'') ct)"

definition portico_res_json :: "(nat \<Rightarrow> bool) \<Rightarrow> portico_response \<Rightarrow> bytes \<Rightarrow> portico_response" where
  "portico_res_json malloc_ok res json = portico_res_body malloc_ok res json (Some (bytes_of ''application/json''))"

definition portico_res_text :: "(nat \<Rightarrow> bool) \<Rightarrow> portico_response \<Rightarrow> int \<Rightarrow> bytes \<Rightarrow> portico_response" where
  "portico_res_text malloc_ok res status txt =
    portico_res_body malloc_ok (res\<lparr>rs_status := status\<rparr>) txt (Some (bytes_of ''text/plain; charset=utf-8''))"

section \<open>Serialisation\<close>

definition portico_http_reason :: "int \<Rightarrow> string" where
  "portico_http_reason status =
    (if status = 200 then ''OK'' else if status = 201 then ''Created''
     else if status = 204 then ''No Content'' else if status = 206 then ''Partial Content''
     else if status = 301 then ''Moved Permanently'' else if status = 304 then ''Not Modified''
     else if status = 400 then ''Bad Request'' else if status = 401 then ''Unauthorized''
     else if status = 403 then ''Forbidden'' else if status = 404 then ''Not Found''
     else if status = 405 then ''Method Not Allowed'' else if status = 409 then ''Conflict''
     else if status = 413 then ''Payload Too Large'' else if status = 414 then ''URI Too Long''
     else if status = 416 then ''Range Not Satisfiable''
     else if status = 431 then ''Request Header Fields Too Large''
     else if status = 500 then ''Internal Server Error'' else if status = 501 then ''Not Implemented''
     else ''OK'')"

text \<open>\<open>%d\<close> and \<open>%lld\<close>.\<close>

definition dec_int :: "int \<Rightarrow> bytes" where
  "dec_int i = (if i < 0 then 45 # dec (nat (- i)) else dec (nat i))"

text \<open>The conversion of a \<open>long long\<close> to \<open>size_t\<close>.\<close>

definition size_of_ll :: "int \<Rightarrow> nat" where
  "size_of_ll i = unat (word_of_int i :: u64)"

definition status_line :: "int \<Rightarrow> bytes" where
  "status_line status =
    bytes_of ''HTTP/1.1 '' @ dec_int status @ [32] @ bytes_of (portico_http_reason status) @ CRLF"

definition connection_value :: "bool \<Rightarrow> bytes" where
  "connection_value keep_alive = bytes_of (if keep_alive then ''keep-alive'' else ''close'')"

definition response_head :: "int \<Rightarrow> bytes \<Rightarrow> bytes \<Rightarrow> bool \<Rightarrow> bytes" where
  "response_head status headers clen keep_alive =
    status_line status @ headers @ bytes_of ''Content-Length: '' @ clen @ CRLF @
    bytes_of ''Connection: '' @ connection_value keep_alive @ CRLF @ CRLF"

text \<open>The second component is the response with its status defaulted.\<close>

definition portico_http_build_response ::
  "(nat \<Rightarrow> bool) \<Rightarrow> portico_response \<Rightarrow> bytes option \<times> portico_response" where
  "portico_http_build_response malloc_ok res =
    (let res = (if rs_status res = 0 then res\<lparr>rs_status := 200\<rparr> else res);
         clen = (if rs_head_only res then size_of_ll (rs_file_size res) else length (body_bytes res));
         blen = (if rs_head_only res then 0 else length (body_bytes res));
         head = response_head (rs_status res) (rs_headers res) (dec clen) (rs_keep_alive res)
     in if length head \<ge> PORTICO_RES_HEADERS_CAP + 256 then (None, res)
        else
          let total = length head + blen
          in if \<not> malloc_ok (if total \<noteq> 0 then total else 1) then (None, res)
             else (Some (head @ take blen (body_bytes res)), res))"

definition portico_http_build_status :: "(nat \<Rightarrow> bool) \<Rightarrow> int \<Rightarrow> bool \<Rightarrow> bytes option" where
  "portico_http_build_status malloc_ok status keep_alive =
    (let tmp = status_line status @ bytes_of ''Content-Length: 0'' @ CRLF @
               bytes_of ''Connection: '' @ connection_value keep_alive @ CRLF @ CRLF
     in if length tmp \<ge> 160 then None
        else if \<not> malloc_ok (length tmp) then None
        else Some tmp)"

section \<open>Sizes\<close>

lemma length_dec_mono: "n < 10 ^ k \<Longrightarrow> 0 < k \<Longrightarrow> length (dec n) \<le> k"
proof (induction k arbitrary: n)
  case (Suc k)
  show ?case
  proof (cases "n < 10")
    case True
    thus ?thesis by (subst dec.simps) simp
  next
    case False
    hence "0 < k" using Suc.prems by (cases k) auto
    moreover have "n div 10 < 10 ^ k" using Suc.prems by (simp add: div_less_iff_less_mult mult.commute)
    ultimately show ?thesis using Suc.IH [of "n div 10"] False by (subst dec.simps) simp
  qed
qed simp

lemma length_dec_int:
  assumes "-(2 ^ 31) \<le> i" "i < 2 ^ 31"
  shows "length (dec_int i) \<le> 11"
proof (cases "i < 0")
  case True
  have "nat (- i) < 10 ^ 10" using assms by simp
  thus ?thesis using length_dec_mono [of "nat (- i)" 10] True by (simp add: dec_int_def)
next
  case False
  have "nat i < 10 ^ 10" using assms by simp
  thus ?thesis using length_dec_mono [of "nat i" 10] False by (simp add: dec_int_def)
qed

lemma length_bytes_of [simp]: "length (bytes_of s) = length s"
  by (simp add: bytes_of_def)

lemma length_reason: "length (portico_http_reason status) \<le> 31"
  by (simp add: portico_http_reason_def)

lemma length_status_line:
  assumes "-(2 ^ 31) \<le> status" "status < 2 ^ 31"
  shows "length (status_line status) \<le> 54"
  using length_dec_int [OF assms] length_reason [of status] by (simp add: status_line_def CRLF_def)

lemma build_status_total:
  assumes "-(2 ^ 31) \<le> status" "status < 2 ^ 31" "\<forall>n. malloc_ok n"
  shows "portico_http_build_status malloc_ok status keep_alive =
    Some (status_line status @ header_lines [(bytes_of ''Content-Length'', dec 0),
      (bytes_of ''Connection'', connection_value keep_alive)] @ CRLF)"
proof -
  have "dec 0 = [48]" by (subst dec.simps) simp
  thus ?thesis
    using length_status_line [OF assms(1,2)] assms(3)
    by (simp add: portico_http_build_status_def Let_def header_lines_def CRLF_def connection_value_def bytes_of_def)
qed

end
