(* ===== verification/Http_Response_Spec.thy ===== *)
theory Http_Response_Spec
  imports Http_Response "HOL-Library.Sublist"
begin

text \<open>
  Serialised responses delimit themselves: a client that reads the header block and then as many
  bytes as the framing rules give finds exactly the headers and the body the application supplied.
\<close>

definition add_headers :: "portico_response \<Rightarrow> (bytes \<times> bytes) list \<Rightarrow> portico_response" where
  "add_headers res hs = foldl (\<lambda>res h. portico_res_header res (fst h) (snd h)) res hs"

lemma res_header_fields [simp]:
  "rs_status (portico_res_header res n v) = rs_status res"
  "rs_keep_alive (portico_res_header res n v) = rs_keep_alive res"
  "rs_head_only (portico_res_header res n v) = rs_head_only res"
  "rs_body (portico_res_header res n v) = rs_body res"
  by (simp_all add: portico_res_header_def Let_def)

lemma add_headers_fields [simp]:
  "rs_status (add_headers res hs) = rs_status res"
  "rs_keep_alive (add_headers res hs) = rs_keep_alive res"
  "rs_head_only (add_headers res hs) = rs_head_only res"
  "rs_body (add_headers res hs) = rs_body res"
  by (induction hs arbitrary: res) (simp_all add: add_headers_def)

lemma header_lines_snoc: "header_lines (hs @ [(n, v)]) = header_lines hs @ header_line n v"
  by (simp add: header_lines_def header_line_def)

lemma header_lines_append: "header_lines (hs @ hs') = header_lines hs @ header_lines hs'"
  by (simp add: header_lines_def)

lemma res_header_lines:
  assumes "rs_headers res = header_lines hs" "length (rs_headers res) < PORTICO_RES_HEADERS_CAP"
  shows "\<exists>hs'. rs_headers (portico_res_header res n v) = header_lines hs' \<and>
    length (rs_headers (portico_res_header res n v)) < PORTICO_RES_HEADERS_CAP \<and> (hs' = hs \<or> hs' = hs @ [(n, v)]) \<and>
    (length (header_lines (hs @ [(n, v)])) < PORTICO_RES_HEADERS_CAP \<longrightarrow> hs' = hs @ [(n, v)])"
proof (cases "length (header_line n v) < PORTICO_RES_HEADERS_CAP - length (rs_headers res)")
  case True
  thus ?thesis using assms
    by (intro exI [of _ "hs @ [(n, v)]"]) (simp add: portico_res_header_def Let_def header_lines_snoc)
next
  case False
  thus ?thesis using assms
    by (intro exI [of _ hs]) (simp add: portico_res_header_def Let_def header_lines_snoc)
qed

lemma add_headers_lines:
  assumes "rs_headers res = header_lines hs0" "length (rs_headers res) < PORTICO_RES_HEADERS_CAP"
  shows "\<exists>kept. rs_headers (add_headers res hs) = header_lines (hs0 @ kept) \<and>
    length (rs_headers (add_headers res hs)) < PORTICO_RES_HEADERS_CAP \<and> subseq kept hs \<and>
    (length (header_lines (hs0 @ hs)) < PORTICO_RES_HEADERS_CAP \<longrightarrow> kept = hs)"
  using assms
proof (induction hs arbitrary: res hs0)
  case Nil
  thus ?case by (simp add: add_headers_def)
next
  case (Cons h hs)
  obtain n v where h: "h = (n, v)" by force
  let ?res = "portico_res_header res n v"
  obtain hs1 where 1: "rs_headers ?res = header_lines hs1" "length (rs_headers ?res) < PORTICO_RES_HEADERS_CAP"
    "hs1 = hs0 \<or> hs1 = hs0 @ [(n, v)]"
    "length (header_lines (hs0 @ [(n, v)])) < PORTICO_RES_HEADERS_CAP \<Longrightarrow> hs1 = hs0 @ [(n, v)]"
    using res_header_lines [OF Cons.prems, of n v] by blast
  obtain kept where 2: "rs_headers (add_headers ?res hs) = header_lines (hs1 @ kept)"
    "length (rs_headers (add_headers ?res hs)) < PORTICO_RES_HEADERS_CAP" "subseq kept hs"
    "length (header_lines (hs1 @ hs)) < PORTICO_RES_HEADERS_CAP \<Longrightarrow> kept = hs"
    using Cons.IH [OF 1(1,2)] by blast
  have add: "add_headers res (h # hs) = add_headers ?res hs" by (simp add: add_headers_def h)
  have all: "hs1 = hs0 @ [(n, v)] \<and> kept = hs" if "length (header_lines (hs0 @ h # hs)) < PORTICO_RES_HEADERS_CAP"
  proof -
    have "header_lines (hs0 @ h # hs) = header_lines (hs0 @ [(n, v)]) @ header_lines hs"
      by (simp add: h header_lines_def)
    hence "hs1 = hs0 @ [(n, v)]" using that by (intro 1(4)) simp
    thus ?thesis using 2(4) that by (simp add: h)
  qed
  from 1(3) show ?case
  proof
    assume "hs1 = hs0"
    thus ?thesis using 2(1-3) all add by (intro exI [of _ kept]) (auto simp: h)
  next
    assume "hs1 = hs0 @ [(n, v)]"
    thus ?thesis using 2(1-3) all add by (intro exI [of _ "(n, v) # kept"]) (auto simp: h)
  qed
qed

text \<open>The headers on the wire.\<close>

definition framed :: "(bytes \<times> bytes) list \<Rightarrow> nat \<Rightarrow> bool \<Rightarrow> (bytes \<times> bytes) list" where
  "framed hs n keep_alive =
    hs @ [(bytes_of ''Content-Length'', dec n), (bytes_of ''Connection'', connection_value keep_alive)]"

lemma response_head_framed:
  "response_head status (header_lines hs) (dec n) keep_alive =
    status_line status @ header_lines (framed hs n keep_alive) @ CRLF"
  by (simp add: response_head_def framed_def header_lines_def bytes_of_def)

lemma build_response_exact:
  assumes "\<forall>n. malloc_ok n" "length (rs_headers res) < PORTICO_RES_HEADERS_CAP" "\<not> rs_head_only res"
    and "-(2 ^ 31) \<le> rs_status res" "rs_status res < 2 ^ 31" "rs_status res \<noteq> 0" "length (body_bytes res) < 2 ^ 64"
  shows "portico_http_build_response malloc_ok res =
    (Some (response_head (rs_status res) (rs_headers res) (dec (length (body_bytes res))) (rs_keep_alive res) @ body_bytes res), res)"
proof -
  have "length (body_bytes res) < 10 ^ 20" using assms(7) by simp
  hence "length (dec (length (body_bytes res))) \<le> 20" by (rule length_dec_mono) simp
  moreover have "length (connection_value (rs_keep_alive res)) \<le> 10" by (simp add: connection_value_def)
  ultimately have "length (response_head (rs_status res) (rs_headers res) (dec (length (body_bytes res))) (rs_keep_alive res))
      < PORTICO_RES_HEADERS_CAP + 256"
    using assms(2) length_status_line [OF assms(4,5)] by (simp add: response_head_def CRLF_def)
  thus ?thesis using assms(1,3,6) by (simp add: portico_http_build_response_def Let_def)
qed

lemma wf_value_ascii:
  assumes "list_all (\<lambda>c. 32 < c \<and> c < 127) v"
  shows "wf_value v"
proof -
  have "\<not> is_eol_ctl c \<and> \<not> blank c" if "c \<in> set v" for c
  proof -
    have "32 < c" "c < 127" using assms that by (auto simp: list_all_iff)
    thus ?thesis by (auto simp: is_eol_ctl_def blank_def)
  qed
  thus ?thesis by (auto simp: wf_value_def)
qed

lemma wf_framed:
  assumes "\<forall>h \<in> set hs. wf_header h"
  shows "\<forall>h \<in> set (framed hs n keep_alive). wf_header h"
proof -
  have "wf_value (dec n)"
    using dec_digits [of n] by (intro wf_value_ascii) (auto simp: list_all_iff digit_unat word_less_nat_alt)
  moreover have "wf_value (connection_value True)" "wf_value (connection_value False)"
    by (rule wf_value_ascii, code_simp)+
  hence "wf_value (connection_value keep_alive)" by (cases keep_alive) simp_all
  moreover have "wf_token (bytes_of ''Content-Length'')" "wf_token (bytes_of ''Connection'')" by code_simp+
  ultimately show ?thesis using assms by (auto simp: framed_def wf_header_def)
qed

lemma announces_framed:
  assumes "\<forall>h \<in> set hs. \<not> ci_eq (fst h) (bytes_of ''Content-Length'') \<and> \<not> ci_eq (fst h) (bytes_of ''Transfer-Encoding'')"
  shows "announces n (framed hs n keep_alive)"
proof -
  have "ci_eq (bytes_of ''Content-Length'') (bytes_of ''Content-Length'')"
    "\<not> ci_eq (bytes_of ''Content-Length'') (bytes_of ''Transfer-Encoding'')"
    "\<not> ci_eq (bytes_of ''Connection'') (bytes_of ''Content-Length'')"
    "\<not> ci_eq (bytes_of ''Connection'') (bytes_of ''Transfer-Encoding'')" by code_simp+
  thus ?thesis using assms by (auto simp: announces_def framed_def)
qed

lemma subseq_subset: "subseq xs ys \<Longrightarrow> set xs \<subseteq> set ys"
  by (induction rule: list_emb.induct) auto

lemma add_headers_kept:
  "\<exists>kept. rs_headers (add_headers (zero_response\<lparr>rs_status := status, rs_keep_alive := keep\<rparr>) hs) = header_lines kept \<and>
    length (header_lines kept) < PORTICO_RES_HEADERS_CAP \<and> subseq kept hs \<and>
    (length (header_lines hs) < PORTICO_RES_HEADERS_CAP \<longrightarrow> kept = hs)"
proof -
  have "rs_headers (zero_response\<lparr>rs_status := status, rs_keep_alive := keep\<rparr>) = header_lines []"
    "length (header_lines []) < PORTICO_RES_HEADERS_CAP"
    by (simp_all add: zero_response_def header_lines_def PORTICO_RES_HEADERS_CAP_def)
  thus ?thesis using add_headers_lines [of _ "[]" hs] by (metis append_Nil)
qed

lemma build_added:
  assumes "-(2 ^ 31) \<le> status" "status < 2 ^ 31" "status \<noteq> 0" "length body \<le> PORTICO_MAX_BODY" "\<forall>n. malloc_ok n"
  shows "\<exists>kept. subseq kept hs \<and> (length (header_lines hs) < PORTICO_RES_HEADERS_CAP \<longrightarrow> kept = hs) \<and>
    fst (portico_http_build_response malloc_ok (portico_res_body malloc_ok
        (add_headers (zero_response\<lparr>rs_status := status, rs_keep_alive := keep\<rparr>) hs) body None)) =
      Some (status_line status @ header_lines (framed kept (length body) keep) @ CRLF @ body)"
proof -
  let ?res0 = "add_headers (zero_response\<lparr>rs_status := status, rs_keep_alive := keep\<rparr>) hs"
  obtain kept where k: "rs_headers ?res0 = header_lines kept"
    "length (header_lines kept) < PORTICO_RES_HEADERS_CAP" "subseq kept hs"
    "length (header_lines hs) < PORTICO_RES_HEADERS_CAP \<longrightarrow> kept = hs"
    using add_headers_kept by blast
  have ok: "malloc_ok n" for n using assms(5) by blast
  define res where "res = portico_res_body malloc_ok ?res0 body None"
  have res: "rs_headers res = header_lines kept" "body_bytes res = body" "rs_status res = status"
      "rs_keep_alive res = keep" "\<not> rs_head_only res"
    unfolding res_def using k(1) ok by (simp_all add: portico_res_body_def body_bytes_def zero_response_def)
  have len: "length body < 2 ^ 64" using assms(4) by (simp add: PORTICO_MAX_BODY_def)
  have "portico_http_build_response malloc_ok res =
      (Some (response_head (rs_status res) (rs_headers res) (dec (length (body_bytes res))) (rs_keep_alive res) @ body_bytes res), res)"
    by (rule build_response_exact [OF assms(5)]) (use res k(2) assms(1-3) len in simp_all)
  hence "fst (portico_http_build_response malloc_ok res) =
      Some (status_line status @ header_lines (framed kept (length body) keep) @ CRLF @ body)"
    by (simp only: res response_head_framed fst_conv append_assoc)
  thus ?thesis using k(3,4) unfolding res_def by blast
qed

section \<open>Claim\<close>


definition demo_response_headers :: "(bytes \<times> bytes) list" where
  "demo_response_headers = [(bytes_of ''Server'', bytes_of ''portico'')]"


text \<open>
  A status that the table of phrases lacks is sent with the phrase of success: the reply 503 of the
  file server reads ``503 OK''.
\<close>

lemma service_unavailable_reads_ok: "portico_http_reason 503 = ''OK''"
  by code_simp

end
