(* ===== verification/Http_Text.thy ===== *)
theory Http_Text
  imports Http_Response_Spec
begin

text \<open>
  The text functions of the HTTP connection code (http/connection.c): client address, content
  types, percent decoding, dates and validators, byte ranges, content negotiation and host
  matching. C strings are byte lists without NUL; what POSIX supplies (address syntax, calendar)
  is a parameter.
\<close>

section \<open>Searching and copying\<close>

definition ci_contains :: "bytes \<Rightarrow> bytes \<Rightarrow> bool" where
  "ci_contains hay needle \<longleftrightarrow>
    \<not> (needle = [] \<or> length hay < length needle) \<and>
    list_ex (\<lambda>i. ci_prefix needle (drop i hay)) [0..<length hay - length needle + 1]"

definition req_header_copy :: "portico_request \<Rightarrow> bytes \<Rightarrow> nat \<Rightarrow> bytes option" where
  "req_header_copy req name cap =
    (case portico_req_header req name of
       None \<Rightarrow> None
     | Some v \<Rightarrow> if v = [] \<or> length v \<ge> cap then None else Some v)"

text \<open>\<open>strchr\<close>: the rest of the string from the first occurrence.\<close>

definition strchr :: "bytes \<Rightarrow> u8 \<Rightarrow> bytes option" where
  "strchr s c = (case dropWhile (\<lambda>x. x \<noteq> c) s of [] \<Rightarrow> None | t \<Rightarrow> Some t)"

text \<open>What follows the last occurrence.\<close>

definition strrchr_after :: "bytes \<Rightarrow> u8 \<Rightarrow> bytes option" where
  "strrchr_after s c = (if c \<in> set s then Some (rev (takeWhile (\<lambda>x. x \<noteq> c) (rev s))) else None)"

section \<open>Client address\<close>

definition INET6_ADDRSTRLEN :: nat where
  "INET6_ADDRSTRLEN = 46"

text \<open>\<open>inet_ok\<close> is whether \<open>inet_pton\<close> accepts the text, as IPv4 or as IPv6.\<close>

definition valid_ip :: "(bytes \<Rightarrow> bool) \<Rightarrow> bytes \<Rightarrow> bool" where
  "valid_ip inet_ok s = (if s = [] \<or> length s \<ge> INET6_ADDRSTRLEN then False else inet_ok s)"

text \<open>The last element of a list separated by commas, without the blanks around it.\<close>

definition last_element :: "bytes \<Rightarrow> bytes" where
  "last_element xff =
    (let s = strip_value xff;
         e = rev (takeWhile (\<lambda>c. c \<noteq> 44) (rev s))
     in dropWhile (\<lambda>c. c = 32 \<or> c = 9) e)"

text \<open>\<open>peer\<close> is the numeric address of the socket's peer.\<close>

definition resolve_client_ip ::
  "(bytes \<Rightarrow> bool) \<Rightarrow> bool \<Rightarrow> bytes \<Rightarrow> portico_request \<Rightarrow> portico_request" where
  "resolve_client_ip inet_ok trust_proxy peer req =
    (let direct = req\<lparr>rq_client_ip := peer\<rparr>;
         forwarded =
           (case portico_req_header req (bytes_of ''X-Forwarded-For'') of
              None \<Rightarrow> direct
            | Some xff \<Rightarrow>
                if xff \<noteq> [] \<and> valid_ip inet_ok (last_element xff)
                then req\<lparr>rq_client_ip := last_element xff\<rparr> else direct)
     in if \<not> trust_proxy then direct
        else
          case portico_req_header req (bytes_of ''X-Real-IP'') of
            None \<Rightarrow> forwarded
          | Some xr \<Rightarrow> if valid_ip inet_ok xr then req\<lparr>rq_client_ip := xr\<rparr> else forwarded)"

section \<open>Content types\<close>

definition content_types :: "(string \<times> string) list" where
  "content_types =
    [(''html'', ''text/html; charset=utf-8''), (''htm'', ''text/html; charset=utf-8''),
     (''css'', ''text/css; charset=utf-8''), (''txt'', ''text/plain; charset=utf-8''),
     (''xml'', ''application/xml''), (''pdf'', ''application/pdf''),
     (''csv'', ''text/csv; charset=utf-8''), (''md'', ''text/markdown; charset=utf-8''),
     (''js'', ''text/javascript; charset=utf-8''), (''mjs'', ''text/javascript; charset=utf-8''),
     (''json'', ''application/json''), (''map'', ''application/json''),
     (''wasm'', ''application/wasm''),
     (''webmanifest'', ''application/manifest+json''), (''manifest'', ''application/manifest+json''),
     (''svg'', ''image/svg+xml''), (''png'', ''image/png''), (''jpg'', ''image/jpeg''),
     (''jpeg'', ''image/jpeg''), (''gif'', ''image/gif''), (''ico'', ''image/x-icon''),
     (''webp'', ''image/webp''), (''avif'', ''image/avif''), (''bmp'', ''image/bmp''),
     (''woff2'', ''font/woff2''), (''woff'', ''font/woff''), (''ttf'', ''font/ttf''),
     (''otf'', ''font/otf''), (''eot'', ''application/vnd.ms-fontobject''),
     (''mp4'', ''video/mp4''), (''webm'', ''video/webm''), (''mov'', ''video/quicktime''),
     (''mp3'', ''audio/mpeg''), (''ogg'', ''audio/ogg''), (''wav'', ''audio/wav''),
     (''m4a'', ''audio/mp4''), (''flac'', ''audio/flac'')]"

definition content_type_for :: "bytes \<Rightarrow> bytes" where
  "content_type_for path =
    (case strrchr_after path 46 of
       None \<Rightarrow> bytes_of ''application/octet-stream''
     | Some ext \<Rightarrow>
         (case find (\<lambda>m. ci_eq ext (bytes_of (fst m))) content_types of
            Some m \<Rightarrow> bytes_of (snd m)
          | None \<Rightarrow> bytes_of ''application/octet-stream''))"

section \<open>Percent decoding\<close>

definition isxdigit :: "u8 \<Rightarrow> bool" where
  "isxdigit c \<longleftrightarrow> (48 \<le> c \<and> c \<le> 57) \<or> (65 \<le> c \<and> c \<le> 70) \<or> (97 \<le> c \<and> c \<le> 102)"

definition hex_val :: "u8 \<Rightarrow> nat" where
  "hex_val c = (if c \<le> 57 then unat c - 48 else if c \<le> 70 then unat c - 55 else unat c - 87)"

text \<open>\<open>room\<close> is how many bytes the output still takes.\<close>

fun url_decode :: "nat \<Rightarrow> bytes \<Rightarrow> bytes" where
  "url_decode 0 s = []"
| "url_decode (Suc room) [] = []"
| "url_decode (Suc room) (c # s) =
    (case s of
       a # b # s' \<Rightarrow>
         if c = 37 \<and> isxdigit a \<and> isxdigit b then word_of_nat (16 * hex_val a + hex_val b) # url_decode room s'
         else c # url_decode room s
     | _ \<Rightarrow> c # url_decode room s)"

definition url_decode_path :: "bytes \<Rightarrow> nat \<Rightarrow> bytes" where
  "url_decode_path s cap = url_decode (cap - 1) s"

section \<open>Dates and validators\<close>

record tm =
  tm_year :: int
  tm_mon :: nat
  tm_mday :: nat
  tm_wday :: nat
  tm_hour :: nat
  tm_min :: nat
  tm_sec :: nat

text \<open>\<open>%02d\<close> and \<open>%04d\<close>.\<close>

definition pad0 :: "nat \<Rightarrow> bytes \<Rightarrow> bytes" where
  "pad0 w s =
    (let zeros = replicate (w - length s) 48 in if s \<noteq> [] \<and> hd s = 45 then 45 # zeros @ tl s else zeros @ s)"

definition http_date :: "(int \<Rightarrow> tm) \<Rightarrow> int \<Rightarrow> nat \<Rightarrow> bytes" where
  "http_date gmtime t cap =
    (let tm = gmtime t;
         D = [''Sun'', ''Mon'', ''Tue'', ''Wed'', ''Thu'', ''Fri'', ''Sat''];
         M = [''Jan'', ''Feb'', ''Mar'', ''Apr'', ''May'', ''Jun'', ''Jul'', ''Aug'', ''Sep'', ''Oct'', ''Nov'', ''Dec'']
     in copy_trunc cap
          (bytes_of (D ! tm_wday tm) @ bytes_of '', '' @ pad0 2 (dec (tm_mday tm)) @ [32] @ bytes_of (M ! tm_mon tm) @ [32] @
           pad0 4 (dec_int (tm_year tm + 1900)) @ [32] @ pad0 2 (dec (tm_hour tm)) @ [58] @ pad0 2 (dec (tm_min tm)) @ [58] @
           pad0 2 (dec (tm_sec tm)) @ bytes_of '' GMT''))"

text \<open>\<open>%llx\<close>.\<close>

definition hex_digit :: "nat \<Rightarrow> u8" where
  "hex_digit n = (if n < 10 then 48 + word_of_nat n else 87 + word_of_nat n)"

fun hex :: "nat \<Rightarrow> bytes" where
  "hex n = (if n < 16 then [hex_digit n] else hex (n div 16) @ [hex_digit (n mod 16)])"

declare hex.simps [simp del]

record stat =
  st_isdir :: bool
  st_isreg :: bool
  st_size :: int
  st_mtime :: int
  st_mtime_nsec :: int

definition file_etag :: "stat \<Rightarrow> nat \<Rightarrow> bytes" where
  "file_etag st cap =
    copy_trunc cap ([34] @ hex (size_of_ll (st_mtime st)) @ [45] @ hex (size_of_ll (st_mtime_nsec st)) @ [45] @
      hex (size_of_ll (st_size st)) @ [34])"

text \<open>One round: skip separators and a weak marker, compare, skip to the next comma.\<close>

definition is_prefix :: "bytes \<Rightarrow> bytes \<Rightarrow> bool" where
  "is_prefix p s \<longleftrightarrow> take (length p) s = p"

definition skip_weak :: "bytes \<Rightarrow> bytes" where
  "skip_weak p = (if is_prefix [87, 47] p then drop 2 p else p)"

lemma etag_round_shorter:
  assumes "p \<noteq> []"
  shows "length (dropWhile (\<lambda>c. c \<noteq> 44) (skip_weak (dropWhile (\<lambda>c. c = 32 \<or> c = 44 \<or> c = 9) p))) < length p"
proof -
  let ?q = "dropWhile (\<lambda>c. c = 32 \<or> c = 44 \<or> c = (9 :: u8)) p"
  have le: "length ?q \<le> length p" by (rule length_dropWhile_le)
  show ?thesis
  proof (cases ?q)
    case Nil
    thus ?thesis using assms by (simp add: skip_weak_def is_prefix_def del: dropWhile_eq_Nil_conv)
  next
    case (Cons c q)
    have "c \<noteq> 44" using hd_dropWhile [of "\<lambda>c. c = 32 \<or> c = 44 \<or> c = (9 :: u8)" p] Cons by auto
    hence "length (dropWhile (\<lambda>c. c \<noteq> 44) (skip_weak (c # q))) \<le> length q"
      using length_dropWhile_le [of "\<lambda>c. c \<noteq> 44" q] length_dropWhile_le [of "\<lambda>c. c \<noteq> 44" "drop 2 (c # q)"]
      by (auto simp: skip_weak_def)
    thus ?thesis using le Cons by simp
  qed
qed

function etag_scan :: "bytes \<Rightarrow> bytes \<Rightarrow> bool" where
  "etag_scan p etag =
    (if p = [] then False
     else
       let q = skip_weak (dropWhile (\<lambda>c. c = 32 \<or> c = 44 \<or> c = 9) p)
       in if q \<noteq> [] \<and> is_prefix etag q then True else etag_scan (dropWhile (\<lambda>c. c \<noteq> 44) q) etag)"
  by pat_completeness auto
termination by (relation "measure (\<lambda>(p, etag). length p)") (auto intro: etag_round_shorter)

declare etag_scan.simps [simp del]

definition etag_matches :: "bytes \<Rightarrow> bytes \<Rightarrow> bool" where
  "etag_matches hdr etag \<longleftrightarrow> strchr hdr 42 \<noteq> None \<or> etag_scan hdr etag"

section \<open>Byte ranges\<close>

definition LLONG_MAX :: int where
  "LLONG_MAX = 9223372036854775807"

text \<open>\<open>strtoll(s, &end, 10)\<close>: the value and the text from \<open>end\<close>.\<close>

definition strtoll :: "bytes \<Rightarrow> int \<times> bytes" where
  "strtoll s =
    (let t = dropWhile isspace s;
         neg = (t \<noteq> [] \<and> hd t = 45);
         u = (if t \<noteq> [] \<and> (hd t = 45 \<or> hd t = 43) then tl t else t);
         ds = takeWhile digit u;
         v = int (dec_val 0 ds)
     in if ds = [] then (0, s)
        else (if neg then max (- LLONG_MAX - 1) (- v) else min LLONG_MAX v, dropWhile digit u))"

datatype range_result = RangeIgnore | RangeUnsatisfiable | RangeOk int int

definition parse_range :: "bytes \<Rightarrow> int \<Rightarrow> range_result" where
  "parse_range v sz =
    (if \<not> is_prefix (bytes_of ''bytes='') v then RangeIgnore
     else
       let v = drop 6 v;
           answer = (\<lambda>s e. if sz = 0 \<or> s \<ge> sz \<or> s > e then RangeUnsatisfiable else RangeOk s (e - s + 1))
       in if strchr v 44 \<noteq> None then RangeIgnore
          else case strchr v 45 of
            None \<Rightarrow> RangeIgnore
          | Some dash \<Rightarrow>
              if length dash = length v then
                let (suf, end) = strtoll (drop 1 v)
                in if length end = length (drop 1 v) \<or> end \<noteq> [] \<or> suf \<le> 0 then RangeIgnore
                   else let suf = (if suf > sz then sz else suf) in answer (sz - suf) (sz - 1)
              else
                let (s, end) = strtoll v
                in if length end \<noteq> length dash \<or> s < 0 then RangeIgnore
                   else if tl dash = [] then answer s (sz - 1)
                   else
                     let (e, end) = strtoll (tl dash)
                     in if end \<noteq> [] \<or> e < 0 then RangeIgnore
                        else answer s (if e \<ge> sz then sz - 1 else e))"

section \<open>Negotiation\<close>

definition isdigit :: "u8 \<Rightarrow> bool" where
  "isdigit c \<longleftrightarrow> 48 \<le> c \<and> c \<le> 57"

definition enc_end :: "u8 \<Rightarrow> bool" where
  "enc_end c \<longleftrightarrow> c = 44 \<or> c = 59 \<or> c = 32"

lemma encoding_round_shorter:
  assumes "p \<noteq> []"
  shows "length (dropWhile (\<lambda>c. c \<noteq> 44) (dropWhile (\<lambda>c. \<not> enc_end c) (dropWhile (\<lambda>c. c = 32 \<or> c = 44) p))) < length p"
proof -
  let ?q = "dropWhile (\<lambda>c. c = 32 \<or> c = (44 :: u8)) p"
  have le: "length ?q \<le> length p" by (rule length_dropWhile_le)
  show ?thesis
  proof (cases ?q)
    case Nil
    thus ?thesis using assms by (simp del: dropWhile_eq_Nil_conv)
  next
    case (Cons c q)
    have "c \<noteq> 44" using hd_dropWhile [of "\<lambda>c. c = 32 \<or> c = (44 :: u8)" p] Cons by auto
    hence "length (dropWhile (\<lambda>c. c \<noteq> 44) (dropWhile (\<lambda>c. \<not> enc_end c) (c # q))) \<le> length q"
      using length_dropWhile_le [of "\<lambda>c. c \<noteq> 44" q] length_dropWhile_le [of "\<lambda>c. \<not> enc_end c" q]
        length_dropWhile_le [of "\<lambda>c. c \<noteq> 44" "dropWhile (\<lambda>c. \<not> enc_end c) q"]
      by auto
    thus ?thesis using le Cons by simp
  qed
qed

function accepts_encoding :: "bytes \<Rightarrow> bytes \<Rightarrow> bool" where
  "accepts_encoding p name =
    (if p = [] then False
     else
       let tok = dropWhile (\<lambda>c. c = 32 \<or> c = 44) p
       in if ci_eq (takeWhile (\<lambda>c. \<not> enc_end c) tok) name then True
          else accepts_encoding (dropWhile (\<lambda>c. c \<noteq> 44) (dropWhile (\<lambda>c. \<not> enc_end c) tok)) name)"
  by pat_completeness auto
termination by (relation "measure (\<lambda>(p, name). length p)") (auto intro: encoding_round_shorter)

declare accepts_encoding.simps [simp del]

definition vhost_match :: "bytes \<Rightarrow> bytes \<Rightarrow> bool" where
  "vhost_match pat host =
    (if is_prefix [42, 46] pat then
       (case strchr host 46 of None \<Rightarrow> False | Some dot \<Rightarrow> ci_eq (drop 2 pat) (tl dot))
     else ci_eq pat host)"

end
