(* ===== verification/Http_Text_Spec.thy ===== *)
theory Http_Text_Spec
  imports Http_Text
begin

text \<open>
  Properties of the text functions of HTTP: ranges stay inside the resource and are read as
  written, percent decoding inverts encoding, and the client address cannot be forged.
\<close>

section \<open>Byte ranges\<close>

lemma digit_run_split:
  assumes "\<forall>c \<in> set ds. digit c" "rest = [] \<or> \<not> digit (hd rest)"
  shows "takeWhile digit (ds @ rest) = ds" "dropWhile digit (ds @ rest) = rest"
  using assms by (cases rest; simp add: takeWhile_append2 dropWhile_append2)+

lemma digit_not_space: "digit c \<Longrightarrow> \<not> isspace c \<and> c \<noteq> 45 \<and> c \<noteq> 43 \<and> c \<noteq> 44"
  by (auto simp: digit_unat isspace_def word_le_nat_alt)

lemma strtoll_dec:
  assumes "int n \<le> LLONG_MAX" "rest = [] \<or> \<not> digit (hd rest)"
  shows "strtoll (dec n @ rest) = (int n, rest)"
proof -
  obtain c cs where d: "dec n = c # cs" by (cases "dec n") auto
  hence c: "digit c" using dec_digits [of n] by simp
  have "dropWhile isspace (dec n @ rest) = dec n @ rest" using d digit_not_space [OF c] by simp
  moreover have "hd (dec n @ rest) \<noteq> 45" "hd (dec n @ rest) \<noteq> 43" using d digit_not_space [OF c] by simp_all
  ultimately show ?thesis
    using digit_run_split [OF dec_digits assms(2), of n] assms(1) by (simp add: strtoll_def Let_def dec_val_dec)
qed

lemma strchr_none: "c \<notin> set s \<Longrightarrow> strchr s c = None"
  by (induction s) (auto simp: strchr_def)

lemma strchr_split: "c \<notin> set s \<Longrightarrow> strchr (s @ c # t) c = Some (c # t)"
  by (induction s) (auto simp: strchr_def)

lemma dec_no_sep: "44 \<notin> set (dec n)" "45 \<notin> set (dec n)"
  using dec_digits [of n] digit_not_space by blast+

lemma parse_range_bounded:
  assumes "parse_range v sz = RangeOk s n" "0 \<le> sz"
  shows "0 \<le> s \<and> 0 < n \<and> s + n \<le> sz"
  using assms by (auto simp: parse_range_def Let_def split: if_splits option.splits prod.splits)

lemma prefix_bytes: "is_prefix (bytes_of ''bytes='') (bytes_of ''bytes='' @ v)" "drop 6 (bytes_of ''bytes='' @ v) = v"
  by (simp_all add: is_prefix_def bytes_of_def)

lemma is_prefix_append [simp]: "is_prefix p (p @ v)"
  by (simp add: is_prefix_def)

lemma parse_range_first_last:
  assumes "int a \<le> LLONG_MAX" "int b \<le> LLONG_MAX" "0 < sz"
  shows "parse_range (bytes_of ''bytes='' @ dec a @ [45] @ dec b) sz =
    (if int a < sz \<and> a \<le> b then RangeOk (int a) (min (int b) (sz - 1) - int a + 1) else RangeUnsatisfiable)"
proof -
  let ?v = "dec a @ [45] @ dec b"
  have 1: "strchr ?v 44 = None" by (rule strchr_none) (simp add: dec_no_sep)
  have 2: "strchr ?v 45 = Some (45 # dec b)" using strchr_split [of 45 "dec a" "dec b"] by (simp add: dec_no_sep)
  have 3: "length (45 # dec b) \<noteq> length ?v" by (cases "dec a") auto
  have nd: "\<not> digit 45" by code_simp
  have 4: "strtoll ?v = (int a, 45 # dec b)" using strtoll_dec [OF assms(1), of "45 # dec b"] nd by simp
  have 5: "strtoll (dec b) = (int b, [])" using strtoll_dec [OF assms(2), of "[]"] by simp
  show ?thesis
    unfolding parse_range_def prefix_bytes Let_def
    using assms(3) 1 2 3 4 5 by (auto simp: min_def)
qed

lemma parse_range_from:
  assumes "int a \<le> LLONG_MAX" "0 < sz"
  shows "parse_range (bytes_of ''bytes='' @ dec a @ [45]) sz =
    (if int a < sz then RangeOk (int a) (sz - int a) else RangeUnsatisfiable)"
proof -
  let ?v = "dec a @ [45]"
  have 1: "strchr ?v 44 = None" by (rule strchr_none) (simp add: dec_no_sep)
  have 2: "strchr ?v 45 = Some [45]" using strchr_split [of 45 "dec a" "[]"] by (simp add: dec_no_sep)
  have 3: "length [45 :: u8] \<noteq> length ?v" by (cases "dec a") auto
  have nd: "\<not> digit 45" by code_simp
  have 4: "strtoll ?v = (int a, [45])" using strtoll_dec [OF assms(1), of "[45]"] nd by simp
  show ?thesis
    unfolding parse_range_def prefix_bytes Let_def
    using assms(2) 1 2 3 4 by auto
qed

lemma parse_range_suffix:
  assumes "int n \<le> LLONG_MAX" "0 < sz" "0 < n"
  shows "parse_range (bytes_of ''bytes='' @ [45] @ dec n) sz =
    RangeOk (sz - min (int n) sz) (min (int n) sz)"
proof -
  let ?v = "[45] @ dec n"
  have 1: "strchr ?v 44 = None" by (rule strchr_none) (simp add: dec_no_sep)
  have 2: "strchr ?v 45 = Some ?v" by (simp add: strchr_def)
  have 5: "strtoll (dec n) = (int n, [])" using strtoll_dec [OF assms(1), of "[]"] by simp
  show ?thesis
    unfolding parse_range_def prefix_bytes Let_def
    using assms(2,3) 1 2 5 by (auto simp: min_def)
qed

section \<open>Percent decoding\<close>

definition pct_encode :: "u8 \<Rightarrow> bytes" where
  "pct_encode c = [37, hex_digit (unat c div 16), hex_digit (unat c mod 16)]"

text \<open>An encoding of a path: each byte literally, unless it is the percent sign, or escaped.\<close>

fun encodes :: "bytes \<Rightarrow> bool list \<Rightarrow> bytes" where
  "encodes [] esc = []"
| "encodes (c # cs) esc = (if c = 37 \<or> (esc \<noteq> [] \<and> hd esc) then pct_encode c else [c]) @ encodes cs (tl esc)"

lemma hex_digit_ok: "n < 16 \<Longrightarrow> isxdigit (hex_digit n) \<and> hex_val (hex_digit n) = n"
proof -
  have "list_all (\<lambda>n. isxdigit (hex_digit n) \<and> hex_val (hex_digit n) = n) [0..<16]" by code_simp
  thus "n < 16 \<Longrightarrow> isxdigit (hex_digit n) \<and> hex_val (hex_digit n) = n" by (simp add: list_all_iff)
qed

lemma url_decode_pct: "url_decode (Suc room) (pct_encode c @ s) = c # url_decode room s"
proof -
  have "unat c div 16 < 16" "unat c mod 16 < 16" using u8_unat_less [of c] by (auto simp: div_less_iff_less_mult)
  thus ?thesis by (simp add: pct_encode_def hex_digit_ok)
qed

lemma url_decode_literal: "c \<noteq> 37 \<Longrightarrow> url_decode (Suc room) (c # s) = c # url_decode room s"
  by (auto split: list.split)

lemma url_decode_encodes: "length p \<le> room \<Longrightarrow> url_decode room (encodes p esc) = p"
proof (induction p arbitrary: room esc)
  case Nil
  thus ?case by (cases room) simp_all
next
  case (Cons c p)
  then obtain r where "room = Suc r" "length p \<le> r" by (cases room) auto
  thus ?case using Cons.IH [of r "tl esc"] by (simp add: url_decode_pct url_decode_literal del: url_decode.simps)
qed

lemma length_url_decode: "length (url_decode room s) \<le> room"
  by (induction room s rule: url_decode.induct) (auto split: list.split)

section \<open>Client address\<close>

lemma last_element_appended:
  assumes "44 \<notin> set addr" "addr \<noteq> []" "hd addr \<noteq> 32 \<and> hd addr \<noteq> 9" "last addr \<noteq> 32 \<and> last addr \<noteq> 9"
  shows "last_element (forged @ [44, 32] @ addr) = addr"
proof -
  obtain c cs where a: "addr = c # cs" using assms(2) by (cases addr) auto
  have "strip_value (forged @ [44, 32] @ addr) = forged @ [44, 32] @ addr"
    using assms(2,4) by (intro strip_value_id) (auto simp: blank_def)
  moreover have "takeWhile (\<lambda>c. c \<noteq> 44) (rev (forged @ [44, 32] @ addr)) = rev addr @ [32]"
    using assms(1) by (subst rev_append, subst rev_append, subst append_assoc, subst takeWhile_append2) auto
  ultimately show ?thesis using assms(3) a by (simp add: last_element_def Let_def)
qed

section \<open>Claims\<close>

text \<open>
  C30. Byte ranges are read as RFC 7233 writes them and never leave the resource: first-last,
  open-ended and suffix forms give exactly the requested bytes, cut at the end of the resource, or
  are unsatisfiable; and on arbitrary header text an accepted range is non-empty and inside.
\<close>

theorem parse_range_correct:
  assumes "0 < sz" "int a \<le> LLONG_MAX" "int b \<le> LLONG_MAX"
  shows "parse_range (bytes_of ''bytes='' @ dec a @ [45] @ dec b) sz =
      (if int a < sz \<and> a \<le> b then RangeOk (int a) (min (int b) (sz - 1) - int a + 1) else RangeUnsatisfiable) \<and>
    parse_range (bytes_of ''bytes='' @ dec a @ [45]) sz =
      (if int a < sz then RangeOk (int a) (sz - int a) else RangeUnsatisfiable) \<and>
    (0 < b \<longrightarrow> parse_range (bytes_of ''bytes='' @ [45] @ dec b) sz = RangeOk (sz - min (int b) sz) (min (int b) sz)) \<and>
    (\<forall>v s n. parse_range v sz = RangeOk s n \<longrightarrow> 0 \<le> s \<and> 0 < n \<and> s + n \<le> sz)"
  using parse_range_first_last [OF assms(2,3,1)] parse_range_from [OF assms(2,1)] parse_range_suffix [OF assms(3,1)]
    parse_range_bounded [of _ sz] assms(1)
  by (intro conjI allI impI) (simp_all del: append.simps)

theorem parse_range_correct_witness:
  "parse_range (bytes_of ''bytes='' @ dec 5 @ [45] @ dec 900) 100 = RangeOk 5 95"
  using parse_range_correct [of 100 5 900] by (simp add: LLONG_MAX_def)





end
