(* ===== verification/Http_Static.thy ===== *)
theory Http_Static
  imports Http_Text_Spec
begin

text \<open>
  Static files (http/connection.c): resolving a URL path under a document root, conditional and
  range requests, precompressed variants, multipart ranges and virtual hosts. The file system is a
  parameter (path resolution, opening, status and contents); the descriptors the code opens and
  closes are state, so that leaks and escapes from the document root can be stated.
\<close>

section \<open>The file system\<close>

datatype open_answer = OpenOk | OpenAccess | OpenFail

text \<open>
  \<open>fs_realpath\<close> is the canonical path, if the path resolves; a descriptor stands for the path it
  was opened at. \<open>fs_pread\<close> gives the bytes read at an offset (fewer at the end of the file), or
  \<open>None\<close> on an error other than an interrupted call. \<open>fs_gmtime\<close> and \<open>fs_strptime\<close> are the calendar
  functions of the C library for the HTTP date format.
\<close>

record fs =
  fs_realpath :: "bytes \<Rightarrow> bytes option"
  fs_open :: "bytes \<Rightarrow> open_answer"
  fs_stat :: "bytes \<Rightarrow> stat option"
  fs_pread :: "bytes \<Rightarrow> int \<Rightarrow> nat \<Rightarrow> bytes option"
  fs_gmtime :: "int \<Rightarrow> tm"
  fs_strptime :: "bytes \<Rightarrow> int option"

text \<open>Open descriptors, the next one to be handed out, and every path opened so far.\<close>

record fds =
  fd_open :: "int \<Rightarrow> bytes option"
  fd_next :: int
  fd_opened :: "bytes list"

definition sys_open :: "fs \<Rightarrow> bytes \<Rightarrow> fds \<Rightarrow> (open_answer \<times> int) \<times> fds" where
  "sys_open fs path d =
    (case fs_open fs path of
       OpenOk \<Rightarrow> ((OpenOk, fd_next d),
         d\<lparr>fd_open := (fd_open d)(fd_next d := Some path), fd_next := fd_next d + 1, fd_opened := fd_opened d @ [path]\<rparr>)
     | a \<Rightarrow> ((a, -1), d))"

definition sys_close :: "int \<Rightarrow> fds \<Rightarrow> fds" where
  "sys_close fd d = d\<lparr>fd_open := (fd_open d)(fd := None)\<rparr>"

definition sys_fstat :: "fs \<Rightarrow> int \<Rightarrow> fds \<Rightarrow> stat option" where
  "sys_fstat fs fd d = (case fd_open d fd of None \<Rightarrow> None | Some path \<Rightarrow> fs_stat fs path)"

definition sys_pread :: "fs \<Rightarrow> int \<Rightarrow> nat \<Rightarrow> int \<Rightarrow> fds \<Rightarrow> bytes option" where
  "sys_pread fs fd n off d = (case fd_open d fd of None \<Rightarrow> None | Some path \<Rightarrow> fs_pread fs path off n)"

definition PATH_MAX :: nat where
  "PATH_MAX = 4096"

definition PORTICO_FILE_MAX :: int where
  "PORTICO_FILE_MAX = 2 * 1024 * 1024 * 1024"

definition PORTICO_MULTIPART_MAX_RANGES :: nat where
  "PORTICO_MULTIPART_MAX_RANGES = 16"

definition PORTICO_MULTIPART_MAX_BYTES :: int where
  "PORTICO_MULTIPART_MAX_BYTES = 1024 * 1024"

definition parse_http_date :: "fs \<Rightarrow> bytes \<Rightarrow> int" where
  "parse_http_date fs s = (case fs_strptime fs s of None \<Rightarrow> -1 | Some t \<Rightarrow> t)"

record portico_static_opts =
  so_docroot :: "bytes option"
  so_url_prefix :: "bytes option"
  so_index :: "bytes option"
  so_precompressed :: bool
  so_cache_control :: "bytes option"
  so_spa_fallback :: "bytes option"
  so_dir_redirect :: bool

section \<open>Multiple ranges\<close>

datatype multi_result = MultiServed | MultiFallback | MultiUnsatisfiable

text \<open>The satisfiable ranges; \<open>None\<close> when there are too many or one is too long to be copied.\<close>

fun collect_parts :: "int \<Rightarrow> bytes list \<Rightarrow> (int \<times> int) list \<Rightarrow> (int \<times> int) list option" where
  "collect_parts fsize [] parts = Some parts"
| "collect_parts fsize (tok # toks) parts =
    (let spec = bytes_of ''bytes='' @ dropWhile (\<lambda>c. c = 32 \<or> c = 9) tok
     in if length spec \<ge> 80 then None
        else case parse_range spec fsize of
               RangeOk s n \<Rightarrow>
                 if length parts \<ge> PORTICO_MULTIPART_MAX_RANGES then None
                 else collect_parts fsize toks (parts @ [(s, n)])
             | _ \<Rightarrow> collect_parts fsize toks parts)"

definition multipart_boundary :: "bytes \<Rightarrow> bytes" where
  "multipart_boundary etag =
    takeWhile (\<lambda>c. c \<noteq> 34)
      (copy_trunc 96 (bytes_of ''PORTICO_BYTERANGE_'' @ (if etag \<noteq> [] \<and> hd etag = 34 then tl etag else etag)))"

definition part_head :: "bytes \<Rightarrow> bytes \<Rightarrow> int \<Rightarrow> int \<times> int \<Rightarrow> bytes" where
  "part_head boundary ctype fsize p =
    bytes_of ''--'' @ boundary @ CRLF @ bytes_of ''Content-Type: '' @ ctype @ CRLF @ bytes_of ''Content-Range: bytes '' @
    dec_int (fst p) @ [45] @ dec_int (fst p + snd p - 1) @ [47] @ dec_int fsize @ CRLF @ CRLF"

text \<open>The parts one after the other; a read that does not deliver a whole part gives up.\<close>

fun assemble_parts :: "fs \<Rightarrow> int \<Rightarrow> fds \<Rightarrow> bytes \<Rightarrow> bytes \<Rightarrow> int \<Rightarrow> (int \<times> int) list \<Rightarrow> bytes option" where
  "assemble_parts fs fd d boundary ctype fsize [] = Some []"
| "assemble_parts fs fd d boundary ctype fsize (p # ps) =
    (case sys_pread fs fd (nat (snd p)) (fst p) d of
       None \<Rightarrow> None
     | Some data \<Rightarrow>
         if int (length data) \<noteq> snd p then None
         else map_option (\<lambda>rest. part_head boundary ctype fsize p @ data @ CRLF @ rest)
           (assemble_parts fs fd d boundary ctype fsize ps))"

text \<open>The bytes set aside for everything but the data, and the closing delimiter.\<close>

definition multipart_overhead :: "nat \<Rightarrow> bytes \<Rightarrow> bytes \<Rightarrow> nat" where
  "multipart_overhead np boundary ctype = np * (length boundary + length ctype + 160) + length boundary + 16"

definition multipart_end :: "bytes \<Rightarrow> bytes" where
  "multipart_end boundary = bytes_of ''--'' @ boundary @ bytes_of ''--'' @ CRLF"

definition serve_byteranges ::
  "(nat \<Rightarrow> bool) \<Rightarrow> fs \<Rightarrow> fds \<Rightarrow> portico_response \<Rightarrow> int \<Rightarrow> bytes \<Rightarrow> int \<Rightarrow> bytes \<Rightarrow> bytes \<Rightarrow> bytes \<Rightarrow>
     multi_result \<times> portico_response" where
  "serve_byteranges malloc_ok fs d res fd rangehdr fsize ctype etag lastmod =
    (if \<not> is_prefix (bytes_of ''bytes='') rangehdr then (MultiFallback, res)
     else if length rangehdr \<ge> 512 then (MultiFallback, res)
     else (case collect_parts fsize (strtok_all (\<lambda>c. c = 44) (drop 6 rangehdr)) [] of
       None \<Rightarrow> (MultiFallback, res)
     | Some parts \<Rightarrow>
         if length parts = 0 then (MultiUnsatisfiable, res)
         else if length parts = 1 then (MultiFallback, res)
         else
           let data_bytes = sum_list (map snd parts);
               boundary = multipart_boundary etag;
               overhead = multipart_overhead (length parts) boundary ctype
           in if data_bytes + int overhead > PORTICO_MULTIPART_MAX_BYTES then (MultiFallback, res)
              else if \<not> malloc_ok (nat data_bytes + overhead) then (MultiFallback, res)
              else (case assemble_parts fs fd d boundary ctype fsize parts of
                None \<Rightarrow> (MultiFallback, res)
              | Some body \<Rightarrow>
                  let body = body @ multipart_end boundary;
                      cthdr = copy_trunc 160 (bytes_of ''multipart/byteranges; boundary='' @ boundary);
                      res = portico_res_header res (bytes_of ''Content-Type'') cthdr;
                      res = portico_res_header res (bytes_of ''Accept-Ranges'') (bytes_of ''bytes'');
                      res = portico_res_header res (bytes_of ''ETag'') etag;
                      res = portico_res_header res (bytes_of ''Last-Modified'') lastmod
                  in (MultiServed, res\<lparr>rs_status := 206, rs_body := Some body, rs_owns_body := True, rs_is_file := False\<rparr>))))"

section \<open>Resolution\<close>

text \<open>The test that keeps a resolved path inside the real document root.\<close>

definition within_root :: "bytes \<Rightarrow> bytes \<Rightarrow> bool" where
  "within_root rootreal resolved \<longleftrightarrow>
    is_prefix rootreal resolved \<and> (length resolved = length rootreal \<or> resolved ! length rootreal = 47)"

text \<open>The path below the mount point, or the error status.\<close>

definition strip_mount :: "bytes option \<Rightarrow> bytes \<Rightarrow> int + bytes" where
  "strip_mount url_prefix path =
    (case url_prefix of
       None \<Rightarrow> Inr path
     | Some pre \<Rightarrow>
         if pre = [] then Inr path
         else if \<not> is_prefix pre path then Inl 404
         else let u = drop (length pre) path
              in if u = [] then Inr [47] else if hd u \<noteq> 47 then Inl 404 else Inr u)"

text \<open>The resolved path and the real document root, or the error status.\<close>

definition resolve_path ::
  "fs \<Rightarrow> portico_static_opts \<Rightarrow> bytes \<Rightarrow> portico_request \<Rightarrow> int + bytes \<times> bytes" where
  "resolve_path fs opts docroot req =
    (case strip_mount (so_url_prefix opts) (rq_path req) of
       Inl status \<Rightarrow> Inl status
     | Inr upath \<Rightarrow>
         let decoded = url_decode_path upath PATH_MAX
         in if decoded = [] \<or> hd decoded \<noteq> 47 \<or> 0 \<in> set decoded then Inl 400
            else if length (docroot @ decoded) \<ge> PATH_MAX then Inl 414
            else (case fs_realpath fs docroot of
              None \<Rightarrow> Inl 500
            | Some rootreal \<Rightarrow>
                let resolved =
                  (case fs_realpath fs (docroot @ decoded) of
                     Some r \<Rightarrow> Some r
                   | None \<Rightarrow>
                       (case so_spa_fallback opts of
                          None \<Rightarrow> None
                        | Some fallback \<Rightarrow>
                            if fallback \<noteq> [] \<and>
                               (portico_req_method_is req (bytes_of ''GET'') \<or> portico_req_method_is req (bytes_of ''HEAD'')) \<and>
                               length (docroot @ [47] @ fallback) < PATH_MAX
                            then fs_realpath fs (docroot @ [47] @ fallback) else None))
                in (case resolved of
                     None \<Rightarrow> Inl 404
                   | Some resolved \<Rightarrow>
                       if within_root rootreal resolved then Inr (resolved, rootreal) else Inl 403)))"

text \<open>What opening the resource gives: a descriptor with its path and status, an error status, or a redirect.\<close>

datatype opened = Opened int bytes stat | OpenError int | Redirect bytes

definition open_index ::
  "fs \<Rightarrow> portico_static_opts \<Rightarrow> bytes \<Rightarrow> bytes \<Rightarrow> fds \<Rightarrow> opened \<times> fds" where
  "open_index fs opts resolved rootreal d =
    (let index = (case so_index opts of None \<Rightarrow> bytes_of ''index.html'' | Some i \<Rightarrow> i)
     in if index = [] then (OpenError 403, d)
        else if length (resolved @ [47] @ index) \<ge> PATH_MAX then (OpenError 414, d)
        else (case fs_realpath fs (resolved @ [47] @ index) of
          None \<Rightarrow> (OpenError 403, d)
        | Some r \<Rightarrow>
            if \<not> within_root rootreal r then (OpenError 403, d)
            else (case sys_open fs r d of
              ((OpenOk, fd), d) \<Rightarrow>
                (case sys_fstat fs fd d of
                   None \<Rightarrow> (OpenError 403, sys_close fd d)
                 | Some st \<Rightarrow> if st_isreg st then (Opened fd r st, d) else (OpenError 403, sys_close fd d))
            | (_, d) \<Rightarrow> (OpenError 403, d))))"

definition open_directory ::
  "fs \<Rightarrow> portico_static_opts \<Rightarrow> portico_request \<Rightarrow> bytes \<Rightarrow> bytes \<Rightarrow> fds \<Rightarrow> opened \<times> fds" where
  "open_directory fs opts req resolved rootreal d =
    (let path = rq_path req
     in if so_dir_redirect opts \<and> (path = [] \<or> last path \<noteq> 47) \<and> length path + 1 < PATH_MAX
        then (Redirect (path @ [47]), d)
        else open_index fs opts resolved rootreal d)"

definition check_file :: "opened \<times> fds \<Rightarrow> opened \<times> fds" where
  "check_file r =
    (case r of
       (Opened fd p st, d) \<Rightarrow>
         if \<not> st_isreg st then (OpenError 404, sys_close fd d)
         else if st_size st > PORTICO_FILE_MAX then (OpenError 413, sys_close fd d)
         else (Opened fd p st, d)
     | _ \<Rightarrow> r)"

definition open_resource ::
  "fs \<Rightarrow> portico_static_opts \<Rightarrow> portico_request \<Rightarrow> bytes \<Rightarrow> bytes \<Rightarrow> fds \<Rightarrow> opened \<times> fds" where
  "open_resource fs opts req resolved rootreal d =
    (case sys_open fs resolved d of
       ((OpenAccess, _), d) \<Rightarrow> (OpenError 403, d)
     | ((OpenFail, _), d) \<Rightarrow> (OpenError 404, d)
     | ((OpenOk, fd), d) \<Rightarrow>
         (case sys_fstat fs fd d of
            None \<Rightarrow> (OpenError 404, sys_close fd d)
          | Some st \<Rightarrow>
              check_file
                (if st_isdir st then open_directory fs opts req resolved rootreal (sys_close fd d)
                 else (Opened fd resolved st, d))))"

section \<open>Precompressed variants\<close>

definition try_precompressed ::
  "fs \<Rightarrow> bytes \<Rightarrow> bytes \<Rightarrow> bytes \<Rightarrow> int \<Rightarrow> stat \<Rightarrow> fds \<Rightarrow> (bool \<times> int \<times> stat) \<times> fds" where
  "try_precompressed fs base ext rootreal fd st d =
    (if length (base @ ext) \<ge> PATH_MAX then ((False, fd, st), d)
     else (case fs_realpath fs (base @ ext) of
       None \<Rightarrow> ((False, fd, st), d)
     | Some vr \<Rightarrow>
         if \<not> within_root rootreal vr then ((False, fd, st), d)
         else (case sys_open fs vr d of
           ((OpenOk, nfd), d) \<Rightarrow>
             (case sys_fstat fs nfd d of
                None \<Rightarrow> ((False, fd, st), sys_close nfd d)
              | Some ns \<Rightarrow>
                  if st_isreg ns then ((True, nfd, ns), sys_close fd d) else ((False, fd, st), sys_close nfd d))
         | (_, d) \<Rightarrow> ((False, fd, st), d))))"

definition negotiate ::
  "fs \<Rightarrow> portico_static_opts \<Rightarrow> portico_request \<Rightarrow> bytes \<Rightarrow> bytes \<Rightarrow> int \<Rightarrow> stat \<Rightarrow> fds \<Rightarrow>
     (bytes option \<times> int \<times> stat) \<times> fds" where
  "negotiate fs opts req resolved rootreal fd st d =
    (if \<not> so_precompressed opts then ((None, fd, st), d)
     else (case req_header_copy req (bytes_of ''Accept-Encoding'') 256 of
       None \<Rightarrow> ((None, fd, st), d)
     | Some h \<Rightarrow>
         let ((br, fd, st), d) =
           (if accepts_encoding h (bytes_of ''br'') then try_precompressed fs resolved (bytes_of ''.br'') rootreal fd st d
            else ((False, fd, st), d))
         in if br then ((Some (bytes_of ''br''), fd, st), d)
            else
              let ((gz, fd, st), d) =
                (if accepts_encoding h (bytes_of ''gzip'') then try_precompressed fs resolved (bytes_of ''.gz'') rootreal fd st d
                 else ((False, fd, st), d))
              in ((if gz then Some (bytes_of ''gzip'') else None, fd, st), d)))"

section \<open>Conditional and range requests\<close>

definition not_modified :: "fs \<Rightarrow> portico_request \<Rightarrow> stat \<Rightarrow> bytes \<Rightarrow> bool" where
  "not_modified fs req st etag =
    (case req_header_copy req (bytes_of ''If-None-Match'') 256 of
       Some h \<Rightarrow> etag_matches h etag
     | None \<Rightarrow>
         (case req_header_copy req (bytes_of ''If-Modified-Since'') 256 of
            Some h \<Rightarrow> let ims = parse_http_date fs h in ims \<noteq> -1 \<and> st_mtime st \<le> ims
          | None \<Rightarrow> False))"

definition strstr :: "bytes \<Rightarrow> bytes \<Rightarrow> bool" where
  "strstr hay needle \<longleftrightarrow> list_ex (\<lambda>i. is_prefix needle (drop i hay)) [0..<Suc (length hay)]"

definition honor_range :: "fs \<Rightarrow> portico_request \<Rightarrow> stat \<Rightarrow> bytes \<Rightarrow> bool" where
  "honor_range fs req st etag =
    (case req_header_copy req (bytes_of ''If-Range'') 256 of
       None \<Rightarrow> True
     | Some ir \<Rightarrow>
         if hd ir = 34 \<or> is_prefix [87, 47] ir then strstr ir etag
         else let d = parse_http_date fs ir in d \<noteq> -1 \<and> st_mtime st \<le> d)"

text \<open>What is served of the resource.\<close>

datatype served =
    ServeFull
  | ServeRange int int
  | ServeMulti portico_response
  | ServeUnsatisfiable

definition select_range ::
  "(nat \<Rightarrow> bool) \<Rightarrow> fs \<Rightarrow> portico_request \<Rightarrow> portico_response \<Rightarrow> bytes \<Rightarrow> int \<Rightarrow> stat \<Rightarrow> bytes \<Rightarrow> bytes \<Rightarrow> fds \<Rightarrow> served" where
  "select_range malloc_ok fs req res resolved fd st etag lastmod d =
    (case req_header_copy req (bytes_of ''Range'') 256 of
       None \<Rightarrow> ServeFull
     | Some h \<Rightarrow>
         if \<not> honor_range fs req st etag then ServeFull
         else if \<not> portico_req_method_is req (bytes_of ''HEAD'') \<and> strchr h 44 \<noteq> None then
           (case serve_byteranges malloc_ok fs d res fd h (st_size st) (content_type_for resolved) etag lastmod of
              (MultiServed, res) \<Rightarrow> ServeMulti res
            | (MultiUnsatisfiable, _) \<Rightarrow> ServeUnsatisfiable
            | (MultiFallback, _) \<Rightarrow> ServeFull)
         else
           (case parse_range h (st_size st) of
              RangeOk s n \<Rightarrow> ServeRange s n
            | RangeUnsatisfiable \<Rightarrow> ServeUnsatisfiable
            | RangeIgnore \<Rightarrow> ServeFull))"

definition opt_header :: "bytes \<Rightarrow> bytes option \<Rightarrow> portico_response \<Rightarrow> portico_response" where
  "opt_header name v res = (case v of None \<Rightarrow> res | Some v \<Rightarrow> portico_res_header res name v)"

section \<open>Serving\<close>

definition unsatisfiable_response :: "portico_response \<Rightarrow> int \<Rightarrow> portico_response" where
  "unsatisfiable_response res fsize =
    (let res = portico_res_header res (bytes_of ''Content-Range'') (copy_trunc 64 (bytes_of ''bytes */'' @ dec_int fsize));
         res = portico_res_header res (bytes_of ''Accept-Ranges'') (bytes_of ''bytes'')
     in res\<lparr>rs_status := 416, rs_is_file := False\<rparr>)"

definition file_response ::
  "portico_static_opts \<Rightarrow> portico_request \<Rightarrow> portico_response \<Rightarrow> bytes \<Rightarrow> bytes \<Rightarrow> bytes \<Rightarrow> bytes option \<Rightarrow>
     (int \<times> int) option \<Rightarrow> int \<Rightarrow> int \<Rightarrow> fds \<Rightarrow> portico_response \<times> fds" where
  "file_response opts req res ctype etag lastmod enc part fsize fd d =
    (let res = portico_res_header res (bytes_of ''Content-Type'') ctype;
         res = portico_res_header res (bytes_of ''Accept-Ranges'') (bytes_of ''bytes'');
         res = portico_res_header res (bytes_of ''ETag'') etag;
         res = portico_res_header res (bytes_of ''Last-Modified'') lastmod;
         res = opt_header (bytes_of ''Content-Encoding'') enc res;
         res = (if so_precompressed opts then portico_res_header res (bytes_of ''Vary'') (bytes_of ''Accept-Encoding'') else res);
         res = opt_header (bytes_of ''Cache-Control'') (so_cache_control opts) res;
         (start, len) = (case part of None \<Rightarrow> (0, fsize) | Some r \<Rightarrow> r);
         res = (if part \<noteq> None
                then (portico_res_header res (bytes_of ''Content-Range'')
                       (copy_trunc 80 (bytes_of ''bytes '' @ dec_int start @ [45] @ dec_int (start + len - 1) @ [47] @ dec_int fsize)))
                     \<lparr>rs_status := 206\<rparr>
                else res\<lparr>rs_status := 200\<rparr>)
     in if portico_req_method_is req (bytes_of ''HEAD'')
        then (res\<lparr>rs_head_only := True, rs_file_size := len, rs_is_file := False\<rparr>, sys_close fd d)
        else (res\<lparr>rs_is_file := True, rs_file_fd := fd, rs_file_offset := start, rs_file_size := len\<rparr>, d))"

definition serve_resource ::
  "(nat \<Rightarrow> bool) \<Rightarrow> fs \<Rightarrow> portico_static_opts \<Rightarrow> portico_request \<Rightarrow> portico_response \<Rightarrow> bytes \<Rightarrow> bytes \<Rightarrow> int \<Rightarrow> stat \<Rightarrow> fds \<Rightarrow>
     int \<times> portico_response \<times> fds" where
  "serve_resource malloc_ok fs opts req res resolved rootreal fd st d =
    (let ctype = content_type_for resolved;
         ((enc, fd, st), d) = negotiate fs opts req resolved rootreal fd st d;
         etag = file_etag st 64;
         lastmod = http_date (fs_gmtime fs) (st_mtime st) 40;
         fsize = st_size st
     in if not_modified fs req st etag then
          let res = portico_res_header res (bytes_of ''ETag'') etag;
              res = portico_res_header res (bytes_of ''Last-Modified'') lastmod;
              res = opt_header (bytes_of ''Cache-Control'') (so_cache_control opts) res
          in (0, res\<lparr>rs_status := 304, rs_is_file := False\<rparr>, sys_close fd d)
        else
          case select_range malloc_ok fs req res resolved fd st etag lastmod d of
            ServeMulti res \<Rightarrow> (0, res, sys_close fd d)
          | ServeUnsatisfiable \<Rightarrow> (-1, unsatisfiable_response res fsize, sys_close fd d)
          | ServeRange s n \<Rightarrow> (case file_response opts req res ctype etag lastmod enc (Some (s, n)) fsize fd d of (res, d) \<Rightarrow> (0, res, d))
          | ServeFull \<Rightarrow> (case file_response opts req res ctype etag lastmod enc None fsize fd d of (res, d) \<Rightarrow> (0, res, d)))"

definition portico_res_static ::
  "(nat \<Rightarrow> bool) \<Rightarrow> fs \<Rightarrow> portico_static_opts \<Rightarrow> portico_request \<Rightarrow> portico_response \<Rightarrow> fds \<Rightarrow> int \<times> portico_response \<times> fds" where
  "portico_res_static malloc_ok fs opts req res d =
    (case so_docroot opts of
       None \<Rightarrow> (-1, res\<lparr>rs_status := 500\<rparr>, d)
     | Some docroot \<Rightarrow>
         (case resolve_path fs opts docroot req of
            Inl status \<Rightarrow> (-1, res\<lparr>rs_status := status\<rparr>, d)
          | Inr (resolved, rootreal) \<Rightarrow>
              (case open_resource fs opts req resolved rootreal d of
                 (OpenError status, d) \<Rightarrow> (-1, res\<lparr>rs_status := status\<rparr>, d)
               | (Redirect loc, d) \<Rightarrow>
                   (0, (portico_res_header res (bytes_of ''Location'') loc)\<lparr>rs_status := 301, rs_is_file := False\<rparr>, d)
               | (Opened fd r st, d) \<Rightarrow> serve_resource malloc_ok fs opts req res r rootreal fd st d)))"

definition portico_res_file ::
  "(nat \<Rightarrow> bool) \<Rightarrow> fs \<Rightarrow> bytes option \<Rightarrow> portico_request \<Rightarrow> portico_response \<Rightarrow> fds \<Rightarrow> int \<times> portico_response \<times> fds" where
  "portico_res_file malloc_ok fs docroot req res d =
    portico_res_static malloc_ok fs \<lparr>so_docroot = docroot, so_url_prefix = None, so_index = None, so_precompressed = False,
      so_cache_control = None, so_spa_fallback = None, so_dir_redirect = False\<rparr> req res d"

section \<open>Virtual hosts\<close>

definition request_host :: "portico_request \<Rightarrow> bytes" where
  "request_host req =
    (case portico_req_header req (bytes_of ''Host'') of
       None \<Rightarrow> []
     | Some hv \<Rightarrow>
         if hv = [] \<or> length hv \<ge> 256 then []
         else (case strrchr_after hv 58 of
                None \<Rightarrow> hv
              | Some port \<Rightarrow>
                  if port \<noteq> [] \<and> list_all isdigit port then take (length hv - length port - 1) hv else hv))"

type_synonym portico_vhost = "bytes option \<times> portico_static_opts"

fun select_vhost :: "bytes \<Rightarrow> portico_vhost list \<Rightarrow> portico_vhost option \<Rightarrow> portico_vhost option" where
  "select_vhost host [] def = def"
| "select_vhost host (v # vs) def =
    (case fst v of
       None \<Rightarrow> select_vhost host vs (if def = None then Some v else def)
     | Some pat \<Rightarrow> if host \<noteq> [] \<and> vhost_match pat host then Some v else select_vhost host vs def)"

definition portico_res_vhost ::
  "(nat \<Rightarrow> bool) \<Rightarrow> fs \<Rightarrow> portico_vhost list \<Rightarrow> portico_request \<Rightarrow> portico_response \<Rightarrow> fds \<Rightarrow> int \<times> portico_response \<times> fds" where
  "portico_res_vhost malloc_ok fs vhosts req res d =
    (case select_vhost (request_host req) vhosts None of
       None \<Rightarrow> (-1, res\<lparr>rs_status := 404\<rparr>, d)
     | Some v \<Rightarrow> portico_res_static malloc_ok fs (snd v) req res d)"

end
