(* ===== verification/Http_Static_Spec.thy ===== *)
theory Http_Static_Spec
  imports Http_Static
begin

text \<open>
  Safety of static file serving: nothing outside the document root is ever opened, no descriptor
  leaks, a file that is served is a regular file inside the root and the bytes promised of it exist.
\<close>

section \<open>Descriptors\<close>

definition inside :: "bytes \<Rightarrow> bytes \<Rightarrow> bool" where
  "inside root p \<longleftrightarrow> p = root \<or> (\<exists>q. p = root @ 47 # q)"

definition fds_ok :: "fds \<Rightarrow> bool" where
  "fds_ok d \<longleftrightarrow> (\<forall>fd. fd_next d \<le> fd \<longrightarrow> fd_open d fd = None)"

text \<open>From \<open>d0\<close> to \<open>d\<close> only paths inside the root were opened.\<close>

definition opened_inside :: "bytes \<Rightarrow> fds \<Rightarrow> fds \<Rightarrow> bool" where
  "opened_inside root d0 d \<longleftrightarrow> (\<exists>ps. fd_opened d = fd_opened d0 @ ps \<and> (\<forall>p \<in> set ps. inside root p))"

definition released :: "bytes \<Rightarrow> fds \<Rightarrow> fds \<Rightarrow> bool" where
  "released root d0 d \<longleftrightarrow> fd_open d = fd_open d0 \<and> fd_next d0 \<le> fd_next d \<and> opened_inside root d0 d"

definition holding :: "bytes \<Rightarrow> fds \<Rightarrow> int \<Rightarrow> bytes \<Rightarrow> fds \<Rightarrow> bool" where
  "holding root d0 fd p d \<longleftrightarrow>
    fd_open d = (fd_open d0)(fd := Some p) \<and> fd_next d0 \<le> fd \<and> fd < fd_next d \<and> inside root p \<and> opened_inside root d0 d"

lemma within_inside: "within_root root p \<Longrightarrow> inside root p"
proof -
  assume w: "within_root root p"
  have p: "p = root @ drop (length root) p"
    using w by (metis within_root_def is_prefix_def append_take_drop_id)
  show ?thesis
  proof (cases "drop (length root) p")
    case Nil
    thus ?thesis using p by (simp add: inside_def)
  next
    case (Cons c q)
    hence c: "p = root @ c # q" using p by simp
    hence "length p \<noteq> length root" "p ! length root = c" by simp_all
    hence "c = 47" using w by (simp add: within_root_def)
    thus ?thesis using c by (auto simp: inside_def)
  qed
qed

lemma released_refl [simp]: "released root d d"
  by (simp add: released_def opened_inside_def)

lemma opened_inside_snoc:
  "opened_inside root d0 d \<Longrightarrow> inside root p \<Longrightarrow> fd_opened d' = fd_opened d @ [p] \<Longrightarrow> opened_inside root d0 d'"
  unfolding opened_inside_def by auto

lemma released_open:
  assumes "released root d0 d" "fds_ok d0" "inside root p" "sys_open fs p d = ((OpenOk, fd), d')"
  shows "holding root d0 fd p d'"
proof -
  have "opened_inside root d0 d'"
    using assms by (intro opened_inside_snoc [of root d0 d p d'])
      (auto simp: released_def sys_open_def split: open_answer.splits)
  thus ?thesis using assms by (auto simp: released_def holding_def sys_open_def split: open_answer.splits)
qed

lemma open_failed: "sys_open fs p d = ((a, fd), d') \<Longrightarrow> a \<noteq> OpenOk \<Longrightarrow> d' = d"
  by (auto simp: sys_open_def split: open_answer.splits)

lemma holding_close: "holding root d0 fd p d \<Longrightarrow> fds_ok d0 \<Longrightarrow> released root d0 (sys_close fd d)"
  by (auto simp: holding_def released_def fds_ok_def sys_close_def opened_inside_def)

lemma holding_fstat: "holding root d0 fd p d \<Longrightarrow> sys_fstat fs fd d = fs_stat fs p"
  by (simp add: holding_def sys_fstat_def)

lemma released_ok: "released root d0 d \<Longrightarrow> fds_ok d0 \<Longrightarrow> fds_ok d"
  by (auto simp: released_def fds_ok_def)

lemma holding_ok: "holding root d0 fd p d \<Longrightarrow> fds_ok d0 \<Longrightarrow> fds_ok d"
  by (auto simp: holding_def fds_ok_def)

lemma opened_inside_trans: "opened_inside root d0 d \<Longrightarrow> opened_inside root d d' \<Longrightarrow> opened_inside root d0 d'"
  unfolding opened_inside_def by auto

lemma holding_released: "holding root d0 fd p d \<Longrightarrow> released root d d' \<Longrightarrow> holding root d0 fd p d'"
  by (auto simp: holding_def released_def intro: opened_inside_trans)

lemma holding_swap:
  assumes "holding root d0 fd p d" "holding root d nfd q d'" "fds_ok d0"
  shows "holding root d0 nfd q (sys_close fd d')"
proof -
  have "fd \<noteq> nfd" "fd_open d0 fd = None" using assms by (auto simp: holding_def fds_ok_def)
  hence "fd_open (sys_close fd d') = (fd_open d0)(nfd := Some q)"
    using assms(1,2) by (auto simp: holding_def sys_close_def fun_eq_iff)
  thus ?thesis using assms opened_inside_trans [of root d0 d d']
    by (auto simp: holding_def sys_close_def opened_inside_def)
qed

lemma open_cases:
  assumes "sys_open fs p d = ((a, fd), d')" "released root d0 d" "fds_ok d0" "inside root p"
  shows "a = OpenOk \<and> holding root d0 fd p d' \<and> sys_fstat fs fd d' = fs_stat fs p \<and> released root d0 (sys_close fd d') \<or>
    a \<noteq> OpenOk \<and> d' = d"
proof (cases "a = OpenOk")
  case True
  hence h: "holding root d0 fd p d'" using released_open assms by blast
  thus ?thesis using True holding_close [OF h assms(3)] holding_fstat [OF h] by blast
next
  case False
  thus ?thesis using open_failed assms(1) by blast
qed

section \<open>Stages\<close>

text \<open>A result of the opening stages is as it should be.\<close>

definition opened_ok :: "fs \<Rightarrow> bytes \<Rightarrow> fds \<Rightarrow> opened \<times> fds \<Rightarrow> bool" where
  "opened_ok fs root d0 r \<longleftrightarrow>
    (case r of
       (Opened fd p st, d) \<Rightarrow> holding root d0 fd p d \<and> fs_stat fs p = Some st \<and> st_isreg st
     | (_, d) \<Rightarrow> released root d0 d)"

lemma open_index_ok:
  assumes "released root d0 d" "fds_ok d0"
  shows "opened_ok fs root d0 (open_index fs opts resolved root d)"
proof -
  let ?index = "case so_index opts of None \<Rightarrow> bytes_of ''index.html'' | Some i \<Rightarrow> i"
  show ?thesis
  proof (cases "?index = [] \<or> length (resolved @ [47] @ ?index) \<ge> PATH_MAX \<or>
      (\<forall>r. fs_realpath fs (resolved @ [47] @ ?index) = Some r \<longrightarrow> \<not> within_root root r)")
    case True
    thus ?thesis using assms(1) by (auto simp: open_index_def opened_ok_def Let_def split: option.split)
  next
    case False
    then obtain r where r: "fs_realpath fs (resolved @ [47] @ ?index) = Some r" "within_root root r" by auto
    obtain a fd d' where o: "sys_open fs r d = ((a, fd), d')" by (metis surj_pair)
    have eq: "open_index fs opts resolved root d =
      (case sys_open fs r d of
         ((OpenOk, fd), d) \<Rightarrow>
           (case sys_fstat fs fd d of
              None \<Rightarrow> (OpenError 403, sys_close fd d)
            | Some st \<Rightarrow> if st_isreg st then (Opened fd r st, d) else (OpenError 403, sys_close fd d))
       | (_, d) \<Rightarrow> (OpenError 403, d))"
      using False r by (simp add: open_index_def Let_def)
    consider (ok) "a = OpenOk" "holding root d0 fd r d'" "sys_fstat fs fd d' = fs_stat fs r" "released root d0 (sys_close fd d')"
      | (failed) "a \<noteq> OpenOk" "d' = d"
      using open_cases [OF o assms within_inside [OF r(2)]] by blast
    thus ?thesis
    proof cases
      case ok
      thus ?thesis unfolding eq o by (auto simp: opened_ok_def split: option.split)
    next
      case failed
      thus ?thesis unfolding eq o using assms(1) by (cases a) (auto simp: opened_ok_def)
    qed
  qed
qed

lemma check_file_ok: "opened_ok fs root d0 r \<Longrightarrow> fds_ok d0 \<Longrightarrow> opened_ok fs root d0 (check_file r)"
  by (auto simp: opened_ok_def check_file_def split: opened.splits prod.splits intro: holding_close)

lemma open_resource_ok:
  assumes "inside root resolved" "fds_ok d"
  shows "opened_ok fs root d (open_resource fs opts req resolved root d)"
proof -
  obtain a fd d' where o: "sys_open fs resolved d = ((a, fd), d')" by (metis surj_pair)
  consider (ok) "a = OpenOk" "holding root d fd resolved d'" "sys_fstat fs fd d' = fs_stat fs resolved"
      "released root d (sys_close fd d')"
    | (failed) "a \<noteq> OpenOk" "d' = d"
    using open_cases [OF o released_refl assms(2,1)] by blast
  thus ?thesis
  proof cases
    case failed
    thus ?thesis by (cases a) (auto simp: open_resource_def o opened_ok_def)
  next
    case ok
    show ?thesis
    proof (cases "fs_stat fs resolved")
      case None
      thus ?thesis using ok by (simp add: open_resource_def o opened_ok_def)
    next
      case (Some st)
      have dir: "opened_ok fs root d (open_directory fs opts req resolved root (sys_close fd d'))"
        using open_index_ok [OF ok(4) assms(2), of fs opts resolved] ok(4)
        by (auto simp: open_directory_def Let_def opened_ok_def)
      show ?thesis
      proof (cases "st_isdir st")
        case True
        thus ?thesis using ok Some check_file_ok [OF dir assms(2)] by (simp add: open_resource_def o)
      next
        case False
        thus ?thesis using ok Some holding_close [OF ok(2) assms(2)]
          by (simp add: open_resource_def o check_file_def opened_ok_def)
      qed
    qed
  qed
qed

lemma try_precompressed_ok:
  assumes "try_precompressed fs base ext root fd st d = ((b, fd', st'), d')"
    and "holding root d0 fd p d" "fds_ok d0" "fs_stat fs p = Some st" "st_isreg st"
  shows "\<exists>p'. holding root d0 fd' p' d' \<and> fs_stat fs p' = Some st' \<and> st_isreg st'"
proof (cases "length (base @ ext) \<ge> PATH_MAX \<or> (\<forall>r. fs_realpath fs (base @ ext) = Some r \<longrightarrow> \<not> within_root root r)")
  case True
  hence "fd' = fd" "st' = st" "d' = d" using assms(1) by (auto simp: try_precompressed_def split: if_splits option.splits)
  thus ?thesis using assms by blast
next
  case False
  then obtain r where r: "fs_realpath fs (base @ ext) = Some r" "within_root root r" by auto
  obtain a nfd d1 where o: "sys_open fs r d = ((a, nfd), d1)" by (metis surj_pair)
  have ok_d: "fds_ok d" using holding_ok assms(2,3) .
  consider (ok) "a = OpenOk" "holding root d nfd r d1" "sys_fstat fs nfd d1 = fs_stat fs r" "released root d (sys_close nfd d1)"
    | (failed) "a \<noteq> OpenOk" "d1 = d"
    using open_cases [OF o released_refl ok_d within_inside [OF r(2)]] by blast
  thus ?thesis
  proof cases
    case failed
    hence "fd' = fd" "st' = st" "d' = d"
      using assms(1) False r o by (cases a; simp add: try_precompressed_def)+
    thus ?thesis using assms by blast
  next
    case ok
    show ?thesis
    proof (cases "\<exists>ns. fs_stat fs r = Some ns \<and> st_isreg ns")
      case True
      then obtain ns where "fs_stat fs r = Some ns" "st_isreg ns" by blast
      moreover from this have "fd' = nfd" "st' = ns" "d' = sys_close fd d1"
        using assms(1) False r o ok by (simp_all add: try_precompressed_def)
      ultimately show ?thesis using holding_swap [OF assms(2) ok(2) assms(3)] by blast
    next
      case no: False
      hence "fd' = fd" "st' = st" "d' = sys_close nfd d1"
        using assms(1) False r o ok by (auto simp: try_precompressed_def split: option.splits)
      thus ?thesis using holding_released [OF assms(2) ok(4)] assms(4,5) by blast
    qed
  qed
qed

lemma negotiate_ok:
  assumes "negotiate fs opts req resolved root fd st d = ((enc, fd', st'), d')"
    and "holding root d0 fd p d" "fds_ok d0" "fs_stat fs p = Some st" "st_isreg st"
  shows "\<exists>p'. holding root d0 fd' p' d' \<and> fs_stat fs p' = Some st' \<and> st_isreg st'"
proof (cases "if so_precompressed opts then req_header_copy req (bytes_of ''Accept-Encoding'') 256 else None")
  case None
  hence "fd' = fd" "st' = st" "d' = d" using assms(1) by (auto simp: negotiate_def split: if_splits)
  thus ?thesis using assms by blast
next
  case (Some h)
  hence h: "so_precompressed opts" "req_header_copy req (bytes_of ''Accept-Encoding'') 256 = Some h" by (auto split: if_splits)
  obtain br fd1 st1 d1 where 1: "(if accepts_encoding h (bytes_of ''br'') then try_precompressed fs resolved (bytes_of ''.br'') root fd st d
      else ((False, fd, st), d)) = ((br, fd1, st1), d1)" by (metis surj_pair)
  obtain p1 where p1: "holding root d0 fd1 p1 d1" "fs_stat fs p1 = Some st1" "st_isreg st1"
    using 1 assms try_precompressed_ok by (fastforce split: if_splits)
  obtain gz fd2 st2 d2 where 2: "(if accepts_encoding h (bytes_of ''gzip'') then try_precompressed fs resolved (bytes_of ''.gz'') root fd1 st1 d1
      else ((False, fd1, st1), d1)) = ((gz, fd2, st2), d2)" by (metis surj_pair)
  obtain p2 where p2: "holding root d0 fd2 p2 d2" "fs_stat fs p2 = Some st2" "st_isreg st2"
    using 2 p1 assms(3) try_precompressed_ok by (fastforce split: if_splits)
  show ?thesis
  proof (cases br)
    case True
    hence "fd' = fd1" "st' = st1" "d' = d1" using assms(1) h 1 by (simp_all add: negotiate_def)
    thus ?thesis using p1 by blast
  next
    case False
    hence "fd' = fd2" "st' = st2" "d' = d2" using assms(1) h 1 2 by (simp_all add: negotiate_def)
    thus ?thesis using p2 by blast
  qed
qed

section \<open>The response\<close>

text \<open>
  What holds after serving: either no file is to be sent and every descriptor opened on the way is
  closed, or exactly one is left open, for a regular file inside the root that has the bytes.
\<close>

definition serve_safe :: "fs \<Rightarrow> bytes \<Rightarrow> fds \<Rightarrow> portico_response \<Rightarrow> fds \<Rightarrow> bool" where
  "serve_safe fs root d0 res d \<longleftrightarrow>
    (if rs_is_file res then
       \<exists>p st. holding root d0 (rs_file_fd res) p d \<and> fs_stat fs p = Some st \<and> st_isreg st \<and>
         0 \<le> rs_file_offset res \<and> 0 \<le> rs_file_size res \<and> rs_file_offset res + rs_file_size res \<le> st_size st
     else released root d0 d)"

lemma res_header_is_file [simp]: "rs_is_file (portico_res_header res n v) = rs_is_file res"
  by (simp add: portico_res_header_def Let_def)

lemma file_response_safe:
  assumes "file_response opts req res ctype etag lastmod enc part fsize fd d = (res', d')"
    and "holding root d0 fd p d" "fds_ok d0" "fs_stat fs p = Some st" "st_isreg st" "fsize = st_size st" "0 \<le> st_size st"
    and "case part of None \<Rightarrow> True | Some (s, n) \<Rightarrow> 0 \<le> s \<and> 0 < n \<and> s + n \<le> fsize"
  shows "serve_safe fs root d0 res' d'"
proof (cases "portico_req_method_is req (bytes_of ''HEAD'')")
  case True
  hence "\<not> rs_is_file res'" "d' = sys_close fd d"
    using assms(1) by (auto simp: file_response_def Let_def split: prod.splits)
  thus ?thesis using holding_close [OF assms(2,3)] by (simp add: serve_safe_def)
next
  case False
  obtain s n where sn: "(case part of None \<Rightarrow> (0, fsize) | Some r \<Rightarrow> r) = (s, n)" by force
  have "rs_is_file res'" "rs_file_fd res' = fd" "rs_file_offset res' = s" "rs_file_size res' = n" "d' = d"
    using assms(1) False sn by (auto simp: file_response_def Let_def)
  moreover have "0 \<le> s" "0 \<le> n" "s + n \<le> st_size st" using sn assms(6,7,8) by (auto split: option.splits)
  ultimately show ?thesis using assms(2,4,5) by (auto simp: serve_safe_def)
qed

lemma select_range_inside:
  assumes "select_range malloc_ok fs req res resolved fd st etag lastmod d = ServeRange s n" "0 \<le> st_size st"
  shows "0 \<le> s \<and> 0 < n \<and> s + n \<le> st_size st"
proof -
  obtain h where "parse_range h (st_size st) = RangeOk s n"
    using assms(1) by (auto simp: select_range_def split: option.splits if_splits prod.splits multi_result.splits range_result.splits)
  thus ?thesis using assms(2) by (rule parse_range_bounded)
qed

lemma select_range_multi:
  assumes "select_range malloc_ok fs req res resolved fd st etag lastmod d = ServeMulti res'"
  shows "\<not> rs_is_file res'"
proof -
  obtain h where "serve_byteranges malloc_ok fs d res fd h (st_size st) (content_type_for resolved) etag lastmod = (MultiServed, res')"
    using assms by (auto simp: select_range_def split: option.splits if_splits prod.splits multi_result.splits range_result.splits)
  thus ?thesis by (auto simp: serve_byteranges_def Let_def split: if_splits option.splits)
qed

lemma serve_resource_safe:
  assumes "serve_resource malloc_ok fs opts req res resolved root fd st d = (r, res', d')"
    and "holding root d0 fd p d" "fds_ok d0" "fs_stat fs p = Some st" "st_isreg st" "\<not> rs_is_file res"
    and "\<forall>q st. fs_stat fs q = Some st \<longrightarrow> 0 \<le> st_size st"
  shows "serve_safe fs root d0 res' d'"
proof -
  obtain enc fd1 st1 d1 where n: "negotiate fs opts req resolved root fd st d = ((enc, fd1, st1), d1)" by (metis surj_pair)
  obtain p1 where p1: "holding root d0 fd1 p1 d1" "fs_stat fs p1 = Some st1" "st_isreg st1"
    using negotiate_ok [OF n assms(2-5)] by blast
  have sz: "0 \<le> st_size st1" using assms(7) p1(2) by blast
  note closed = holding_close [OF p1(1) assms(3)]
  define etag where "etag = file_etag st1 64"
  define lastmod where "lastmod = http_date (fs_gmtime fs) (st_mtime st1) 40"
  note serve = assms(1) [unfolded serve_resource_def Let_def n prod.case, folded etag_def lastmod_def]
  show ?thesis
  proof (cases "not_modified fs req st1 etag")
    case True
    hence "\<not> rs_is_file res'" "d' = sys_close fd1 d1" using serve by auto
    thus ?thesis using closed by (simp add: serve_safe_def)
  next
    case False
    show ?thesis
    proof (cases "select_range malloc_ok fs req res resolved fd1 st1 etag lastmod d1")
      case (ServeMulti m)
      thus ?thesis using serve False closed select_range_multi [OF ServeMulti] by (auto simp: serve_safe_def)
    next
      case ServeUnsatisfiable
      hence "\<not> rs_is_file res'" "d' = sys_close fd1 d1" using serve False by (auto simp: unsatisfiable_response_def Let_def)
      thus ?thesis using closed by (simp add: serve_safe_def)
    next
      case (ServeRange s m)
      hence "file_response opts req res (content_type_for resolved) etag lastmod enc (Some (s, m)) (st_size st1) fd1 d1 = (res', d')"
        using serve False by (auto split: prod.splits)
      thus ?thesis using p1(1) assms(3) p1(2,3) refl sz
        by (rule file_response_safe) (use select_range_inside [OF ServeRange sz] in simp)
    next
      case ServeFull
      hence "file_response opts req res (content_type_for resolved) etag lastmod enc None (st_size st1) fd1 d1 = (res', d')"
        using serve False by (auto split: prod.splits)
      thus ?thesis using p1(1) assms(3) p1(2,3) refl sz by (rule file_response_safe) simp
    qed
  qed
qed

lemma resolve_path_inside:
  "resolve_path fs opts docroot req = Inr (resolved, root) \<Longrightarrow> fs_realpath fs docroot = Some root \<and> inside root resolved"
  by (auto simp: resolve_path_def Let_def split: sum.splits if_splits option.splits intro: within_inside)

lemma res_static_safe:
  assumes "portico_res_static malloc_ok fs opts req res d = (r, res', d')" "so_docroot opts = Some docroot"
    and "fs_realpath fs docroot = Some root" "fds_ok d" "\<not> rs_is_file res"
    and "\<forall>q st. fs_stat fs q = Some st \<longrightarrow> 0 \<le> st_size st"
  shows "serve_safe fs root d res' d'"
proof (cases "resolve_path fs opts docroot req")
  case (Inl status)
  thus ?thesis using assms by (auto simp: portico_res_static_def serve_safe_def)
next
  case (Inr rr)
  then obtain resolved where rr: "resolve_path fs opts docroot req = Inr (resolved, root)" "inside root resolved"
    using resolve_path_inside assms(3) by (metis option.inject surj_pair)
  obtain o1 d1 where o: "open_resource fs opts req resolved root d = (o1, d1)" by force
  have ok: "opened_ok fs root d (o1, d1)" using open_resource_ok [OF rr(2) assms(4), of fs opts req] o by simp
  show ?thesis
  proof (cases o1)
    case (Opened fd p st)
    hence "serve_resource malloc_ok fs opts req res p root fd st d1 = (r, res', d')"
      using assms(1,2) rr(1) o by (simp add: portico_res_static_def)
    thus ?thesis by (rule serve_resource_safe) (use ok Opened assms in \<open>auto simp: opened_ok_def\<close>)
  next
    case (OpenError status)
    thus ?thesis using assms ok rr(1) o by (auto simp: portico_res_static_def serve_safe_def opened_ok_def)
  next
    case (Redirect loc)
    thus ?thesis using assms ok rr(1) o by (auto simp: portico_res_static_def serve_safe_def opened_ok_def)
  qed
qed

section \<open>Claim\<close>


text \<open>A small file system: the root /w with the file /w/a of three bytes.\<close>

definition demo_fs :: fs where
  "demo_fs = \<lparr>
     fs_realpath = (\<lambda>p. if p = bytes_of ''/w'' then Some (bytes_of ''/w'') else if p = bytes_of ''/w/a'' then Some (bytes_of ''/w/a'')
       else if p = bytes_of ''/w/../etc'' then Some (bytes_of ''/etc'') else None),
     fs_open = (\<lambda>p. OpenOk),
     fs_stat = (\<lambda>p. if p = bytes_of ''/w/a'' then Some \<lparr>st_isdir = False, st_isreg = True, st_size = 3, st_mtime = 0, st_mtime_nsec = 0\<rparr> else None),
     fs_pread = (\<lambda>p off n. Some (take n (drop (nat off) [1, 2, 3]))),
     fs_gmtime = (\<lambda>t. \<lparr>tm_year = 70, tm_mon = 0, tm_mday = 1, tm_wday = 4, tm_hour = 0, tm_min = 0, tm_sec = 0\<rparr>),
     fs_strptime = (\<lambda>s. None)\<rparr>"

definition demo_opts :: portico_static_opts where
  "demo_opts = \<lparr>so_docroot = Some (bytes_of ''/w''), so_url_prefix = None, so_index = None, so_precompressed = False,
     so_cache_control = None, so_spa_fallback = None, so_dir_redirect = False\<rparr>"

definition demo_fds :: fds where
  "demo_fds = \<lparr>fd_open = (\<lambda>_. None), fd_next = 3, fd_opened = []\<rparr>"

definition demo_get :: "string \<Rightarrow> portico_request" where
  "demo_get path = zero_request\<lparr>rq_method := bytes_of ''GET'', rq_path := bytes_of path\<rparr>"


section \<open>Multipart bodies fit\<close>

lemma length_dec_int_size: "0 \<le> i \<Longrightarrow> i \<le> PORTICO_FILE_MAX \<Longrightarrow> length (dec_int i) \<le> 10"
  using length_dec_mono [of "nat i" 10] by (simp add: dec_int_def PORTICO_FILE_MAX_def nat_less_iff)

lemma collect_parts_inside:
  "collect_parts fsize toks parts = Some parts' \<Longrightarrow> 0 \<le> fsize \<Longrightarrow>
   \<forall>p \<in> set parts. 0 \<le> fst p \<and> 0 < snd p \<and> fst p + snd p \<le> fsize \<Longrightarrow>
   \<forall>p \<in> set parts'. 0 \<le> fst p \<and> 0 < snd p \<and> fst p + snd p \<le> fsize"
proof (induction toks arbitrary: parts)
  case (Cons tok toks)
  let ?spec = "bytes_of ''bytes='' @ dropWhile (\<lambda>c. c = 32 \<or> c = 9) tok"
  show ?case
  proof (cases "parse_range ?spec fsize")
    case (RangeOk s n)
    have "0 \<le> s \<and> 0 < n \<and> s + n \<le> fsize" using RangeOk Cons.prems(2) by (rule parse_range_bounded)
    moreover have "collect_parts fsize toks (parts @ [(s, n)]) = Some parts'"
      using Cons.prems(1) RangeOk by (simp add: Let_def split: if_splits)
    ultimately show ?thesis using Cons.IH [of "parts @ [(s, n)]"] Cons.prems(2,3) by simp
  next
    case RangeIgnore
    hence "collect_parts fsize toks parts = Some parts'" using Cons.prems(1) by (simp add: Let_def split: if_splits)
    thus ?thesis using Cons.IH Cons.prems(2,3) by blast
  next
    case RangeUnsatisfiable
    hence "collect_parts fsize toks parts = Some parts'" using Cons.prems(1) by (simp add: Let_def split: if_splits)
    thus ?thesis using Cons.IH Cons.prems(2,3) by blast
  qed
qed simp

lemma length_part_head:
  assumes "0 \<le> fst p" "0 < snd p" "fst p + snd p \<le> fsize" "fsize \<le> PORTICO_FILE_MAX"
  shows "length (part_head boundary ctype fsize p) \<le> length boundary + length ctype + 78"
  using length_dec_int_size [of "fst p"] length_dec_int_size [of "fst p + snd p - 1"] length_dec_int_size [of fsize] assms
  by (simp add: part_head_def CRLF_def)

lemma length_assemble:
  assumes "assemble_parts fs fd d boundary ctype fsize parts = Some body" "fsize \<le> PORTICO_FILE_MAX"
    and "\<forall>p \<in> set parts. 0 \<le> fst p \<and> 0 < snd p \<and> fst p + snd p \<le> fsize"
  shows "int (length body) \<le> sum_list (map snd parts) + int (length parts * (length boundary + length ctype + 160))"
  using assms
proof (induction parts arbitrary: body)
  case (Cons p parts)
  then obtain data rest where b: "int (length data) = snd p" "assemble_parts fs fd d boundary ctype fsize parts = Some rest"
    "body = part_head boundary ctype fsize p @ data @ CRLF @ rest"
    by (auto split: option.splits if_splits)
  have "length (part_head boundary ctype fsize p) \<le> length boundary + length ctype + 78"
    using Cons.prems(2,3) by (intro length_part_head) auto
  moreover have "int (length rest) \<le> sum_list (map snd parts) + int (length parts * (length boundary + length ctype + 160))"
    using Cons.IH [OF b(2)] Cons.prems by simp
  ultimately show ?case using b by (simp add: CRLF_def algebra_simps)
qed simp



text \<open>
  The containment test assumes that the real root does not end in a slash: with the file system root
  as document root every file is refused.
\<close>

lemma slash_docroot_refuses: "c \<noteq> 47 \<Longrightarrow> \<not> within_root [47] (47 # c # path)"
  by (simp add: within_root_def)

end
