(* ===== verification/Ws_Utf8.thy ===== *)
theory Ws_Utf8
  imports Portico_Prelude
begin

text \<open>
  Text payload validation (ws\_utf8.c): the table-driven automaton and, as its
  specification, the encoding of Unicode scalar values of RFC 3629.
\<close>

definition UTF8_ACCEPT :: nat where
  "UTF8_ACCEPT = 0"

definition UTF8_REJECT :: nat where
  "UTF8_REJECT = 12"

text \<open>The character classes of all bytes, then the transition table.\<close>

definition utf8d :: "nat list" where
  "utf8d =
    replicate 128 0 @
    replicate 16 1 @ replicate 16 9 @
    replicate 32 7 @
    [8,8,2,2,2,2,2,2,2,2,2,2,2,2,2,2,2,2,2,2,2,2,2,2,2,2,2,2,2,2,2,2,
    10,3,3,3,3,3,3,3,3,3,3,3,3,4,3,3,11,6,6,6,5,8,8,8,8,8,8,8,8,8,8,8,
     0,12,24,36,60,96,84,12,12,12,48,72,12,12,12,12,12,12,12,12,12,12,12,12,
    12,0,12,12,12,12,12,0,12,0,12,12,12,24,12,12,12,12,12,24,12,24,12,12,
    12,12,12,12,12,12,12,24,12,12,12,12,12,24,12,12,12,12,12,12,12,24,12,12,
    12,12,12,12,12,12,12,36,12,36,12,12,12,36,12,12,12,12,12,36,12,36,12,12,
    12,36,12,12,12,12,12,12,12,12,12,12]"


definition utf8_decode :: "nat \<Rightarrow> u32 \<Rightarrow> u8 \<Rightarrow> nat \<times> u32" where
  "utf8_decode state codep byte =
    (let type = utf8d ! unat byte;
         codep' = (if state \<noteq> UTF8_ACCEPT
                   then (ucast byte AND 0x3f) OR push_bit 6 codep
                   else drop_bit type 0xff AND ucast byte)
     in (utf8d ! (256 + state + type), codep'))"

text \<open>The loop of \<open>ws_utf8_valid\<close>, with its early return on a rejected byte.\<close>

fun utf8_loop :: "nat \<Rightarrow> u32 \<Rightarrow> bytes \<Rightarrow> bool" where
  "utf8_loop state codep [] = (state = UTF8_ACCEPT)"
| "utf8_loop state codep (b # s) =
    (let (state', codep') = utf8_decode state codep b
     in if state' = UTF8_REJECT then False else utf8_loop state' codep' s)"

definition ws_utf8_valid :: "bytes \<Rightarrow> bool" where
  "ws_utf8_valid s = utf8_loop UTF8_ACCEPT 0 s"

section \<open>Specification: RFC 3629\<close>

text \<open>A Unicode scalar value: a code point that is no surrogate.\<close>

definition unicode_scalar :: "nat \<Rightarrow> bool" where
  "unicode_scalar c = (c < 0xD800 \<or> (0xE000 \<le> c \<and> c < 0x110000))"

definition utf8_encode_nat :: "nat \<Rightarrow> nat list" where
  "utf8_encode_nat c =
    (if c < 0x80 then [c]
     else if c < 0x800 then [0xC0 + c div 64, 0x80 + c mod 64]
     else if c < 0x10000 then [0xE0 + c div 4096, 0x80 + c div 64 mod 64, 0x80 + c mod 64]
     else [0xF0 + c div 262144, 0x80 + c div 4096 mod 64, 0x80 + c div 64 mod 64, 0x80 + c mod 64])"

definition utf8_encode :: "nat \<Rightarrow> bytes" where
  "utf8_encode c = map word_of_nat (utf8_encode_nat c)"

section \<open>The automaton on byte values\<close>

text \<open>The transitions of the table, read as the byte ranges they accept.\<close>

definition utf8_next :: "nat \<Rightarrow> nat \<Rightarrow> nat" where
  "utf8_next st n =
    (if st = 0 then
       (if n < 0x80 then 0 else if n < 0xC2 then 12 else if n < 0xE0 then 24
        else if n = 0xE0 then 48 else if n = 0xED then 60 else if n < 0xF0 then 36
        else if n = 0xF0 then 72 else if n < 0xF4 then 84 else if n = 0xF4 then 96 else 12)
     else if st = 24 then (if 0x80 \<le> n \<and> n < 0xC0 then 0 else 12)
     else if st = 36 then (if 0x80 \<le> n \<and> n < 0xC0 then 24 else 12)
     else if st = 48 then (if 0xA0 \<le> n \<and> n < 0xC0 then 24 else 12)
     else if st = 60 then (if 0x80 \<le> n \<and> n < 0xA0 then 24 else 12)
     else if st = 72 then (if 0x90 \<le> n \<and> n < 0xC0 then 36 else 12)
     else if st = 84 then (if 0x80 \<le> n \<and> n < 0xC0 then 36 else 12)
     else (if 0x80 \<le> n \<and> n < 0x90 then 36 else 12))"

definition utf8_states :: "nat list" where
  "utf8_states = [0, 24, 36, 48, 60, 72, 84, 96]"

text \<open>The two halves of the table: the class of a byte, and the next state of a class.\<close>

definition utf8_class :: "nat \<Rightarrow> nat" where
  "utf8_class n =
    (if n < 0x80 then 0 else if n < 0x90 then 1 else if n < 0xA0 then 9
     else if n < 0xC0 then 7 else if n < 0xC2 then 8 else if n < 0xE0 then 2
     else if n = 0xE0 then 10 else if n = 0xED then 4 else if n < 0xF0 then 3
     else if n = 0xF0 then 11 else if n < 0xF4 then 6 else if n = 0xF4 then 5 else 8)"

definition utf8_trans :: "nat \<Rightarrow> nat \<Rightarrow> nat" where
  "utf8_trans st t =
    (if st = 0 then [0,12,24,36,60,96,84,12,12,12,48,72] ! t
     else if st = 24 then (if t \<in> {1, 7, 9} then 0 else 12)
     else if st = 36 then (if t \<in> {1, 7, 9} then 24 else 12)
     else if st = 48 then (if t = 7 then 24 else 12)
     else if st = 60 then (if t \<in> {1, 9} then 24 else 12)
     else if st = 72 then (if t \<in> {7, 9} then 36 else 12)
     else if st = 84 then (if t \<in> {1, 7, 9} then 36 else 12)
     else (if t = 1 then 36 else 12))"

fun utf8_run :: "nat \<Rightarrow> nat list \<Rightarrow> bool" where
  "utf8_run st [] = (st = 0)"
| "utf8_run st (n # ns) = (utf8_next st n \<noteq> 12 \<and> utf8_run (utf8_next st n) ns)"

lemma utf8_class_check:
  "list_all2 (\<lambda>c n. c = utf8_class n) (take 256 utf8d) [0..<256]"
  by code_simp

lemma utf8_class: "n < 256 \<Longrightarrow> utf8d ! n = utf8_class n"
  using list_all2_nthD2 [OF utf8_class_check, of n] by simp

lemma utf8_trans_check:
  "\<forall>st \<in> set utf8_states. \<forall>t \<in> set [0..<12]. utf8d ! (256 + st + t) = utf8_trans st t"
  by code_simp

lemma utf8_table:
  assumes "st \<in> set utf8_states" "n < 256"
  shows "utf8d ! (256 + st + utf8d ! n) = utf8_next st n"
proof -
  have "utf8_class n < 12" by (simp add: utf8_class_def)
  hence "utf8d ! (256 + st + utf8d ! n) = utf8_trans st (utf8_class n)"
    using utf8_trans_check assms by (simp add: utf8_class)
  also have "\<dots> = utf8_next st n"
    using assms
    by (simp only: utf8_states_def list.set insert_iff empty_iff)
       (elim disjE; simp add: utf8_class_def utf8_trans_def utf8_next_def)
  finally show ?thesis .
qed

lemma utf8_next_state:
  "utf8_next st n \<noteq> 12 \<Longrightarrow> utf8_next st n \<in> set utf8_states"
  by (auto simp: utf8_next_def utf8_states_def split: if_splits)

lemma utf8_loop_run:
  "st \<in> set utf8_states \<Longrightarrow> utf8_loop st c s = utf8_run st (map unat s)"
proof (induction s arbitrary: st c)
  case Nil
  thus ?case by (simp add: UTF8_ACCEPT_def)
next
  case (Cons b s)
  have *: "fst (utf8_decode st c b) = utf8_next st (unat b)"
    by (simp add: utf8_decode_def Let_def utf8_table [OF Cons.prems])
  show ?case
  proof (cases "utf8_next st (unat b) = 12")
    case True
    thus ?thesis using * by (simp add: case_prod_beta UTF8_REJECT_def)
  next
    case False
    thus ?thesis
      using * Cons.IH [OF utf8_next_state [OF False]]
      by (simp add: case_prod_beta UTF8_REJECT_def)
  qed
qed

lemma ws_utf8_valid_run: "ws_utf8_valid s = utf8_run 0 (map unat s)"
  by (simp add: ws_utf8_valid_def UTF8_ACCEPT_def utf8_loop_run utf8_states_def)

section \<open>Runs and encodings\<close>

lemma utf8_encode_nat_less: "unicode_scalar c \<Longrightarrow> n \<in> set (utf8_encode_nat c) \<Longrightarrow> n < 256"
  by (auto simp: utf8_encode_nat_def unicode_scalar_def split: if_splits)

lemma div_64_split: "(c :: nat) div 64 = 64 * (c div 4096) + c div 64 mod 64"
proof -
  have "c div 4096 = c div 64 div 64" by (simp add: div_mult2_eq [symmetric])
  thus ?thesis by simp
qed

lemma utf8_run_2:
  "2 \<le> x \<Longrightarrow> x < 32 \<Longrightarrow> y < 64 \<Longrightarrow>
   utf8_run 0 ((0xC0 + x) # (0x80 + y) # ns) = utf8_run 0 ns"
  by (simp add: utf8_next_def)

lemma utf8_run_3:
  "x < 16 \<Longrightarrow> (x = 0 \<Longrightarrow> 32 \<le> y) \<Longrightarrow> (x = 13 \<Longrightarrow> y < 32) \<Longrightarrow> y < 64 \<Longrightarrow> z < 64 \<Longrightarrow>
   utf8_run 0 ((0xE0 + x) # (0x80 + y) # (0x80 + z) # ns) = utf8_run 0 ns"
  by (auto simp: utf8_next_def)

lemma utf8_run_4:
  "x < 5 \<Longrightarrow> (x = 0 \<Longrightarrow> 16 \<le> y) \<Longrightarrow> (x = 4 \<Longrightarrow> y < 16) \<Longrightarrow> y < 64 \<Longrightarrow> z < 64 \<Longrightarrow> w < 64 \<Longrightarrow>
   utf8_run 0 ((0xF0 + x) # (0x80 + y) # (0x80 + z) # (0x80 + w) # ns) = utf8_run 0 ns"
  by (auto simp: utf8_next_def)

lemma utf8_run_encode:
  assumes "unicode_scalar c"
  shows "utf8_run 0 (utf8_encode_nat c @ ns) = utf8_run 0 ns"
proof -
  consider "c < 0x80" | "0x80 \<le> c" "c < 0x800" | "0x800 \<le> c" "c < 0x10000"
    | "0x10000 \<le> c" "c < 0x110000"
    using assms by (force simp: unicode_scalar_def)
  thus ?thesis
  proof cases
    case 1
    thus ?thesis by (simp add: utf8_encode_nat_def utf8_next_def)
  next
    case 2
    hence "2 \<le> c div 64" "c div 64 < 32" by auto
    thus ?thesis using 2 utf8_run_2 [of "c div 64" "c mod 64" ns]
      by (simp add: utf8_encode_nat_def)
  next
    case 3
    have e: "c div 64 = 64 * (c div 4096) + c div 64 mod 64" by (rule div_64_split)
    have a: "c div 4096 < 16" using 3 by auto
    have b: "c div 4096 = 0 \<Longrightarrow> 32 \<le> c div 64 mod 64" using 3 e by linarith
    have d: "c div 4096 = 13 \<Longrightarrow> c div 64 mod 64 < 32"
      using assms 3 e by (auto simp: unicode_scalar_def)
    show ?thesis
      using 3 utf8_run_3 [OF a b d, of "c mod 64" ns] by (simp add: utf8_encode_nat_def)
  next
    case 4
    have e: "c div 4096 = 64 * (c div 262144) + c div 4096 mod 64"
      using div_64_split [of "c div 64"] by (simp add: div_mult2_eq [symmetric])
    have a: "c div 262144 < 5" using 4 by auto
    have b: "c div 262144 = 0 \<Longrightarrow> 16 \<le> c div 4096 mod 64" using 4 e by linarith
    have d: "c div 262144 = 4 \<Longrightarrow> c div 4096 mod 64 < 16" using 4 e by linarith
    show ?thesis
      using 4 utf8_run_4 [OF a b d, of "c div 64 mod 64" "c mod 64" ns]
      by (simp add: utf8_encode_nat_def)
  qed
qed

lemma utf8_run_concat:
  "(\<forall>c \<in> set cs. unicode_scalar c) \<Longrightarrow> utf8_run 0 (concat (map utf8_encode_nat cs))"
  by (induction cs) (auto simp: utf8_run_encode)

lemma div_mod_64: "(z :: nat) < 64 \<Longrightarrow> (a * 64 + z) div 64 = a \<and> (a * 64 + z) mod 64 = z"
  by auto

lemma utf8_encode_2:
  "2 \<le> x \<Longrightarrow> x < 32 \<Longrightarrow> y < 64 \<Longrightarrow>
   utf8_encode_nat (x * 64 + y) = [0xC0 + x, 0x80 + y] \<and> unicode_scalar (x * 64 + y)"
  by (auto simp: utf8_encode_nat_def unicode_scalar_def)

lemma utf8_encode_3:
  assumes "x < 16" "x = 0 \<Longrightarrow> 32 \<le> y" "x = 13 \<Longrightarrow> y < 32" "y < 64" "z < 64"
  shows "utf8_encode_nat ((x * 64 + y) * 64 + z) = [0xE0 + x, 0x80 + y, 0x80 + z] \<and>
    unicode_scalar ((x * 64 + y) * 64 + z)"
proof -
  let ?c = "(x * 64 + y) * 64 + z"
  have q: "?c div 64 = x * 64 + y" "?c mod 64 = z" using div_mod_64 assms by blast+
  have "?c div 4096 = ?c div 64 div 64" by (simp only: div_mult2_eq [symmetric]) simp
  hence q2: "?c div 4096 = x" using q assms by simp
  have "0x800 \<le> ?c" "?c < 0x10000" using assms by (cases x; simp)+
  moreover have "unicode_scalar ?c"
    unfolding unicode_scalar_def using assms by (cases "x < 13"; cases "x = 13"; force)
  ultimately show ?thesis
    using q q2 assms by (simp add: utf8_encode_nat_def del: div_mult_self3 div_mult_self4)
qed

lemma utf8_encode_4:
  assumes "x < 5" "x = 0 \<Longrightarrow> 16 \<le> y" "x = 4 \<Longrightarrow> y < 16" "y < 64" "z < 64" "w < 64"
  shows "utf8_encode_nat (((x * 64 + y) * 64 + z) * 64 + w)
      = [0xF0 + x, 0x80 + y, 0x80 + z, 0x80 + w] \<and>
    unicode_scalar (((x * 64 + y) * 64 + z) * 64 + w)"
proof -
  let ?c = "((x * 64 + y) * 64 + z) * 64 + w"
  have q: "?c div 64 = (x * 64 + y) * 64 + z" "?c mod 64 = w" using div_mod_64 assms by blast+
  have "?c div 4096 = ?c div 64 div 64" by (simp only: div_mult2_eq [symmetric]) simp
  hence q2: "?c div 4096 = x * 64 + y" using q assms by simp
  have "?c div 262144 = ?c div 4096 div 64" by (simp only: div_mult2_eq [symmetric]) simp
  hence q3: "?c div 262144 = x" using q2 assms by simp
  have "0x10000 \<le> ?c" using assms by (cases x; simp)
  moreover have "?c < 0x110000" using assms by (cases "x = 4"; force)
  moreover have "((x * 64 + y) * 64 + z) mod 64 = z" using div_mod_64 assms by blast
  ultimately show ?thesis
    using q q2 q3 assms by (simp add: utf8_encode_nat_def unicode_scalar_def)
qed

lemma utf8_run_24:
  "utf8_run 24 ns \<Longrightarrow> \<exists>b rest. ns = b # rest \<and> 0x80 \<le> b \<and> b < 0xC0 \<and> utf8_run 0 rest"
  by (cases ns) (auto simp: utf8_next_def split: if_splits)

lemma utf8_run_36:
  "utf8_run 36 ns \<Longrightarrow> \<exists>b rest. ns = b # rest \<and> 0x80 \<le> b \<and> b < 0xC0 \<and> utf8_run 24 rest"
  by (cases ns) (auto simp: utf8_next_def split: if_splits)

lemma utf8_run_lead3:
  assumes "utf8_run 0 (n # ns)" "0xE0 \<le> n" "n < 0xF0"
  shows "\<exists>b rest. ns = b # rest \<and> 0x80 \<le> b \<and> b < 0xC0 \<and> (n = 0xE0 \<longrightarrow> 0xA0 \<le> b) \<and>
    (n = 0xED \<longrightarrow> b < 0xA0) \<and> utf8_run 24 rest"
proof -
  consider "n = 0xE0" "utf8_run 48 ns" | "n = 0xED" "utf8_run 60 ns"
    | "n \<noteq> 0xE0" "n \<noteq> 0xED" "utf8_run 36 ns"
    using assms by (cases "n = 0xE0"; cases "n = 0xED"; simp add: utf8_next_def)
  thus ?thesis
    by cases (cases ns; auto simp: utf8_next_def split: if_splits)+
qed

lemma utf8_run_lead4:
  assumes "utf8_run 0 (n # ns)" "0xF0 \<le> n" "n < 0xF5"
  shows "\<exists>b rest. ns = b # rest \<and> 0x80 \<le> b \<and> b < 0xC0 \<and> (n = 0xF0 \<longrightarrow> 0x90 \<le> b) \<and>
    (n = 0xF4 \<longrightarrow> b < 0x90) \<and> utf8_run 36 rest"
proof -
  consider "n = 0xF0" "utf8_run 72 ns" | "n = 0xF4" "utf8_run 96 ns"
    | "n \<noteq> 0xF0" "n \<noteq> 0xF4" "utf8_run 84 ns"
    using assms by (cases "n = 0xF0"; cases "n = 0xF4"; simp add: utf8_next_def)
  thus ?thesis
    by cases (cases ns; auto simp: utf8_next_def split: if_splits)+
qed

lemma utf8_run_first:
  assumes "utf8_run 0 (n # ns)"
  shows "\<exists>c rest. unicode_scalar c \<and> n # ns = utf8_encode_nat c @ rest \<and> utf8_run 0 rest"
proof -
  consider "n < 0x80" | "0xC2 \<le> n" "n < 0xE0" | "0xE0 \<le> n" "n < 0xF0" | "0xF0 \<le> n" "n < 0xF5"
    using assms by (force simp: utf8_next_def split: if_splits)
  thus ?thesis
  proof cases
    case 1
    have "unicode_scalar n \<and> n # ns = utf8_encode_nat n @ ns \<and> utf8_run 0 ns"
      using 1 assms by (simp add: utf8_encode_nat_def unicode_scalar_def utf8_next_def)
    thus ?thesis by blast
  next
    case 2
    hence "utf8_run 24 ns" using assms by (simp add: utf8_next_def)
    then obtain b rest where ns: "ns = b # rest" "utf8_run 0 rest" "0x80 \<le> b" "b < 0xC0"
      using utf8_run_24 by blast
    have "unicode_scalar ((n - 0xC0) * 64 + (b - 0x80)) \<and>
        n # ns = utf8_encode_nat ((n - 0xC0) * 64 + (b - 0x80)) @ rest"
      using utf8_encode_2 [of "n - 0xC0" "b - 0x80"] 2 ns by simp
    thus ?thesis using ns(2) by blast
  next
    case 3
    then obtain b r where b: "ns = b # r" "utf8_run 24 r" "0x80 \<le> b" "b < 0xC0"
      "n = 0xE0 \<longrightarrow> 0xA0 \<le> b" "n = 0xED \<longrightarrow> b < 0xA0"
      using utf8_run_lead3 [OF assms] by blast
    then obtain d rest where d: "r = d # rest" "utf8_run 0 rest" "0x80 \<le> d" "d < 0xC0"
      using utf8_run_24 by blast
    let ?c = "((n - 0xE0) * 64 + (b - 0x80)) * 64 + (d - 0x80)"
    have "utf8_encode_nat ?c = [0xE0 + (n - 0xE0), 0x80 + (b - 0x80), 0x80 + (d - 0x80)] \<and>
        unicode_scalar ?c"
      using 3 b d by (intro utf8_encode_3) auto
    thus ?thesis using 3 b d by (intro exI [of _ ?c] exI [of _ rest]) simp
  next
    case 4
    then obtain b r where b: "ns = b # r" "utf8_run 36 r" "0x80 \<le> b" "b < 0xC0"
      "n = 0xF0 \<longrightarrow> 0x90 \<le> b" "n = 0xF4 \<longrightarrow> b < 0x90"
      using utf8_run_lead4 [OF assms] by blast
    obtain d r' where d: "r = d # r'" "utf8_run 24 r'" "0x80 \<le> d" "d < 0xC0"
      using utf8_run_36 [OF b(2)] by blast
    obtain e rest where e: "r' = e # rest" "utf8_run 0 rest" "0x80 \<le> e" "e < 0xC0"
      using utf8_run_24 [OF d(2)] by blast
    let ?c = "(((n - 0xF0) * 64 + (b - 0x80)) * 64 + (d - 0x80)) * 64 + (e - 0x80)"
    have "utf8_encode_nat ?c =
        [0xF0 + (n - 0xF0), 0x80 + (b - 0x80), 0x80 + (d - 0x80), 0x80 + (e - 0x80)] \<and>
        unicode_scalar ?c"
      using 4 b d e by (intro utf8_encode_4) auto
    thus ?thesis using 4 b d e by (intro exI [of _ ?c] exI [of _ rest]) simp
  qed
qed

lemma utf8_encode_nat_nonempty: "0 < length (utf8_encode_nat c)"
  by (simp add: utf8_encode_nat_def)

lemma utf8_run_decodes:
  "utf8_run 0 ns \<Longrightarrow> \<exists>cs. (\<forall>c \<in> set cs. unicode_scalar c) \<and> ns = concat (map utf8_encode_nat cs)"
proof (induction "length ns" arbitrary: ns rule: less_induct)
  case less
  show ?case
  proof (cases ns)
    case Nil
    thus ?thesis by (intro exI [of _ "[]"]) simp
  next
    case (Cons n ms)
    then obtain c rest where c: "unicode_scalar c" "ns = utf8_encode_nat c @ rest" "utf8_run 0 rest"
      using utf8_run_first less.prems by blast
    hence "length rest < length ns" using utf8_encode_nat_nonempty [of c] by simp
    then obtain cs where "\<forall>c \<in> set cs. unicode_scalar c" "rest = concat (map utf8_encode_nat cs)"
      using less.hyps c(3) by blast
    thus ?thesis using c by (intro exI [of _ "c # cs"]) simp
  qed
qed

lemma unat_utf8_encode: "unicode_scalar c \<Longrightarrow> map unat (utf8_encode c) = utf8_encode_nat c"
  using utf8_encode_nat_less [of c]
  by (auto simp: utf8_encode_def unat_of_nat intro!: map_idI)

lemma unat_concat_encode:
  "(\<forall>c \<in> set cs. unicode_scalar c) \<Longrightarrow>
   map unat (concat (map utf8_encode cs)) = concat (map utf8_encode_nat cs)"
  by (induction cs) (auto simp: unat_utf8_encode)

text \<open>
  C1. The validator accepts exactly the encodings of sequences of Unicode scalar
  values: no overlong form, no surrogate, nothing above U+10FFFF and no truncated
  sequence is accepted, and every well-formed text is.
\<close>

theorem ws_utf8_valid_iff:
  "ws_utf8_valid s \<longleftrightarrow>
    (\<exists>cs. list_all unicode_scalar cs \<and> s = concat (map utf8_encode cs))"
proof
  assume "ws_utf8_valid s"
  then obtain cs where cs: "\<forall>c \<in> set cs. unicode_scalar c"
      "map unat s = concat (map utf8_encode_nat cs)"
    using utf8_run_decodes by (auto simp: ws_utf8_valid_run)
  hence "map unat s = map unat (concat (map utf8_encode cs))"
    by (simp add: unat_concat_encode)
  hence "s = concat (map utf8_encode cs)"
    by (rule map_injective) (simp add: inj_def word_unat_eq_iff)
  thus "\<exists>cs. list_all unicode_scalar cs \<and> s = concat (map utf8_encode cs)"
    using cs(1) by (auto simp: list_all_iff)
next
  assume "\<exists>cs. list_all unicode_scalar cs \<and> s = concat (map utf8_encode cs)"
  thus "ws_utf8_valid s"
    by (auto simp: ws_utf8_valid_run list_all_iff unat_concat_encode utf8_run_concat
        simp del: map_concat)
qed

end
