(* ===== verification/Ws_Frame.thy ===== *)
theory Ws_Frame
  imports Portico_Prelude
begin

text \<open>
  WebSocket frames (ws\_frame.c): header parsing, in-place unmasking in its
  three code paths, the frame parser and the encoder. A frame's payload pointer
  is an offset into the input buffer (the parser is zero-copy), \<open>None\<close> for NULL.
\<close>

record ws_frame =
  f_fin :: bool
  f_opcode :: u8
  f_masked :: bool
  f_payload_len :: u64
  f_mask_key :: bytes
  f_payload :: "nat option"
  f_header_len :: nat
  f_owns_payload :: bool

definition WS_FRAME_FIN :: u8 where
  "WS_FRAME_FIN = 0x80"

definition WS_FRAME_MASK :: u8 where
  "WS_FRAME_MASK = 0x80"

definition WS_FRAME_PAYLOAD_LEN :: u8 where
  "WS_FRAME_PAYLOAD_LEN = 0x7F"

definition WS_OPCODE_CONTINUATION :: u8 where
  "WS_OPCODE_CONTINUATION = 0x0"

definition WS_OPCODE_TEXT :: u8 where
  "WS_OPCODE_TEXT = 0x1"

definition WS_OPCODE_BINARY :: u8 where
  "WS_OPCODE_BINARY = 0x2"

definition WS_OPCODE_CLOSE :: u8 where
  "WS_OPCODE_CLOSE = 0x8"

definition WS_OPCODE_PING :: u8 where
  "WS_OPCODE_PING = 0x9"

definition WS_OPCODE_PONG :: u8 where
  "WS_OPCODE_PONG = 0xA"

lemmas opcode_defs = WS_OPCODE_CONTINUATION_def WS_OPCODE_TEXT_def WS_OPCODE_BINARY_def
  WS_OPCODE_CLOSE_def WS_OPCODE_PING_def WS_OPCODE_PONG_def

text \<open>The frame after \<open>memset(frame, 0, sizeof(ws_frame_t))\<close>.\<close>

definition zero_frame :: ws_frame where
  "zero_frame = \<lparr>f_fin = False, f_opcode = 0, f_masked = False, f_payload_len = 0,
     f_mask_key = [0, 0, 0, 0], f_payload = None, f_header_len = 0, f_owns_payload = False\<rparr>"

section \<open>Header\<close>

text \<open>
  The declared payload length: \<open>None\<close> when the extended length is not complete yet,
  otherwise the length and the number of header bytes read so far.
\<close>

definition ws_declared_len :: "bytes \<Rightarrow> (u64 \<times> nat) option" where
  "ws_declared_len data =
    (let len7 = data ! 1 AND WS_FRAME_PAYLOAD_LEN in
     if len7 < 126 then Some (ucast len7, 2)
     else if len7 = 126 then
       (if length data < 4 then None
        else Some (push_bit 8 (ucast (data ! 2)) OR ucast (data ! 3), 2 + 2))
     else
       (if length data < 10 then None
        else Some (push_bit 56 (ucast (data ! 2)) OR push_bit 48 (ucast (data ! 3)) OR
                   push_bit 40 (ucast (data ! 4)) OR push_bit 32 (ucast (data ! 5)) OR
                   push_bit 24 (ucast (data ! 6)) OR push_bit 16 (ucast (data ! 7)) OR
                   push_bit 8 (ucast (data ! 8)) OR ucast (data ! 9), 2 + 8)))"

text \<open>
  Result: the C return value (0: more data needed, -1: protocol error, otherwise the
  header length) and the frame as filled so far.
\<close>

definition ws_parse_frame_header :: "bytes \<Rightarrow> ws_frame \<Rightarrow> u64 \<Rightarrow> int \<times> ws_frame" where
  "ws_parse_frame_header data frame max_payload_len =
    (if length data < 2 then (0, frame)
     else
       let frame = frame\<lparr>f_fin := (data ! 0 AND WS_FRAME_FIN \<noteq> 0), f_opcode := data ! 0 AND 0x0F,
                         f_masked := (data ! 1 AND WS_FRAME_MASK \<noteq> 0)\<rparr>;
           rsv_bits = drop_bit 4 (data ! 0) AND 0x07
       in if rsv_bits \<noteq> 0 then (-1, frame)
          else if \<not> f_masked frame then (-1, frame)
          else case ws_declared_len data of
            None \<Rightarrow> (0, frame\<lparr>f_header_len := 2\<rparr>)
          | Some (plen, hlen) \<Rightarrow>
              let frame = frame\<lparr>f_payload_len := plen, f_header_len := hlen\<rparr>
              in if plen > max_payload_len then (-1, frame)
                 else if f_masked frame then
                   (if length data < hlen + 4 then (0, frame)
                    else let frame = frame\<lparr>f_mask_key := take 4 (drop hlen data), f_header_len := hlen + 4\<rparr>
                         in (int (f_header_len frame), frame))
                 else (int (f_header_len frame), frame))"

section \<open>Unmasking\<close>

text \<open>
  XOR of \<open>k\<close> bytes at offset \<open>i\<close> with a register, as the load, XOR and store of the
  source: a 256-bit, a 128-bit or a 32-bit register.
\<close>

definition xor_at :: "nat \<Rightarrow> 'a::len word \<Rightarrow> nat \<Rightarrow> bytes \<Rightarrow> bytes" where
  "xor_at k m i p = take i p @ store_le k (load_le (take k (drop i p)) XOR m) @ drop (i + k) p"

definition xor_byte_at :: "bytes \<Rightarrow> nat \<Rightarrow> bytes \<Rightarrow> bytes" where
  "xor_byte_at key i p = p[i := p ! i XOR key ! (i mod 4)]"

text \<open>\<open>_mm_set1_epi32\<close> and \<open>_mm256_set1_epi32\<close>: all lanes hold the same 32-bit value.\<close>

definition set1_epi32 :: "nat \<Rightarrow> u32 \<Rightarrow> 'a::len word" where
  "set1_epi32 lanes m = load_le (concat (replicate lanes (store_le 4 m)))"

definition ws_unmask_payload_avx2 :: "bytes \<Rightarrow> bytes \<Rightarrow> bytes" where
  "ws_unmask_payload_avx2 payload mask_key =
    (let len = length payload;
         mask32 = (load_le mask_key :: u32);
         mask_vec = (set1_epi32 8 mask32 :: 256 word);
         avx_len = len div 32 * 32;
         p = for_by 32 0 avx_len (xor_at 32 mask_vec) payload;
         p = for_by 4 avx_len (len div 4 * 4) (xor_at 4 mask32) p
     in for_by 1 (len div 4 * 4) len (xor_byte_at mask_key) p)"

definition ws_unmask_payload_sse2 :: "bytes \<Rightarrow> bytes \<Rightarrow> bytes" where
  "ws_unmask_payload_sse2 payload mask_key =
    (let len = length payload;
         mask32 = (load_le mask_key :: u32);
         mask_vec = (set1_epi32 4 mask32 :: 128 word);
         sse_len = len div 16 * 16;
         p = for_by 16 0 sse_len (xor_at 16 mask_vec) payload;
         p = for_by 4 sse_len (len div 4 * 4) (xor_at 4 mask32) p
     in for_by 1 (len div 4 * 4) len (xor_byte_at mask_key) p)"

definition ws_unmask_payload_scalar :: "bytes \<Rightarrow> bytes \<Rightarrow> bytes" where
  "ws_unmask_payload_scalar payload mask_key =
    (let len = length payload;
         mask32 = (load_le mask_key :: u32);
         chunks = len div 4;
         p = for_by 1 0 chunks (\<lambda>i. xor_at 4 mask32 (4 * i)) payload
     in for_by 1 (chunks * 4) len (xor_byte_at mask_key) p)"

text \<open>What the build and the processor support.\<close>

record cpu =
  cpu_avx2 :: bool
  cpu_sse2 :: bool

definition ws_unmask_payload :: "cpu \<Rightarrow> bytes \<Rightarrow> bytes \<Rightarrow> bytes" where
  "ws_unmask_payload cpu payload mask_key =
    (if cpu_avx2 cpu then ws_unmask_payload_avx2 payload mask_key
     else if cpu_sse2 cpu then ws_unmask_payload_sse2 payload mask_key
     else ws_unmask_payload_scalar payload mask_key)"

section \<open>Frame parser\<close>

text \<open>
  Result: the return value (consumed bytes, 0 or -1; the cast of the 64-bit total to
  \<open>int\<close> is written out), the frame, and the input buffer after the in-place unmasking.
\<close>

definition ws_parse_frame :: "cpu \<Rightarrow> bytes \<Rightarrow> u64 \<Rightarrow> int \<times> ws_frame \<times> bytes" where
  "ws_parse_frame cpu data max_payload_len =
    (if data = [] then (-1, zero_frame, data)
     else
       let (hdr, frame) = ws_parse_frame_header data zero_frame max_payload_len
       in if hdr = 0 then (0, frame, data)
          else if hdr < 0 then (-1, frame, data)
          else
            let total_frame_len = word_of_int hdr + f_payload_len frame;
                result = sint (ucast total_frame_len :: u32)
            in if (word_of_nat (length data) :: u64) < total_frame_len then (0, frame, data)
               else if f_payload_len frame > 0 then
                 let off = nat hdr; n = unat (f_payload_len frame);
                     frame = frame\<lparr>f_payload := Some off, f_owns_payload := False\<rparr>;
                     data' = (if f_masked frame
                              then take off data @
                                   ws_unmask_payload cpu (take n (drop off data)) (f_mask_key frame) @
                                   drop (off + n) data
                              else data)
                 in (result, frame, data')
               else (result, frame\<lparr>f_payload := None, f_owns_payload := False\<rparr>, data))"

text \<open>The bytes a parsed frame's payload pointer and length designate.\<close>

definition frame_bytes :: "ws_frame \<Rightarrow> bytes \<Rightarrow> bytes" where
  "frame_bytes frame data =
    (case f_payload frame of None \<Rightarrow> [] | Some off \<Rightarrow> take (unat (f_payload_len frame)) (drop off data))"

section \<open>Encoder\<close>

text \<open>
  \<open>malloc_ok n\<close> tells whether the allocation of \<open>n\<close> bytes succeeds. \<open>None\<close> is the
  return value -1.
\<close>

definition ws_encode_frame :: "(nat \<Rightarrow> bool) \<Rightarrow> u8 \<Rightarrow> bytes \<Rightarrow> bytes option" where
  "ws_encode_frame malloc_ok opc payload =
    (let n = length payload;
         payload_len = (word_of_nat n :: u64);
         header_len = (if payload_len < 126 then 2 else if payload_len \<le> 0xFFFF then 4 else 10)
     in if \<not> malloc_ok (header_len + n) then None
        else
          let b0 = WS_FRAME_FIN OR (opc AND 0x0F);
              header =
                (if payload_len < 126 then [b0, ucast payload_len]
                 else if payload_len \<le> 0xFFFF then
                   [b0, 126, ucast (drop_bit 8 payload_len AND 0xFF), ucast (payload_len AND 0xFF)]
                 else
                   [b0, 127,
                    ucast (drop_bit 56 payload_len AND 0xFF), ucast (drop_bit 48 payload_len AND 0xFF),
                    ucast (drop_bit 40 payload_len AND 0xFF), ucast (drop_bit 32 payload_len AND 0xFF),
                    ucast (drop_bit 24 payload_len AND 0xFF), ucast (drop_bit 16 payload_len AND 0xFF),
                    ucast (drop_bit 8 payload_len AND 0xFF), ucast (payload_len AND 0xFF)])
          in Some (header @ payload))"


section \<open>Unmasking is the XOR with the repeated key\<close>

text \<open>The transformation of RFC 6455, section 5.3, byte by byte.\<close>

definition unmask_spec :: "bytes \<Rightarrow> bytes \<Rightarrow> bytes" where
  "unmask_spec key p = map (\<lambda>i. p ! i XOR key ! (i mod 4)) [0..<length p]"

text \<open>The buffer when the first \<open>i\<close> bytes are done.\<close>

definition unmask_upto :: "bytes \<Rightarrow> nat \<Rightarrow> bytes \<Rightarrow> bytes" where
  "unmask_upto key i p = take i (unmask_spec key p) @ drop i p"

lemma length_unmask [simp]:
  "length (unmask_spec key p) = length p" "length (unmask_upto key i p) = length p"
  by (auto simp: unmask_spec_def unmask_upto_def)

lemma nth_unmask_spec [simp]: "i < length p \<Longrightarrow> unmask_spec key p ! i = p ! i XOR key ! (i mod 4)"
  by (simp add: unmask_spec_def)

lemma nth_unmask_upto:
  "j < length p \<Longrightarrow> unmask_upto key i p ! j = (if j < i then p ! j XOR key ! (j mod 4) else p ! j)"
  by (auto simp: unmask_upto_def nth_append min_def)

lemma unmask_upto_ends [simp]:
  "unmask_upto key 0 p = p" "unmask_upto key (length p) p = unmask_spec key p"
  by (auto simp: unmask_upto_def)

lemma length_concat_key: "length key = 4 \<Longrightarrow> length (concat (replicate n key)) = 4 * n"
  by (induction n) auto

lemma nth_concat_key:
  "length key = 4 \<Longrightarrow> j < 4 * n \<Longrightarrow> concat (replicate n key) ! j = key ! (j mod 4)"
proof (induction n arbitrary: j)
  case 0
  thus ?case by simp
next
  case (Suc n)
  show ?case
  proof (cases "j < 4")
    case True
    thus ?thesis using Suc.prems by (simp add: nth_append)
  next
    case False
    hence "(j - 4) mod 4 = j mod 4" by (simp add: le_mod_geq)
    thus ?thesis using False Suc by (simp add: nth_append)
  qed
qed

lemma xor_at_step:
  assumes key: "length key = 4" and k: "k = 4 * lanes" "8 * k \<le> LENGTH('a::len)"
    and i: "4 dvd i" "i + k \<le> length p"
    and m: "m = (load_le (concat (replicate lanes key)) :: 'a word)"
  shows "xor_at k m i (unmask_upto key i p) = unmask_upto key (i + k) p"
proof (rule nth_equalityI)
  let ?q = "unmask_upto key i p"
  have q: "length (take k (drop i ?q)) = k" using i by simp
  have store: "store_le k (load_le (take k (drop i ?q)) XOR m)
      = map2 (XOR) (take k (drop i ?q)) (concat (replicate lanes key))"
    unfolding m using q key k by (intro store_le_xor) (auto simp: length_concat_key)
  show "length (xor_at k m i ?q) = length (unmask_upto key (i + k) p)"
    using i by (simp add: xor_at_def)
  fix j assume "j < length (xor_at k m i ?q)"
  hence j: "j < length p" using i by (simp add: xor_at_def)
  consider "j < i" | "i \<le> j" "j < i + k" | "i + k \<le> j" by linarith
  thus "xor_at k m i ?q ! j = unmask_upto key (i + k) p ! j"
  proof cases
    case 1
    thus ?thesis using i j by (simp add: xor_at_def nth_append nth_unmask_upto)
  next
    case 2
    then obtain d where d: "j = i + d" "d < k" by (metis le_Suc_ex nat_add_left_cancel_less)
    hence "d mod 4 = j mod 4" using i(1) by (auto elim: dvdE)
    hence "concat (replicate lanes key) ! d = key ! (j mod 4)"
      using nth_concat_key [OF key] d k by simp
    thus ?thesis
      using d i j q k key store
      by (simp add: xor_at_def nth_append nth_unmask_upto length_concat_key min_def)
  next
    case 3
    hence "\<not> j - i < k" by linarith
    thus ?thesis using 3 i j by (simp add: xor_at_def nth_append nth_unmask_upto)
  qed
qed

lemma xor_byte_at_step:
  "i < length p \<Longrightarrow> xor_byte_at key i (unmask_upto key i p) = unmask_upto key (i + 1) p"
  by (rule nth_equalityI) (auto simp: xor_byte_at_def nth_list_update nth_unmask_upto less_Suc_eq)

lemma for_xor_at:
  assumes "length key = 4" "k = 4 * lanes" "0 < lanes" "8 * k \<le> LENGTH('a::len)"
    "4 dvd lo" "lo \<le> hi" "k dvd hi - lo" "hi \<le> length p"
    "m = (load_le (concat (replicate lanes key)) :: 'a word)"
  shows "for_by k lo hi (xor_at k m) (unmask_upto key lo p) = unmask_upto key hi p"
proof (rule for_by_invariant [where I = "\<lambda>i q. q = unmask_upto key i p"])
  fix j t assume "t = unmask_upto key j p" "lo \<le> j" "k dvd j - lo" "j + k \<le> hi"
  moreover from this have "4 dvd j"
    using assms(2,5) by (metis dvd_add_right_iff dvd_triv_left dvd_trans le_add_diff_inverse)
  ultimately show "xor_at k m j t = unmask_upto key (j + k) p"
    using assms xor_at_step [of key k lanes j p m] by simp
qed (use assms in auto)

lemma for_xor_byte_at:
  assumes "lo \<le> length p"
  shows "for_by 1 lo (length p) (xor_byte_at key) (unmask_upto key lo p) = unmask_spec key p"
proof -
  have "for_by 1 lo (length p) (xor_byte_at key) (unmask_upto key lo p) = unmask_upto key (length p) p"
    by (rule for_by_invariant [where I = "\<lambda>i q. q = unmask_upto key i p"])
       (use assms xor_byte_at_step in auto)
  thus ?thesis by simp
qed

lemma load_le_key: "length key = 4 \<Longrightarrow> (load_le key :: u32) = load_le (concat (replicate 1 key))"
  by simp

lemma set1_epi32_key:
  "length key = 4 \<Longrightarrow> set1_epi32 n (load_le key) = load_le (concat (replicate n key))"
  by (simp add: set1_epi32_def store_load_le)

text \<open>The common tail of the vector paths: 32-bit chunks from \<open>lo\<close>, then single bytes.\<close>

lemma unmask_tail:
  assumes "length key = 4" "4 dvd lo" "lo \<le> length p div 4 * 4"
  shows "for_by 1 (length p div 4 * 4) (length p) (xor_byte_at key)
      (for_by 4 lo (length p div 4 * 4) (xor_at 4 (load_le key :: u32)) (unmask_upto key lo p))
    = unmask_spec key p"
proof -
  have "for_by 4 lo (length p div 4 * 4) (xor_at 4 (load_le key :: u32)) (unmask_upto key lo p)
      = unmask_upto key (length p div 4 * 4) p"
    using assms by (intro for_xor_at [where lanes = 1]) (auto simp: dvd_diff_nat)
  thus ?thesis by (simp only:) (rule for_xor_byte_at, simp)
qed

lemma unmask_vector:
  assumes "length key = 4" "k = 4 * lanes" "0 < lanes" "8 * k \<le> LENGTH('a::len)"
  shows "for_by 1 (length p div 4 * 4) (length p) (xor_byte_at key)
      (for_by 4 (length p div k * k) (length p div 4 * 4) (xor_at 4 (load_le key :: u32))
        (for_by k 0 (length p div k * k) (xor_at k (set1_epi32 lanes (load_le key) :: 'a word)) p))
    = unmask_spec key p"
proof -
  have "for_by k 0 (length p div k * k) (xor_at k (set1_epi32 lanes (load_le key) :: 'a word))
      (unmask_upto key 0 p) = unmask_upto key (length p div k * k) p"
    using assms by (intro for_xor_at [where lanes = lanes]) (auto simp: set1_epi32_key)
  moreover have "length p div k * k \<le> length p div 4 * 4"
  proof -
    have "length p div k * k div 4 \<le> length p div 4" by (intro div_le_mono) simp
    moreover have "length p div k * k div 4 * 4 = length p div k * k" using assms(2) by simp
    ultimately show ?thesis by (metis mult_le_mono1)
  qed
  ultimately show ?thesis
    using unmask_tail [OF assms(1), of "length p div k * k" p] assms(2) by simp
qed

lemma unmask_avx2: "length key = 4 \<Longrightarrow> ws_unmask_payload_avx2 p key = unmask_spec key p"
  unfolding ws_unmask_payload_avx2_def Let_def by (rule unmask_vector) auto

lemma unmask_sse2: "length key = 4 \<Longrightarrow> ws_unmask_payload_sse2 p key = unmask_spec key p"
  unfolding ws_unmask_payload_sse2_def Let_def by (rule unmask_vector) auto

lemma unmask_scalar:
  assumes "length key = 4"
  shows "ws_unmask_payload_scalar p key = unmask_spec key p"
proof -
  have "for_by 1 0 (length p div 4) (\<lambda>i. xor_at 4 (load_le key :: u32) (4 * i)) (unmask_upto key 0 p)
      = unmask_upto key (4 * (length p div 4)) p"
  proof (rule for_by_invariant [where I = "\<lambda>i q. q = unmask_upto key (4 * i) p"])
    fix j t assume "t = unmask_upto key (4 * j) p" "j + 1 \<le> length p div 4"
    thus "xor_at 4 (load_le key :: u32) (4 * j) t = unmask_upto key (4 * (j + 1)) p"
      using xor_at_step [of key 4 1 "4 * j" p "load_le key :: u32"] assms by (simp add: algebra_simps)
  qed auto
  thus ?thesis
    using for_xor_byte_at [of "length p div 4 * 4" p key]
    by (simp add: ws_unmask_payload_scalar_def Let_def mult.commute)
qed

lemma ws_unmask_payload_spec:
  "length key = 4 \<Longrightarrow> ws_unmask_payload cpu p key = unmask_spec key p"
  by (simp add: ws_unmask_payload_def unmask_avx2 unmask_sse2 unmask_scalar)

lemma unmask_spec_involution: "unmask_spec key (unmask_spec key p) = p"
  by (rule nth_equalityI) (auto simp: xor.assoc)

end
