(* ===== verification/Ws_Frame_Rfc.thy ===== *)
theory Ws_Frame_Rfc
  imports Ws_Frame
begin

text \<open>
  The wire format of RFC 6455 as a specification, and the correctness of the frame
  parser, the unmasking routines and the encoder against it.
\<close>

section \<open>RFC 6455 wire format\<close>

text \<open>The length field of section 5.2, with the mask bit.\<close>

definition rfc_len :: "bool \<Rightarrow> nat \<Rightarrow> bytes" where
  "rfc_len msk n =
    (let m = (if msk then 128 else 0) in
     if n < 126 then [m + word_of_nat n]
     else if n < 65536 then (m + 126) # be_bytes 2 n
     else (m + 127) # be_bytes 8 n)"

definition rfc_byte0 :: "bool \<Rightarrow> u8 \<Rightarrow> u8" where
  "rfc_byte0 fin opc = (if fin then 128 else 0) + opc"

fun rfc_frame :: "bool \<Rightarrow> u8 \<Rightarrow> bytes option \<Rightarrow> bytes \<Rightarrow> bytes" where
  "rfc_frame fin opc None p = rfc_byte0 fin opc # rfc_len False (length p) @ p"
| "rfc_frame fin opc (Some key) p =
    rfc_byte0 fin opc # rfc_len True (length p) @ key @ unmask_spec key p"

lemma rfc_byte0_check:
  "\<forall>n \<in> set [0..<16]. \<forall>f \<in> {True, False}.
      (rfc_byte0 f (word_of_nat n) AND WS_FRAME_FIN \<noteq> 0) = f \<and>
      rfc_byte0 f (word_of_nat n) AND 0x0F = word_of_nat n \<and>
      drop_bit 4 (rfc_byte0 f (word_of_nat n)) AND 0x07 = 0"
  by code_simp

lemma rfc_byte0_fields:
  assumes "opc < 16"
  shows "(rfc_byte0 fin opc AND WS_FRAME_FIN \<noteq> 0) = fin \<and> rfc_byte0 fin opc AND 0x0F = opc \<and>
    drop_bit 4 (rfc_byte0 fin opc) AND 0x07 = 0"
proof -
  have "unat opc \<in> set [0..<16]" using assms by (simp add: word_less_nat_alt)
  moreover have "fin \<in> {True, False}" by simp
  ultimately have "(rfc_byte0 fin (word_of_nat (unat opc)) AND WS_FRAME_FIN \<noteq> 0) = fin \<and>
      rfc_byte0 fin (word_of_nat (unat opc)) AND 0x0F = word_of_nat (unat opc) \<and>
      drop_bit 4 (rfc_byte0 fin (word_of_nat (unat opc))) AND 0x07 = 0"
    by (rule bspec [OF bspec [OF rfc_byte0_check]])
  moreover have "word_of_nat (unat opc) = opc" by simp
  ultimately show ?thesis by (simp only:)
qed

lemma rfc_len_first_check:
  "\<forall>n \<in> set [0..<128]. (128 + word_of_nat n :: u8) AND WS_FRAME_PAYLOAD_LEN = word_of_nat n \<and>
     (128 + word_of_nat n :: u8) AND WS_FRAME_MASK \<noteq> 0"
  by code_simp

lemma rfc_len_first:
  "n < 128 \<Longrightarrow> (128 + word_of_nat n :: u8) AND WS_FRAME_PAYLOAD_LEN = word_of_nat n \<and>
     (128 + word_of_nat n :: u8) AND WS_FRAME_MASK \<noteq> 0"
  using rfc_len_first_check by simp

lemma load_be_2: "load_be [a, b] = (push_bit 8 (ucast a) OR ucast b :: 'a::len word)"
  by (simp add: load_be_def)

lemma load_be_8:
  "load_be [a, b, c, d, e, f, g, h] =
    (push_bit 56 (ucast a) OR push_bit 48 (ucast b) OR push_bit 40 (ucast c) OR
     push_bit 32 (ucast d) OR push_bit 24 (ucast e) OR push_bit 16 (ucast f) OR
     push_bit 8 (ucast g) OR ucast h :: 'a::len word)"
  by (simp add: load_be_def push_bit_or or.assoc)

lemma be_bytes_2: "\<exists>a b. be_bytes 2 n = [a, b]"
  using length_be_bytes [of 2 n] by (simp only: numeral_2_eq_2 length_Suc_conv length_0_conv) blast

lemma be_bytes_8: "\<exists>a b c d e f g h. be_bytes 8 n = [a, b, c, d, e, f, g, h]"
proof -
  have "length (be_bytes 8 n) = Suc (Suc (Suc (Suc (Suc (Suc (Suc (Suc 0)))))))" by simp
  thus ?thesis by (simp only: length_Suc_conv length_0_conv) blast
qed

lemma ws_declared_len_take:
  assumes n: "n < 2 ^ 64" and k: "2 \<le> k" "k \<le> length F" and F: "F = b0 # rfc_len True n @ tail"
  shows "ws_declared_len (take k F) =
    (if k < 1 + length (rfc_len True n) then None
     else Some (word_of_nat n, 1 + length (rfc_len True n)))"
proof -
  consider "n < 126" | "126 \<le> n" "n < 65536" | "65536 \<le> n" by linarith
  thus ?thesis
  proof cases
    case 1
    hence "(ucast (word_of_nat n :: u8) :: u64) = word_of_nat n" "(word_of_nat n :: u8) < 126"
      by (simp_all add: unsigned_of_nat take_bit_nat_eq_self word_less_nat_alt unat_of_nat)
    thus ?thesis
      using 1 k rfc_len_first [of n] unfolding F by (simp add: ws_declared_len_def rfc_len_def)
  next
    case 2
    obtain a b where ab: "be_bytes 2 n = [a, b]" using be_bytes_2 by blast
    hence "(push_bit 8 (ucast a) OR ucast b :: u64) = word_of_nat n"
      using load_be_bytes [of n 2, where ?'a = 64] 2 by (simp add: load_be_2)
    note eq = this
    have F': "F = b0 # (128 + 126) # a # b # tail"
      using 2 ab by (simp add: F rfc_len_def)
    have "take k F ! 1 = 128 + 126" using k by (simp add: F')
    hence l7: "take k F ! 1 AND WS_FRAME_PAYLOAD_LEN = 126"
      using rfc_len_first [of 126] by simp
    have len: "length (take k F) = k" "1 + length (rfc_len True n) = 4"
      using k 2 by (simp_all add: rfc_len_def)
    show ?thesis
    proof (cases "k < 4")
      case True
      thus ?thesis using len l7 by (simp add: ws_declared_len_def)
    next
      case False
      hence "take k F ! 2 = a" "take k F ! 3 = b" by (simp_all add: F')
      thus ?thesis using False len l7 eq by (simp add: ws_declared_len_def)
    qed
  next
    case 3
    obtain a b c d e f g h where ab: "be_bytes 8 n = [a, b, c, d, e, f, g, h]"
      using be_bytes_8 by blast
    have n8: "n < 256 ^ 8" using n by simp
    have eq: "(push_bit 56 (ucast a) OR push_bit 48 (ucast b) OR push_bit 40 (ucast c) OR
        push_bit 32 (ucast d) OR push_bit 24 (ucast e) OR push_bit 16 (ucast f) OR
        push_bit 8 (ucast g) OR ucast h :: u64) = word_of_nat n"
      using load_be_bytes [OF n8, where ?'a = 64] unfolding ab load_be_8 .
    have F': "F = b0 # (128 + 127) # a # b # c # d # e # f # g # h # tail"
      using 3 ab by (simp add: F rfc_len_def)
    have "take k F ! 1 = 128 + 127" using k by (simp add: F')
    hence l7: "take k F ! 1 AND WS_FRAME_PAYLOAD_LEN = 127"
      using rfc_len_first [of 127] by simp
    have len: "length (take k F) = k" "1 + length (rfc_len True n) = 10"
      using k 3 by (simp_all add: rfc_len_def)
    show ?thesis
    proof (cases "k < 10")
      case True
      thus ?thesis using len l7 by (simp add: ws_declared_len_def)
    next
      case False
      hence "take k F ! 2 = a" "take k F ! 3 = b" "take k F ! 4 = c" "take k F ! 5 = d"
        "take k F ! 6 = e" "take k F ! 7 = f" "take k F ! 8 = g" "take k F ! 9 = h"
        by (simp_all add: F')
      thus ?thesis using False len l7 eq by (simp add: ws_declared_len_def)
    qed
  qed
qed


section \<open>Parsing what a conforming client sends\<close>

lemma rfc_len_True_first:
  assumes "F = b0 # rfc_len True n @ tail"
  shows "F ! 1 AND WS_FRAME_MASK \<noteq> 0"
  using assms rfc_len_first [of n] rfc_len_first [of 126] rfc_len_first [of 127]
  by (auto simp: rfc_len_def Let_def)

definition rfc_hdr :: "nat \<Rightarrow> nat" where
  "rfc_hdr n = 1 + length (rfc_len True n) + 4"

lemma rfc_hdr_cases: "rfc_hdr n = (if n < 126 then 6 else if n < 65536 then 8 else 14)"
  by (simp add: rfc_hdr_def rfc_len_def)

text \<open>The frame a masked client frame is parsed into.\<close>

definition client_frame :: "bool \<Rightarrow> u8 \<Rightarrow> bytes \<Rightarrow> nat \<Rightarrow> ws_frame" where
  "client_frame fin opc key n =
    \<lparr>f_fin = fin, f_opcode = opc, f_masked = True, f_payload_len = word_of_nat n, f_mask_key = key,
     f_payload = (if n = 0 then None else Some (rfc_hdr n)), f_header_len = rfc_hdr n,
     f_owns_payload = False\<rparr>"

lemma parse_header_take:
  assumes "n < 2 ^ 64" "2 \<le> k" "k \<le> length F" "opc < 16" "length key = 4" "n \<le> unat lim"
    and F: "F = rfc_byte0 fin opc # rfc_len True n @ key @ tail"
  shows "if k < rfc_hdr n then fst (ws_parse_frame_header (take k F) zero_frame lim) = 0
    else ws_parse_frame_header (take k F) zero_frame lim =
      (int (rfc_hdr n), client_frame fin opc key n\<lparr>f_payload := None\<rparr>)"
proof -
  have decl: "ws_declared_len (take k F) = (if k < 1 + length (rfc_len True n) then None
      else Some (word_of_nat n, 1 + length (rfc_len True n)))"
    using assms(1-3) F by (rule ws_declared_len_take)
  have b0: "take k F ! 0 = rfc_byte0 fin opc" using assms(2) F by simp
  have b1: "take k F ! 1 AND WS_FRAME_MASK \<noteq> 0"
    using rfc_len_True_first [OF F] assms(2) by simp
  have le: "\<not> lim < word_of_nat n"
    using assms(1,6) by (simp add: word_less_nat_alt unat_of_nat_u64)
  have len: "length (take k F) = k" using assms(3) by simp
  show ?thesis
  proof (cases "k < rfc_hdr n")
    case True
    thus ?thesis
      using assms(2) decl b0 b1 le len rfc_byte0_fields [OF assms(4), of fin]
      by (simp add: ws_parse_frame_header_def Let_def rfc_hdr_def)
  next
    case False
    hence "take 4 (drop (1 + length (rfc_len True n)) (take k F)) = key"
      using assms(5) by (simp add: F rfc_hdr_def take_drop drop_take)
    thus ?thesis
      using False assms(2) decl b0 b1 le len rfc_byte0_fields [OF assms(4), of fin]
      by (simp add: ws_parse_frame_header_def Let_def rfc_hdr_def client_frame_def zero_frame_def)
  qed
qed


lemma parse_total:
  assumes "h + n < 2 ^ 31"
  shows "sint (ucast (word_of_int (int h) + word_of_nat n :: u64) :: u32) = int (h + n)"
    and "unat (word_of_int (int h) + word_of_nat n :: u64) = h + n"
proof -
  have eq: "(word_of_int (int h) + word_of_nat n :: u64) = word_of_nat (h + n)" by simp
  have "(ucast (word_of_nat (h + n) :: u64) :: u32) = word_of_nat (h + n)"
    using assms by (simp add: unsigned_of_nat take_bit_nat_eq_self del: of_nat_add)
  thus "sint (ucast (word_of_int (int h) + word_of_nat n :: u64) :: u32) = int (h + n)"
    using assms unfolding eq
    by (simp add: signed_of_nat signed_take_bit_int_eq_self del: of_nat_add)
  show "unat (word_of_int (int h) + word_of_nat n :: u64) = h + n"
    using assms unfolding eq by (simp add: unat_of_nat del: of_nat_add)
qed

lemma length_rfc_client:
  "length key = 4 \<Longrightarrow> length (rfc_frame fin opc (Some key) p) = rfc_hdr (length p) + length p"
  by (simp add: rfc_hdr_def)

lemma rfc_hdr_le: "rfc_hdr n \<le> 14"
  by (simp add: rfc_hdr_cases)

lemma parse_client_frame:
  assumes "opc < 16" "length key = 4" "length p \<le> unat lim" "length p + 14 < 2 ^ 31"
    and "length p + length rest + 14 < 2 ^ 64"
  shows "ws_parse_frame cpu (rfc_frame fin opc (Some key) p @ rest) lim =
    (int (length (rfc_frame fin opc (Some key) p)), client_frame fin opc key (length p),
     rfc_byte0 fin opc # rfc_len True (length p) @ key @ p @ rest)"
proof -
  let ?n = "length p"
  let ?h = "rfc_hdr ?n"
  define pre where "pre = rfc_byte0 fin opc # rfc_len True ?n @ key"
  define F where "F = rfc_frame fin opc (Some key) p @ rest"
  have F: "F = pre @ unmask_spec key p @ rest" by (simp add: F_def pre_def)
  have pre: "length pre = ?h" using assms(2) by (simp add: pre_def rfc_hdr_def)
  have lF: "length F = ?h + ?n + length rest" unfolding F using pre by simp
  have n64: "?n < 2 ^ 64" using assms(4) by simp
  have h14: "?h \<le> 14" by (rule rfc_hdr_le)
  have two: "2 \<le> length F" using lF by (simp add: rfc_hdr_cases)
  have hdr: "ws_parse_frame_header F zero_frame lim =
      (int ?h, client_frame fin opc key ?n\<lparr>f_payload := None\<rparr>)"
    using parse_header_take [OF n64 two order.refl assms(1,2,3), of fin "unmask_spec key p @ rest"] lF
    by (simp add: F pre_def)
  have h0: "0 < ?h" by (simp add: rfc_hdr_cases)
  have tot: "?h + ?n < 2 ^ 31" using assms(4) h14 by linarith
  have enough: "\<not> (word_of_nat (length F) :: u64) < word_of_int (int ?h) + word_of_nat ?n"
    using parse_total(2) [OF tot] assms(5) lF h14 by (simp add: word_less_nat_alt unat_of_nat_u64 del: of_nat_add)
  have parts: "take ?h F = pre" "take ?n (drop ?h F) = unmask_spec key p" "drop (?h + ?n) F = rest"
    unfolding F using pre by simp_all
  have pos: "(0 < (word_of_nat ?n :: u64)) = (p \<noteq> [])"
    using n64 by (simp add: word_less_nat_alt unat_of_nat_u64)
  have total: "length (rfc_frame fin opc (Some key) p) = ?h + ?n"
    using assms(2) by (rule length_rfc_client)
  show ?thesis
    unfolding F_def [symmetric] total
    using two hdr h0 enough parts pos parse_total(1) [OF tot] n64 assms(2)
    by (auto simp: ws_parse_frame_def Let_def client_frame_def ws_unmask_payload_spec
        unmask_spec_involution unat_of_nat_u64 pre_def F)
qed


text \<open>
  C2. Whatever a conforming client sends is decoded: on the RFC 6455 encoding of a masked
  frame followed by any further bytes, the parser consumes exactly that frame, reports its
  fields, and leaves the unmasked payload in place, on every processor.
\<close>

theorem ws_parse_frame_rfc:
  assumes "opc < 16" "length key = 4" "length p \<le> unat lim" "length p + 14 < 2 ^ 31"
    and "length p + length rest + 14 < 2 ^ 64"
  shows "ws_parse_frame cpu (rfc_frame fin opc (Some key) p @ rest) lim =
    (int (length (rfc_frame fin opc (Some key) p)), client_frame fin opc key (length p),
     rfc_byte0 fin opc # rfc_len True (length p) @ key @ p @ rest)"
  using assms by (rule parse_client_frame)

theorem ws_parse_frame_rfc_witness:
  "ws_parse_frame \<lparr>cpu_avx2 = False, cpu_sse2 = True\<rparr> [129, 129, 1, 0, 0, 0, 105, 7] 100 =
    (7, client_frame True 1 [1, 0, 0, 0] 1, [129, 129, 1, 0, 0, 0, 104, 7])"
  using ws_parse_frame_rfc [of 1 "[1, 0, 0, 0]" "[104]" 100 "[7]"
      "\<lparr>cpu_avx2 = False, cpu_sse2 = True\<rparr>" True]
  by (simp add: rfc_len_def rfc_byte0_def unmask_spec_def)

text \<open>
  C3. A frame that has not arrived completely is never misread: on every non-empty strict
  prefix of a client frame the parser asks for more data and does not touch the buffer.
\<close>

theorem ws_parse_frame_incomplete:
  assumes "opc < 16" "length key = 4" "length p \<le> unat lim" "length p + 14 < 2 ^ 31"
    and "0 < k" "k < length (rfc_frame fin opc (Some key) p)"
  shows "\<exists>f. ws_parse_frame cpu (take k (rfc_frame fin opc (Some key) p)) lim =
    (0, f, take k (rfc_frame fin opc (Some key) p))"
proof -
  let ?n = "length p"
  define F where "F = rfc_frame fin opc (Some key) p"
  have F: "F = rfc_byte0 fin opc # rfc_len True ?n @ key @ unmask_spec key p" by (simp add: F_def)
  have lF: "length F = rfc_hdr ?n + ?n" unfolding F_def using assms(2) by (rule length_rfc_client)
  have k: "k < length F" using assms(6) by (simp add: F_def)
  have n64: "?n < 2 ^ 64" using assms(4) by simp
  have tot: "rfc_hdr ?n + ?n < 2 ^ 31" using assms(4) rfc_hdr_le [of ?n] by linarith
  have ne: "take k F \<noteq> []" using assms(5) by (simp add: F)
  show ?thesis
  proof (cases "k < 2")
    case True
    hence "length (take k F) < 2" by simp
    thus ?thesis using ne unfolding F_def [symmetric]
      by (simp add: ws_parse_frame_def ws_parse_frame_header_def del: length_take take_eq_Nil)
  next
    case False
    hence hdr: "if k < rfc_hdr ?n then fst (ws_parse_frame_header (take k F) zero_frame lim) = 0
        else ws_parse_frame_header (take k F) zero_frame lim =
          (int (rfc_hdr ?n), client_frame fin opc key ?n\<lparr>f_payload := None\<rparr>)"
      using parse_header_take [OF n64 _ _ assms(1,2,3) F] k by simp
    have more: "(word_of_nat (length (take k F)) :: u64) < word_of_int (int (rfc_hdr ?n)) + word_of_nat ?n"
      using parse_total(2) [OF tot] tot k lF
      by (simp add: word_less_nat_alt unat_of_nat_u64 del: of_nat_add)
    have h0: "int (rfc_hdr ?n) \<noteq> 0" "\<not> int (rfc_hdr ?n) < 0" by (simp_all add: rfc_hdr_cases)
    show ?thesis
    proof (cases "k < rfc_hdr ?n")
      case True
      thus ?thesis using hdr ne unfolding F_def [symmetric]
        by (simp add: ws_parse_frame_def case_prod_beta)
    next
      case False
      hence "ws_parse_frame_header (take k F) zero_frame lim =
          (int (rfc_hdr ?n), client_frame fin opc key ?n\<lparr>f_payload := None\<rparr>)" using hdr by simp
      thus ?thesis using ne more h0 unfolding F_def [symmetric]
        by (simp add: ws_parse_frame_def client_frame_def Let_def)
    qed
  qed
qed

theorem ws_parse_frame_incomplete_witness:
  "\<exists>f. ws_parse_frame \<lparr>cpu_avx2 = False, cpu_sse2 = False\<rparr> [129, 129, 1] 100 = (0, f, [129, 129, 1])"
  using ws_parse_frame_incomplete [of 1 "[1, 0, 0, 0]" "[104]" 100 3 True
      "\<lparr>cpu_avx2 = False, cpu_sse2 = False\<rparr>"]
  by (simp add: rfc_len_def rfc_byte0_def unmask_spec_def)

section \<open>Every input stays in bounds\<close>

lemma ws_declared_len_bound:
  "ws_declared_len data = Some (plen, hlen) \<Longrightarrow> 2 \<le> length data \<Longrightarrow>
   2 \<le> hlen \<and> hlen \<le> 10 \<and> hlen \<le> length data"
  by (auto simp: ws_declared_len_def Let_def split: if_splits)

lemma parse_header_bounds:
  assumes "ws_parse_frame_header data zero_frame lim = (h, f)" "0 < h"
  shows "h = int (f_header_len f) \<and> f_header_len f \<le> 14 \<and> f_header_len f \<le> length data \<and>
    unat (f_payload_len f) \<le> unat lim \<and> length (f_mask_key f) = 4 \<and> f_masked f"
proof -
  obtain plen hlen where d: "ws_declared_len data = Some (plen, hlen)" "\<not> length data < 2"
    using assms by (cases "ws_declared_len data")
      (auto simp: ws_parse_frame_header_def Let_def split: if_splits)
  have b: "2 \<le> hlen \<and> hlen \<le> 10 \<and> hlen \<le> length data"
    using ws_declared_len_bound [OF d(1)] d(2) by simp
  show ?thesis
    using assms d b
    by (auto simp: ws_parse_frame_header_def Let_def zero_frame_def word_less_nat_alt split: if_splits)
qed

lemma parse_frame_bounds:
  assumes "ws_parse_frame cpu data lim = (r, f, data')"
    and "unat lim + 14 < 2 ^ 31" "length data < 2 ^ 64"
  shows "length data' = length data \<and>
    (if 0 < r then
       nat r = f_header_len f + unat (f_payload_len f) \<and> nat r \<le> length data \<and>
       unat (f_payload_len f) \<le> unat lim \<and>
       take (f_header_len f) data' = take (f_header_len f) data \<and>
       drop (nat r) data' = drop (nat r) data \<and>
       frame_bytes f data' =
         unmask_spec (f_mask_key f) (take (unat (f_payload_len f)) (drop (f_header_len f) data))
     else (r = 0 \<or> r = -1) \<and> data' = data)"
proof -
  obtain h g where hg: "ws_parse_frame_header data zero_frame lim = (h, g)" by fastforce
  show ?thesis
  proof (cases "data \<noteq> [] \<and> 0 < h")
    case False
    thus ?thesis using assms(1) hg
      by (auto simp: ws_parse_frame_def split: if_splits)
  next
    case True
    let ?n = "unat (f_payload_len g)"
    let ?h = "f_header_len g"
    have b: "h = int ?h" "?h \<le> 14" "?h \<le> length data" "?n \<le> unat lim"
      "length (f_mask_key g) = 4" "f_masked g"
      using parse_header_bounds [OF hg] True by auto
    have tot: "?h + ?n < 2 ^ 31" using b assms(2) by linarith
    have pl: "f_payload_len g = word_of_nat ?n" by simp
    define T where "T = (word_of_int h + f_payload_len g :: u64)"
    have T: "sint (ucast T :: u32) = int (?h + ?n)" "unat T = ?h + ?n"
      using parse_total [OF tot] pl b(1) by (simp_all add: T_def)
    have data: "unat (word_of_nat (length data) :: u64) = length data"
      using assms(3) by (rule unat_of_nat_u64)
    have pos: "0 < int (?h + ?n)" using True b(1) by (simp del: of_nat_add)
    show ?thesis
    proof (cases "(word_of_nat (length data) :: u64) < T")
      case True
      thus ?thesis using \<open>data \<noteq> [] \<and> 0 < h\<close> assms(1) hg
        by (auto simp: ws_parse_frame_def T_def Let_def)
    next
      case False
      hence le: "?h + ?n \<le> length data" using T(2) data by (simp add: word_less_nat_alt)
      show ?thesis
      proof (cases "0 < f_payload_len g")
        case True
        hence "r = int (?h + ?n)" "f = g\<lparr>f_payload := Some ?h, f_owns_payload := False\<rparr>"
          "data' = take ?h data @ unmask_spec (f_mask_key g) (take ?n (drop ?h data)) @ drop (?h + ?n) data"
          using \<open>data \<noteq> [] \<and> 0 < h\<close> False assms(1) hg T b
          by (auto simp: ws_parse_frame_def T_def Let_def ws_unmask_payload_spec)
        thus ?thesis using le b pos by (simp add: frame_bytes_def del: of_nat_add)
      next
        case z: False
        hence "r = int (?h + ?n)" "f = g\<lparr>f_payload := None, f_owns_payload := False\<rparr>" "data' = data"
          using \<open>data \<noteq> [] \<and> 0 < h\<close> False assms(1) hg T b
          by (auto simp: ws_parse_frame_def T_def Let_def)
        moreover have "?n = 0" using z by (simp add: word_less_nat_alt)
        ultimately show ?thesis using le b pos
          by (simp add: frame_bytes_def unmask_spec_def del: of_nat_add)
      qed
    qed
  qed
qed


text \<open>
  C4. Memory safety of the parser on arbitrary bytes: when it reports a frame, the header and
  the payload lie inside the received bytes, the payload is within the configured limit (so the
  length arithmetic cannot wrap), only payload bytes are rewritten, and the reported length is
  the true one. On every other result the buffer is untouched.
\<close>

theorem ws_parse_frame_bounds:
  assumes "ws_parse_frame cpu data lim = (r, f, data')"
    and "unat lim + 14 < 2 ^ 31" "length data < 2 ^ 64"
  shows "length data' = length data \<and>
    (if 0 < r then
       nat r = f_header_len f + unat (f_payload_len f) \<and> nat r \<le> length data \<and>
       unat (f_payload_len f) \<le> unat lim \<and>
       take (f_header_len f) data' = take (f_header_len f) data \<and>
       drop (nat r) data' = drop (nat r) data \<and>
       frame_bytes f data' =
         unmask_spec (f_mask_key f) (take (unat (f_payload_len f)) (drop (f_header_len f) data))
     else (r = 0 \<or> r = -1) \<and> data' = data)"
  using assms by (rule parse_frame_bounds)

theorem ws_parse_frame_bounds_witness:
  "frame_bytes (client_frame True 1 [1, 0, 0, 0] 1) [129, 129, 1, 0, 0, 0, 104, 7] = [104]"
proof -
  have "ws_parse_frame \<lparr>cpu_avx2 = False, cpu_sse2 = False\<rparr> [129, 129, 1, 0, 0, 0, 105, 7] 100 =
      (7, client_frame True 1 [1, 0, 0, 0] 1, [129, 129, 1, 0, 0, 0, 104, 7])"
    by code_simp
  from ws_parse_frame_bounds [OF this] show ?thesis
    by (simp add: client_frame_def unmask_spec_def rfc_hdr_cases)
qed

section \<open>Encoding\<close>

lemma ucast_shifted_byte:
  assumes "k + 8 \<le> 64"
  shows "ucast (drop_bit k (word_of_nat n :: u64) AND 0xFF) = (word_of_nat (n div 2 ^ k mod 256) :: u8)"
proof (rule bit_word_eqI)
  fix i assume i: "i < LENGTH(8)"
  have m: "(0xFF :: u64) = Bit_Operations.mask 8" by (simp add: mask_eq_exp_minus_1)
  have d: "n div 2 ^ k mod 256 = take_bit 8 (drop_bit k n)"
    by (simp add: take_bit_eq_mod drop_bit_eq_div)
  show "bit (ucast (drop_bit k (word_of_nat n :: u64) AND 0xFF) :: u8) i =
      bit (word_of_nat (n div 2 ^ k mod 256) :: u8) i"
    unfolding m d using i assms
    by (simp add: bit_unsigned_iff bit_and_iff bit_drop_bit_eq bit_of_nat_iff bit_mask_iff
        bit_take_bit_iff ac_simps)
qed

lemma be_bytes_2_eq: "be_bytes 2 n = [word_of_nat (n div 256 mod 256), word_of_nat (n mod 256)]"
  by (simp only: numeral_2_eq_2 be_bytes.simps) simp

lemma be_bytes_8_eq:
  "be_bytes 8 n =
    [word_of_nat (n div 2 ^ 56 mod 256), word_of_nat (n div 2 ^ 48 mod 256),
     word_of_nat (n div 2 ^ 40 mod 256), word_of_nat (n div 2 ^ 32 mod 256),
     word_of_nat (n div 2 ^ 24 mod 256), word_of_nat (n div 2 ^ 16 mod 256),
     word_of_nat (n div 2 ^ 8 mod 256), word_of_nat (n mod 256)]"
proof -
  have "(8 :: nat) = Suc (Suc (Suc (Suc (Suc (Suc (Suc (Suc 0)))))))" by simp
  thus ?thesis by (simp only: be_bytes.simps) (simp add: div_mult2_eq [symmetric])
qed

lemma encode_byte0_check:
  "\<forall>n \<in> set [0..<16]. WS_FRAME_FIN OR (word_of_nat n AND 0x0F) = rfc_byte0 True (word_of_nat n)"
  by code_simp

lemma encode_byte0:
  assumes "opc < 16"
  shows "WS_FRAME_FIN OR (opc AND 0x0F) = rfc_byte0 True opc"
proof -
  have "unat opc \<in> set [0..<16]" using assms by (simp add: word_less_nat_alt)
  from bspec [OF encode_byte0_check this] show ?thesis by simp
qed

lemma ws_encode_frame_rfc_aux:
  assumes "opc < 16" "length p < 2 ^ 63"
  shows "ws_encode_frame malloc_ok opc p =
    (if malloc_ok (length (rfc_frame True opc None p)) then Some (rfc_frame True opc None p) else None)"
proof -
  let ?n = "length p"
  have b0: "WS_FRAME_FIN OR (opc AND 0x0F) = rfc_byte0 True opc"
    using assms(1) by (rule encode_byte0)
  have u: "unat (word_of_nat ?n :: u64) = ?n" using assms(2) by (intro unat_of_nat_u64) simp
  have lt: "((word_of_nat ?n :: u64) < 126) = (?n < 126)" "((word_of_nat ?n :: u64) \<le> 0xFFFF) = (?n < 65536)"
    using u by (auto simp: word_less_nat_alt word_le_nat_alt)
  have c8: "ucast (word_of_nat ?n :: u64) = (word_of_nat ?n :: u8)" if "?n < 126"
    using that by (simp add: unsigned_of_nat take_bit_nat_eq_self)
  have c0: "ucast ((word_of_nat ?n :: u64) AND 0xFF) = (word_of_nat (?n mod 256) :: u8)"
    using ucast_shifted_byte [of 0 ?n] by simp
  have l: "length (rfc_frame True opc None p) = (if ?n < 126 then 2 else if ?n < 65536 then 4 else 10) + ?n"
    by (simp add: rfc_len_def)
  have "ws_encode_frame malloc_ok opc p =
      (if malloc_ok ((if ?n < 126 then 2 else if ?n < 65536 then 4 else 10) + ?n)
       then Some (rfc_frame True opc None p) else None)"
  proof -
    consider "?n < 126" | "126 \<le> ?n" "?n < 65536" | "65536 \<le> ?n" by linarith
    thus ?thesis
    proof cases
      case 1
      thus ?thesis using b0 lt c8 by (simp add: ws_encode_frame_def Let_def rfc_len_def)
    next
      case 2
      thus ?thesis using b0 lt c0 ucast_shifted_byte [of 8 ?n]
        by (simp add: ws_encode_frame_def Let_def rfc_len_def be_bytes_2_eq)
    next
      case 3
      thus ?thesis using b0 lt c0 unfolding ws_encode_frame_def Let_def
        by (simp add: ucast_shifted_byte rfc_len_def be_bytes_8_eq)
    qed
  qed
  thus ?thesis unfolding l .
qed

text \<open>
  C5. The encoder emits the RFC 6455 server frame (unmasked, FIN set, shortest length form)
  whenever the allocation succeeds, and reports failure otherwise.
\<close>

theorem ws_encode_frame_rfc:
  assumes "opc < 16" "length p < 2 ^ 63"
  shows "ws_encode_frame malloc_ok opc p =
    (if malloc_ok (length (rfc_frame True opc None p)) then Some (rfc_frame True opc None p) else None)"
  using assms by (rule ws_encode_frame_rfc_aux)

theorem ws_encode_frame_rfc_witness:
  "ws_encode_frame (\<lambda>_. True) 1 [104, 105] = Some [129, 2, 104, 105]"
  using ws_encode_frame_rfc [of 1 "[104, 105]" "\<lambda>_. True"]
  by (simp add: rfc_len_def rfc_byte0_def)

text \<open>
  C6. The AVX2, the SSE2 and the scalar unmasking routines compute the same function, the XOR
  with the repeated key, and applying it twice restores the payload.
\<close>

theorem ws_unmask_payload_correct:
  assumes "length key = 4"
  shows "ws_unmask_payload cpu p key = unmask_spec key p \<and>
    ws_unmask_payload cpu (ws_unmask_payload cpu p key) key = p"
  using assms by (simp add: ws_unmask_payload_spec unmask_spec_involution)

theorem ws_unmask_payload_correct_witness:
  "ws_unmask_payload \<lparr>cpu_avx2 = True, cpu_sse2 = True\<rparr> [1, 2, 3, 4, 5] [1, 1, 1, 1] = [0, 3, 2, 5, 4]"
  using ws_unmask_payload_correct
    [of "[1, 1, 1, 1]" "\<lparr>cpu_avx2 = True, cpu_sse2 = True\<rparr>" "[1, 2, 3, 4, 5]"]
  by (simp add: unmask_spec_def upt_rec)

end
