(* ===== verification/Key_Map.thy ===== *)
theory Key_Map
  imports Portico_Prelude
begin

text \<open>
  The interface of a keyed table, as the connection hash, the descriptor map of an event thread
  and the ACME token store implement it, and what follows for any sequence of operations.
\<close>

datatype ('k, 'v) map_op = Ins 'k 'v | Del 'k

primrec map_spec :: "('k, 'v) map_op \<Rightarrow> ('k \<rightharpoonup> 'v) \<Rightarrow> ('k \<rightharpoonup> 'v)" where
  "map_spec (Ins k v) m = m(k \<mapsto> v)"
| "map_spec (Del k) m = m(k := None)"

primrec map_step :: "('k \<Rightarrow> 'v \<Rightarrow> 't \<Rightarrow> 't) \<Rightarrow> ('k \<Rightarrow> 't \<Rightarrow> 't) \<Rightarrow> ('k, 'v) map_op \<Rightarrow> 't \<Rightarrow> 't" where
  "map_step ins del (Ins k v) t = ins k v t"
| "map_step ins del (Del k) t = del k t"

text \<open>Every key of the sequence is admissible, and is inserted only while absent.\<close>

primrec map_fresh :: "('k \<Rightarrow> bool) \<Rightarrow> ('k, 'v) map_op list \<Rightarrow> ('k \<rightharpoonup> 'v) \<Rightarrow> bool" where
  "map_fresh ok [] m = True"
| "map_fresh ok (op # ops) m =
    ((case op of Ins k v \<Rightarrow> ok k \<and> m k = None | Del k \<Rightarrow> ok k) \<and> map_fresh ok ops (map_spec op m))"

locale key_map =
  fixes ok :: "'k \<Rightarrow> bool"
    and inv :: "'t \<Rightarrow> bool"
    and lookup :: "'t \<Rightarrow> 'k \<rightharpoonup> 'v"
    and ins :: "'k \<Rightarrow> 'v \<Rightarrow> 't \<Rightarrow> 't"
    and del :: "'k \<Rightarrow> 't \<Rightarrow> 't"
  assumes ins_fresh: "inv t \<Longrightarrow> ok k \<Longrightarrow> lookup t k = None \<Longrightarrow>
      inv (ins k v t) \<and> lookup (ins k v t) = (lookup t)(k \<mapsto> v)"
    and del_any: "inv t \<Longrightarrow> ok k \<Longrightarrow> inv (del k t) \<and> lookup (del k t) = (lookup t)(k := None)"
begin

lemma run_refines:
  assumes "inv t" "map_fresh ok ops (lookup t)"
  shows "inv (fold (map_step ins del) ops t) \<and>
    lookup (fold (map_step ins del) ops t) = fold map_spec ops (lookup t)"
  using assms
proof (induction ops arbitrary: t)
  case Nil
  thus ?case by simp
next
  case (Cons op ops)
  have "inv (map_step ins del op t) \<and> lookup (map_step ins del op t) = map_spec op (lookup t)"
    using Cons.prems ins_fresh del_any by (cases op) auto
  thus ?case using Cons.IH [of "map_step ins del op t"] Cons.prems(2) by simp
qed

lemma del_ins: "inv t \<Longrightarrow> ok k \<Longrightarrow> lookup t k = None \<Longrightarrow> lookup (del k (ins k v t)) = lookup t"
  using ins_fresh [of t k v] del_any [of "ins k v t" k] by (auto simp: fun_eq_iff)

end

text \<open>A table whose insertion also replaces.\<close>

locale over_map = key_map +
  assumes ins_over: "inv t \<Longrightarrow> ok k \<Longrightarrow> inv (ins k v t) \<and> lookup (ins k v t) = (lookup t)(k \<mapsto> v)"
begin

lemma run_over:
  assumes "inv t" "\<forall>op \<in> set ops. case op of Ins k v \<Rightarrow> ok k | Del k \<Rightarrow> ok k"
  shows "inv (fold (map_step ins del) ops t) \<and>
    lookup (fold (map_step ins del) ops t) = fold map_spec ops (lookup t)"
  using assms
proof (induction ops arbitrary: t)
  case Nil
  thus ?case by simp
next
  case (Cons op ops)
  have "inv (map_step ins del op t) \<and> lookup (map_step ins del op t) = map_spec op (lookup t)"
    using Cons.prems ins_over del_any by (cases op) auto
  thus ?case using Cons.IH [of "map_step ins del op t"] Cons.prems(2) by simp
qed

end

end
