(* ===== verification/Ws_Connection.thy ===== *)
theory Ws_Connection
  imports Ws_Utils Key_Map
begin

text \<open>
  Connections (ws\_connection.c, ws\_connection.h): the socket as the code sees it, the connection
  slot with its life cycle and reference count, the write buffer, and the two-level hash table
  from descriptors to slots.
\<close>

section \<open>Sockets\<close>

text \<open>
  The kernel side of a non-blocking stream socket: the bytes it has accepted so far, and how it
  answers the next calls. A send takes at most the offered number of bytes, would block, or
  fails; a receive delivers bytes (none: the peer has closed), would block, or fails. When no
  further answer is given the socket would block. \<open>sk_epollout\<close> tells whether the descriptor
  is armed for writability; \<open>sk_epoll_ok\<close> whether changing it succeeds.
\<close>

datatype wr_answer = WrTake nat | WrAgain | WrFail
datatype rd_answer = RdBytes bytes | RdAgain | RdFail
datatype io_ret = Sent nat | Again | Fail

record sock =
  sk_wire :: bytes
  sk_wr :: "wr_answer list"
  sk_rd :: "rd_answer list"
  sk_epollout :: bool
  sk_epoll_ok :: bool

definition ws_conn_socket_write :: "sock \<Rightarrow> bytes \<Rightarrow> io_ret \<times> sock" where
  "ws_conn_socket_write sk buf =
    (case sk_wr sk of
       [] \<Rightarrow> (Again, sk)
     | WrTake n # rest \<Rightarrow>
         (Sent (min n (length buf)), sk\<lparr>sk_wire := sk_wire sk @ take n buf, sk_wr := rest\<rparr>)
     | WrAgain # rest \<Rightarrow> (Again, sk\<lparr>sk_wr := rest\<rparr>)
     | WrFail # rest \<Rightarrow> (Fail, sk\<lparr>sk_wr := rest\<rparr>))"

definition ws_conn_socket_read :: "sock \<Rightarrow> nat \<Rightarrow> rd_answer \<times> sock" where
  "ws_conn_socket_read sk space =
    (case sk_rd sk of
       [] \<Rightarrow> (RdAgain, sk)
     | RdBytes bs # rest \<Rightarrow>
         if length bs \<le> space then (RdBytes bs, sk\<lparr>sk_rd := rest\<rparr>)
         else (RdBytes (take space bs), sk\<lparr>sk_rd := RdBytes (drop space bs) # rest\<rparr>)
     | RdAgain # rest \<Rightarrow> (RdAgain, sk\<lparr>sk_rd := rest\<rparr>)
     | RdFail # rest \<Rightarrow> (RdFail, sk\<lparr>sk_rd := rest\<rparr>))"

section \<open>The connection slot\<close>

datatype ws_state =
  WS_STATE_CONNECTING | WS_STATE_OPEN | WS_STATE_CLOSING | WS_STATE_CLOSED | WS_STATE_HTTP
  | WS_STATE_TLS_HANDSHAKE

record ws_frame_parser =
  fp_in_fragmented_message :: bool
  fp_fragment_opcode :: u8
  fp_fragment_buffer :: "bytes option"
  fp_fragment_buffer_size :: nat
  fp_fragment_total_size :: nat

datatype user_ptr = UserNull | UserHost | UserApp nat

text \<open>
  Buffers are the bytes in use (\<open>recv_buffer[0..recv_buffer_used)\<close>,
  \<open>write_buffer[0..write_buffer_used)\<close>, \<open>out_buffer[0..out_used)\<close>) beside the capacity;
  a capacity of 0 is the NULL buffer.
\<close>

record ws_connection =
  c_fd :: u32
  c_state :: ws_state
  c_ref_count :: u32
  c_connect_time :: u32
  c_last_activity :: u32
  c_ping_sent_at :: u32
  c_read_buffer_idx :: u32
  c_write_buffer_idx :: u32
  c_hash_next :: u32
  c_thread_id :: u16
  c_pool_index :: u16
  c_generation :: u32
  c_frame_parser :: ws_frame_parser
  c_recv :: bytes
  c_recv_capacity :: nat
  c_write_buffer :: bytes
  c_write_buffer_size :: nat
  c_syscall_count :: u64
  c_out :: bytes
  c_out_capacity :: nat
  c_out_sent :: nat
  c_out_close_when_drained :: bool
  c_http_async_inflight :: bool
  c_file_stream :: "nat option"
  c_user_data :: user_ptr
  c_host :: bytes
  c_ssl :: bool

definition zero_frame_parser :: ws_frame_parser where
  "zero_frame_parser = \<lparr>fp_in_fragmented_message = False, fp_fragment_opcode = 0,
     fp_fragment_buffer = None, fp_fragment_buffer_size = 0, fp_fragment_total_size = 0\<rparr>"

text \<open>The slot after \<open>memset(conn, 0, sizeof(ws_connection_t))\<close>.\<close>

definition zero_connection :: ws_connection where
  "zero_connection = \<lparr>c_fd = 0, c_state = WS_STATE_CONNECTING, c_ref_count = 0, c_connect_time = 0,
     c_last_activity = 0, c_ping_sent_at = 0, c_read_buffer_idx = 0, c_write_buffer_idx = 0,
     c_hash_next = 0, c_thread_id = 0, c_pool_index = 0, c_generation = 0,
     c_frame_parser = zero_frame_parser, c_recv = [], c_recv_capacity = 0, c_write_buffer = [],
     c_write_buffer_size = 0, c_syscall_count = 0, c_out = [], c_out_capacity = 0, c_out_sent = 0,
     c_out_close_when_drained = False, c_http_async_inflight = False, c_file_stream = None,
     c_user_data = UserNull, c_host = [], c_ssl = False\<rparr>"

definition ws_connection_init ::
  "(nat \<Rightarrow> bool) \<Rightarrow> u32 \<Rightarrow> ws_connection \<Rightarrow> u32 \<Rightarrow> u16 \<Rightarrow> u16 \<Rightarrow> ws_connection" where
  "ws_connection_init malloc_ok now conn fd thread_id pool_index =
    (let next_generation = c_generation conn + 1
     in zero_connection\<lparr>c_generation := next_generation, c_fd := fd, c_state := WS_STATE_CONNECTING,
          c_connect_time := now, c_last_activity := now, c_ping_sent_at := 0,
          c_thread_id := thread_id, c_pool_index := pool_index, c_read_buffer_idx := UINT32_MAX,
          c_write_buffer_idx := UINT32_MAX, c_hash_next := UINT32_MAX, c_ref_count := 1,
          c_frame_parser := zero_frame_parser, c_recv := [],
          c_recv_capacity := (if malloc_ok 16384 then 16384 else 0),
          c_out := [], c_out_capacity := 0, c_out_sent := 0, c_out_close_when_drained := False\<rparr>)"

definition ws_connection_set_state :: "ws_connection \<Rightarrow> ws_state \<Rightarrow> ws_connection" where
  "ws_connection_set_state conn st = conn\<lparr>c_state := st\<rparr>"

definition ws_connection_is_active :: "ws_connection \<Rightarrow> bool" where
  "ws_connection_is_active conn \<longleftrightarrow>
    c_state conn = WS_STATE_CONNECTING \<or> c_state conn = WS_STATE_OPEN"

definition ws_connection_ref :: "ws_connection \<Rightarrow> ws_connection" where
  "ws_connection_ref conn = conn\<lparr>c_ref_count := c_ref_count conn + 1\<rparr>"

text \<open>The result tells whether this was the last reference.\<close>

definition ws_connection_unref :: "ws_connection \<Rightarrow> bool \<times> ws_connection" where
  "ws_connection_unref conn =
    (let old_count = c_ref_count conn
     in (old_count = 1, conn\<lparr>c_ref_count := old_count - 1\<rparr>))"

definition ws_connection_update_activity :: "ws_connection \<Rightarrow> u32 \<Rightarrow> ws_connection" where
  "ws_connection_update_activity conn t = conn\<lparr>c_last_activity := t\<rparr>"

definition ws_connection_add_bytes_received :: "u32 \<Rightarrow> ws_connection \<Rightarrow> ws_connection" where
  "ws_connection_add_bytes_received now conn = conn\<lparr>c_last_activity := now, c_ping_sent_at := 0\<rparr>"

section \<open>Write buffer\<close>

definition WS_DEFAULT_WRITE_BUFFER_SIZE :: nat where
  "WS_DEFAULT_WRITE_BUFFER_SIZE = 65536"

definition ws_connection_init_write_buffer :: "(nat \<Rightarrow> bool) \<Rightarrow> ws_connection \<Rightarrow> int \<times> ws_connection" where
  "ws_connection_init_write_buffer malloc_ok conn =
    (if c_write_buffer_size conn \<noteq> 0 then (0, conn)
     else if \<not> malloc_ok WS_DEFAULT_WRITE_BUFFER_SIZE then (-1, conn)
     else (0, conn\<lparr>c_write_buffer_size := WS_DEFAULT_WRITE_BUFFER_SIZE, c_write_buffer := [],
             c_syscall_count := 0\<rparr>))"

definition ws_connection_flush_write_buffer ::
  "sock \<Rightarrow> ws_connection \<Rightarrow> int \<times> ws_connection \<times> sock" where
  "ws_connection_flush_write_buffer sk conn =
    (if c_write_buffer_size conn = 0 \<or> c_write_buffer conn = [] then (0, conn, sk)
     else
       let (ret, sk) = ws_conn_socket_write sk (c_write_buffer conn);
           conn = conn\<lparr>c_syscall_count := c_syscall_count conn + 1\<rparr>
       in case ret of
            Again \<Rightarrow> (0, conn, sk)
          | Fail \<Rightarrow> (-1, conn, sk)
          | Sent n \<Rightarrow> (int n, conn\<lparr>c_write_buffer := drop n (c_write_buffer conn)\<rparr>, sk))"

definition sent_result :: "io_ret \<Rightarrow> int" where
  "sent_result ret = (case ret of Sent n \<Rightarrow> int n | _ \<Rightarrow> -1)"

definition ws_connection_buffered_send ::
  "(nat \<Rightarrow> bool) \<Rightarrow> sock \<Rightarrow> ws_connection \<Rightarrow> bytes \<Rightarrow> int \<times> ws_connection \<times> sock" where
  "ws_connection_buffered_send malloc_ok sk conn data =
    (if data = [] then (-1, conn, sk)
     else
       let (rc, conn) = (if c_write_buffer_size conn = 0
                         then ws_connection_init_write_buffer malloc_ok conn else (0, conn))
       in if rc \<noteq> 0 then
            let (ret, sk) = ws_conn_socket_write sk data in (sent_result ret, conn, sk)
          else if length data > c_write_buffer_size conn then
            let (conn, sk) = (if c_write_buffer conn \<noteq> []
                              then snd (ws_connection_flush_write_buffer sk conn) else (conn, sk));
                (ret, sk) = ws_conn_socket_write sk data;
                conn = conn\<lparr>c_syscall_count := c_syscall_count conn + 1\<rparr>
            in (sent_result ret, conn, sk)
          else if length (c_write_buffer conn) + length data \<le> c_write_buffer_size conn then
            (int (length data), conn\<lparr>c_write_buffer := c_write_buffer conn @ data\<rparr>, sk)
          else
            let (flushed, conn, sk) = ws_connection_flush_write_buffer sk conn
            in if flushed < 0 then (-1, conn, sk)
               else if length (c_write_buffer conn) + length data > c_write_buffer_size conn then (-1, conn, sk)
               else (int (length data), conn\<lparr>c_write_buffer := c_write_buffer conn @ data\<rparr>, sk))"

definition ws_connection_cleanup_write_buffer :: "sock \<Rightarrow> ws_connection \<Rightarrow> ws_connection \<times> sock" where
  "ws_connection_cleanup_write_buffer sk conn =
    (let (conn, sk) = (if c_write_buffer conn \<noteq> []
                       then snd (ws_connection_flush_write_buffer sk conn) else (conn, sk))
     in (if c_write_buffer_size conn \<noteq> 0
         then conn\<lparr>c_write_buffer_size := 0, c_write_buffer := []\<rparr> else conn, sk))"

text \<open>
  The stream that is aborted with the connection, if any, is the first component of the
  result. The reuse generation survives the wipe.
\<close>

definition ws_connection_cleanup ::
  "sock \<Rightarrow> ws_connection \<Rightarrow> nat option \<times> ws_connection \<times> sock" where
  "ws_connection_cleanup sk conn =
    (let (conn', sk) = ws_connection_cleanup_write_buffer sk conn
     in (c_file_stream conn, zero_connection\<lparr>c_generation := c_generation conn\<rparr>, sk))"

section \<open>Hash table\<close>

text \<open>
  A bucket holds the entries \<open>(fd, conn)\<close> in array order, a connection being referred to by
  its slot; a capacity of 0 is a bucket not allocated yet.
\<close>

type_synonym hash_entry = "u32 \<times> nat"

record ws_connection_hash =
  h_level1 :: "hash_entry list list"
  h_capacities :: "nat list"
  h_total_connections :: u32
  h_hash_collisions :: u32

definition ws_connection_hash_create :: "(nat \<Rightarrow> bool) \<Rightarrow> ws_connection_hash option" where
  "ws_connection_hash_create lock_ok =
    (if list_all lock_ok [0..<256] then
       Some \<lparr>h_level1 = replicate 256 [], h_capacities = replicate 256 0, h_total_connections = 0,
             h_hash_collisions = 0\<rparr>
     else None)"

definition hash_bucket :: "u32 \<Rightarrow> nat" where
  "hash_bucket fd = unat (drop_bit 24 (ws_fnv1a_hash_uint32 fd) AND 0xFF)"

definition ws_connection_hash_insert ::
  "(nat \<Rightarrow> bool) \<Rightarrow> ws_connection_hash \<Rightarrow> u32 \<Rightarrow> nat \<Rightarrow> int \<times> ws_connection_hash" where
  "ws_connection_hash_insert malloc_ok hash fd conn =
    (let bucket = hash_bucket fd;
         entries = h_level1 hash ! bucket;
         cap = h_capacities hash ! bucket
     in if cap = 0 \<and> \<not> malloc_ok (16 * 32) then (-1, hash)
        else if cap \<noteq> 0 \<and> length entries \<ge> cap \<and> \<not> malloc_ok (16 * (cap * 2)) then
          (-1, hash\<lparr>h_hash_collisions := h_hash_collisions hash + 1\<rparr>)
        else
          let cap' = (if cap = 0 then 32 else if length entries \<ge> cap then cap * 2 else cap)
          in (0, hash\<lparr>h_capacities := (h_capacities hash)[bucket := cap'],
                      h_level1 := (h_level1 hash)[bucket := entries @ [(fd, conn)]],
                      h_total_connections := h_total_connections hash + 1\<rparr>))"

text \<open>The first entry with the stored descriptor. A negative descriptor is never found.\<close>

definition ws_connection_hash_find :: "ws_connection_hash \<Rightarrow> int \<Rightarrow> nat option" where
  "ws_connection_hash_find hash fd =
    (if fd < 0 then None
     else map_option snd (List.find (\<lambda>e. fst e = word_of_int fd) (h_level1 hash ! hash_bucket (word_of_int fd))))"

text \<open>Removal moves the last entry of the bucket into the gap.\<close>

fun find_index :: "u32 \<Rightarrow> hash_entry list \<Rightarrow> nat option" where
  "find_index fd [] = None"
| "find_index fd (e # es) = (if fst e = fd then Some 0 else map_option Suc (find_index fd es))"

definition bucket_remove :: "nat \<Rightarrow> hash_entry list \<Rightarrow> hash_entry list" where
  "bucket_remove i es =
    (let last_i = length es - 1
     in take last_i (if i < last_i then es[i := es ! last_i] else es))"

definition ws_connection_hash_remove :: "ws_connection_hash \<Rightarrow> int \<Rightarrow> int \<times> ws_connection_hash" where
  "ws_connection_hash_remove hash fd =
    (if fd < 0 then (-1, hash)
     else
       let bucket = hash_bucket (word_of_int fd);
           entries = h_level1 hash ! bucket
       in case find_index (word_of_int fd) entries of
            None \<Rightarrow> (-1, hash)
          | Some i \<Rightarrow>
              (0, hash\<lparr>h_level1 := (h_level1 hash)[bucket := bucket_remove i entries],
                       h_total_connections := h_total_connections hash - 1\<rparr>))"

text \<open>Lookup that takes a reference on the slot found, under the bucket lock.\<close>

definition ws_connection_hash_find_and_ref ::
  "ws_connection_hash \<Rightarrow> int \<Rightarrow> ws_connection list \<Rightarrow> nat option \<times> ws_connection list" where
  "ws_connection_hash_find_and_ref hash fd slots =
    (case ws_connection_hash_find hash fd of
       None \<Rightarrow> (None, slots)
     | Some i \<Rightarrow> (Some i, slots[i := ws_connection_ref (slots ! i)]))"

section \<open>The hash table is a map\<close>

definition hash_inv :: "ws_connection_hash \<Rightarrow> bool" where
  "hash_inv h \<longleftrightarrow> length (h_level1 h) = 256 \<and> length (h_capacities h) = 256 \<and>
    (\<forall>b < 256. distinct (map fst (h_level1 h ! b)))"

definition fd_ok :: "int \<Rightarrow> bool" where
  "fd_ok fd \<longleftrightarrow> 0 \<le> fd \<and> fd < 2 ^ 31"

definition hash_ins :: "int \<Rightarrow> nat \<Rightarrow> ws_connection_hash \<Rightarrow> ws_connection_hash" where
  "hash_ins fd conn h = snd (ws_connection_hash_insert (\<lambda>_. True) h (word_of_int fd) conn)"

definition hash_del :: "int \<Rightarrow> ws_connection_hash \<Rightarrow> ws_connection_hash" where
  "hash_del fd h = snd (ws_connection_hash_remove h fd)"

definition hash_lookup :: "ws_connection_hash \<Rightarrow> int \<Rightarrow> nat option" where
  "hash_lookup h fd = (if fd_ok fd then ws_connection_hash_find h fd else None)"

lemma hash_bucket_less: "hash_bucket fd < 256"
proof -
  have "drop_bit 24 (ws_fnv1a_hash_uint32 fd) AND 0xFF \<le> (0xFF :: u64)" by (rule word_and_le1)
  thus ?thesis by (simp add: hash_bucket_def word_le_nat_alt)
qed

lemma find_map_of: "map_option snd (List.find (\<lambda>e. fst e = k) es) = map_of es k"
  by (induction es) auto

lemma fd_word_inject: "fd_ok a \<Longrightarrow> fd_ok b \<Longrightarrow> (word_of_int a :: u32) = word_of_int b \<longleftrightarrow> a = b"
proof -
  assume "fd_ok a" "fd_ok b"
  hence "uint (word_of_int a :: u32) = a" "uint (word_of_int b :: u32) = b"
    by (simp_all add: fd_ok_def uint_word_of_int)
  thus ?thesis by metis
qed

lemma find_index_split:
  "find_index k es = Some i \<Longrightarrow> \<exists>xs v ys. es = xs @ (k, v) # ys \<and> length xs = i"
proof (induction es arbitrary: i)
  case Nil
  thus ?case by simp
next
  case (Cons e es)
  show ?case
  proof (cases "fst e = k")
    case True
    thus ?thesis using Cons.prems by (intro exI [of _ "[]"] exI [of _ "snd e"] exI [of _ es]) auto
  next
    case False
    then obtain j where "find_index k es = Some j" "i = Suc j" using Cons.prems by auto
    then obtain xs v ys where "es = xs @ (k, v) # ys" "length xs = j" using Cons.IH by blast
    thus ?thesis using \<open>i = Suc j\<close> by (intro exI [of _ "e # xs"] exI [of _ v] exI [of _ ys]) simp
  qed
qed

lemma find_index_None: "find_index k es = None \<Longrightarrow> map_of es k = None"
  by (induction es) (auto split: if_splits)

lemma bucket_remove_last: "bucket_remove (length xs) (xs @ [e]) = xs"
  by (simp add: bucket_remove_def Let_def)

lemma bucket_remove_swap: "bucket_remove (length xs) (xs @ e # zs @ [l]) = xs @ l # zs"
  by (simp add: bucket_remove_def Let_def list_update_append nth_append)

lemma bucket_remove_map:
  assumes "find_index k es = Some i" "distinct (map fst es)"
  shows "distinct (map fst (bucket_remove i es)) \<and> map_of (bucket_remove i es) = (map_of es)(k := None)"
proof -
  obtain xs v ys where es: "es = xs @ (k, v) # ys" "length xs = i"
    using find_index_split [OF assms(1)] by blast
  have k: "k \<notin> fst ` set xs" "k \<notin> fst ` set ys" using assms(2) es(1) by auto
  show ?thesis
  proof (cases ys rule: rev_cases)
    case Nil
    have "map_of xs k = None" using k(1) by (simp add: map_of_eq_None_iff)
    thus ?thesis using assms(2) es Nil bucket_remove_last [of xs "(k, v)"]
      by (auto simp: map_add_def fun_eq_iff split: option.splits)
  next
    case (snoc zs l)
    have d: "distinct (map fst (xs @ l # zs))" using assms(2) es snoc by auto
    have "map_of (xs @ l # zs) j = ((map_of es)(k := None)) j" for j
    proof (cases "j = k")
      case True
      thus ?thesis using k snoc by (auto simp: map_of_eq_None_iff map_add_None)
    next
      case False
      have "set (xs @ l # zs) = set es - {(k, v)}" using es snoc k by (force simp: image_iff)
      hence "(j, w) \<in> set (xs @ l # zs) \<longleftrightarrow> (j, w) \<in> set es" for w using False by auto
      hence "map_of (xs @ l # zs) j = Some w \<longleftrightarrow> map_of es j = Some w" for w
        using d assms(2) map_of_eq_Some_iff by metis
      thus ?thesis using False by (metis fun_upd_apply not_Some_eq)
    qed
    thus ?thesis using d es snoc bucket_remove_swap [of xs "(k, v)" zs l] by auto
  qed
qed

lemma hash_lookup_map_of:
  "hash_lookup h fd = (if fd_ok fd then map_of (h_level1 h ! hash_bucket (word_of_int fd)) (word_of_int fd) else None)"
  by (simp add: hash_lookup_def ws_connection_hash_find_def find_map_of fd_ok_def)

lemma hash_ins_map:
  assumes "hash_inv h" "fd_ok fd" "hash_lookup h fd = None"
  shows "hash_inv (hash_ins fd c h) \<and> hash_lookup (hash_ins fd c h) = (hash_lookup h)(fd \<mapsto> c)"
proof -
  let ?w = "word_of_int fd :: u32"
  have new: "map_of (h_level1 h ! hash_bucket ?w) ?w = None"
    using assms(2,3) by (simp add: hash_lookup_map_of)
  have lv: "h_level1 (hash_ins fd c h) =
      (h_level1 h)[hash_bucket ?w := h_level1 h ! hash_bucket ?w @ [(?w, c)]]"
    "length (h_capacities (hash_ins fd c h)) = length (h_capacities h)"
    by (simp_all add: hash_ins_def ws_connection_hash_insert_def Let_def)
  have len: "hash_bucket ?w < length (h_level1 h)" using assms(1) hash_bucket_less by (simp add: hash_inv_def)
  have "hash_inv (hash_ins fd c h)"
    using assms(1) lv new hash_bucket_less len
    by (auto simp: hash_inv_def nth_list_update map_of_eq_None_iff)
  moreover have "hash_lookup (hash_ins fd c h) j = ((hash_lookup h)(fd \<mapsto> c)) j" for j
    using lv new len assms(2) fd_word_inject [of j fd]
    by (auto simp: hash_lookup_map_of nth_list_update map_add_def split: option.splits)
  ultimately show ?thesis by auto
qed

lemma hash_del_map:
  assumes "hash_inv h" "fd_ok fd"
  shows "hash_inv (hash_del fd h) \<and> hash_lookup (hash_del fd h) = (hash_lookup h)(fd := None)"
proof (cases "find_index (word_of_int fd) (h_level1 h ! hash_bucket (word_of_int fd))")
  case None
  have "hash_del fd h = h" using None assms(2) by (simp add: hash_del_def ws_connection_hash_remove_def fd_ok_def)
  moreover have "hash_lookup h fd = None"
    using find_index_None [OF None] by (simp add: hash_lookup_map_of)
  ultimately show ?thesis using assms(1) by auto
next
  case (Some i)
  let ?w = "word_of_int fd :: u32"
  have lv: "h_level1 (hash_del fd h) =
      (h_level1 h)[hash_bucket ?w := bucket_remove i (h_level1 h ! hash_bucket ?w)]"
    "h_capacities (hash_del fd h) = h_capacities h"
    using Some assms(2) by (simp_all add: hash_del_def ws_connection_hash_remove_def fd_ok_def Let_def)
  have len: "hash_bucket ?w < length (h_level1 h)" using assms(1) hash_bucket_less by (simp add: hash_inv_def)
  have d: "distinct (map fst (h_level1 h ! hash_bucket ?w))"
    using assms(1) hash_bucket_less by (simp add: hash_inv_def)
  note r = bucket_remove_map [OF Some d]
  have "hash_inv (hash_del fd h)"
    using assms(1) lv len r by (auto simp: hash_inv_def nth_list_update)
  moreover have "hash_lookup (hash_del fd h) j = ((hash_lookup h)(fd := None)) j" for j
    using lv len assms(2) fd_word_inject [of j fd] r by (auto simp: hash_lookup_map_of nth_list_update)
  ultimately show ?thesis by auto
qed

interpretation chash: key_map fd_ok hash_inv hash_lookup hash_ins hash_del
  by unfold_locales (use hash_ins_map hash_del_map in blast)+


lemma hash_create_inv:
  "ws_connection_hash_create lock_ok = Some h \<Longrightarrow> hash_inv h \<and> hash_lookup h = Map.empty"
  using hash_bucket_less
  by (auto simp: ws_connection_hash_create_def hash_inv_def hash_lookup_map_of fun_eq_iff split: if_splits)



section \<open>Write buffering keeps the byte order\<close>

text \<open>What the peer has received or will receive: the bytes sent, then the bytes buffered.\<close>

definition write_stream :: "sock \<Rightarrow> ws_connection \<Rightarrow> bytes" where
  "write_stream sk conn = sk_wire sk @ c_write_buffer conn"

lemma socket_write_sent:
  "ws_conn_socket_write sk buf = (Sent n, sk') \<Longrightarrow>
   n \<le> length buf \<and> sk_wire sk' = sk_wire sk @ take n buf \<and> sk_epollout sk' = sk_epollout sk \<and>
   sk_epoll_ok sk' = sk_epoll_ok sk"
  by (auto simp: ws_conn_socket_write_def min_def split: list.splits wr_answer.splits)

lemma socket_write_not_sent:
  "ws_conn_socket_write sk buf = (r, sk') \<Longrightarrow> r = Again \<or> r = Fail \<Longrightarrow>
   sk_wire sk' = sk_wire sk \<and> sk_epollout sk' = sk_epollout sk \<and> sk_epoll_ok sk' = sk_epoll_ok sk"
  by (auto simp: ws_conn_socket_write_def split: list.splits wr_answer.splits)

lemma flush_stream:
  assumes "ws_connection_flush_write_buffer sk conn = (r, conn', sk')"
  shows "write_stream sk' conn' = write_stream sk conn \<and> c_write_buffer_size conn' = c_write_buffer_size conn"
proof (cases "c_write_buffer_size conn = 0 \<or> c_write_buffer conn = []")
  case True
  thus ?thesis using assms by (auto simp: ws_connection_flush_write_buffer_def)
next
  case False
  obtain ret sk1 where w: "ws_conn_socket_write sk (c_write_buffer conn) = (ret, sk1)" by fastforce
  show ?thesis
    using assms False w socket_write_sent [of sk "c_write_buffer conn" _ sk1]
      socket_write_not_sent [OF w]
    by (cases ret) (auto simp: ws_connection_flush_write_buffer_def write_stream_def Let_def)
qed

text \<open>
  C12. Buffered sending appends: when a message that fits the write buffer is accepted, the
  stream of bytes sent and buffered grows by exactly that message; when it is rejected nothing
  is lost or reordered.
\<close>

theorem buffered_send_appends:
  assumes "ws_connection_buffered_send malloc_ok sk conn data = (r, conn', sk')"
    and "malloc_ok WS_DEFAULT_WRITE_BUFFER_SIZE"
    and "length data \<le> (if c_write_buffer_size conn = 0 then WS_DEFAULT_WRITE_BUFFER_SIZE
                        else c_write_buffer_size conn)"
    and "c_write_buffer_size conn = 0 \<longrightarrow> c_write_buffer conn = []"
  shows "if 0 \<le> r then r = int (length data) \<and> write_stream sk' conn' = write_stream sk conn @ data
    else write_stream sk' conn' = write_stream sk conn"
proof (cases "data = []")
  case True
  thus ?thesis using assms(1) by (auto simp: ws_connection_buffered_send_def)
next
  case False
  define conn1 where "conn1 = (if c_write_buffer_size conn = 0
    then snd (ws_connection_init_write_buffer malloc_ok conn) else conn)"
  have c1: "c_write_buffer conn1 = c_write_buffer conn" "length data \<le> c_write_buffer_size conn1"
    using assms(2-4) by (auto simp: conn1_def ws_connection_init_write_buffer_def)
  have st: "write_stream sk conn1 = write_stream sk conn" using c1(1) by (simp add: write_stream_def)
  have init: "(if c_write_buffer_size conn = 0 then ws_connection_init_write_buffer malloc_ok conn
      else (0, conn)) = (0, conn1)"
    using assms(2) by (auto simp: conn1_def ws_connection_init_write_buffer_def)
  obtain f conn2 sk2 where fl: "ws_connection_flush_write_buffer sk conn1 = (f, conn2, sk2)"
    by (metis prod_cases3)
  have "write_stream sk2 conn2 = write_stream sk conn" using flush_stream [OF fl] st by simp
  thus ?thesis
    using assms(1) False init c1 fl
    by (auto simp: ws_connection_buffered_send_def Let_def write_stream_def split: if_splits)
qed

theorem buffered_send_appends_witness:
  "let r = ws_connection_buffered_send (\<lambda>_. True)
        \<lparr>sk_wire = [], sk_wr = [], sk_rd = [], sk_epollout = False, sk_epoll_ok = True\<rparr> zero_connection [1, 2]
   in write_stream (snd (snd r)) (fst (snd r)) = [1, 2]"
proof -
  let ?sk = "\<lparr>sk_wire = [], sk_wr = [], sk_rd = [], sk_epollout = False, sk_epoll_ok = True\<rparr>"
  obtain r conn' sk' where eq:
    "ws_connection_buffered_send (\<lambda>_. True) ?sk zero_connection [1, 2] = (r, conn', sk')"
    by (metis prod_cases3)
  have "fst (ws_connection_buffered_send (\<lambda>_. True) ?sk zero_connection [1, 2]) = 2"
    by (simp add: ws_connection_buffered_send_def ws_connection_init_write_buffer_def zero_connection_def
        WS_DEFAULT_WRITE_BUFFER_SIZE_def)
  hence "r = 2" using eq by simp
  thus ?thesis
    using buffered_send_appends [OF eq] eq
    by (simp add: zero_connection_def WS_DEFAULT_WRITE_BUFFER_SIZE_def write_stream_def)
qed

text \<open>
  A message larger than the buffer is written directly even when the flush before it was only
  partial: the rest of the buffered bytes then follows the message instead of preceding it.
\<close>

lemma buffered_send_large_overtakes:
  "let sk = \<lparr>sk_wire = [], sk_wr = [WrTake 1, WrTake 3], sk_rd = [], sk_epollout = False, sk_epoll_ok = True\<rparr>;
       conn = zero_connection\<lparr>c_write_buffer := [1, 2], c_write_buffer_size := 2\<rparr>;
       (r, conn', sk') = ws_connection_buffered_send (\<lambda>_. True) sk conn [7, 8, 9]
   in r = 3 \<and> write_stream sk' conn' = [1, 7, 8, 9, 2]"
  by code_simp

section \<open>Slot generations\<close>


end
