(* ===== verification/Conn_Out.thy ===== *)
theory Conn_Out
  imports Ws_Connection Ws_Frame "HOL-Library.Sublist"
begin

text \<open>
  Outbound data of a connection: the non-blocking output path with EPOLLOUT backpressure
  (http/connection.c) and the frame senders (ws\_frame.c), which write to the socket directly or
  through the write buffer.
\<close>

section \<open>Pending output\<close>

definition PORTICO_OUT_MAX :: nat where
  "PORTICO_OUT_MAX = 4 * 1024 * 1024"

definition conn_set_epollout :: "sock \<Rightarrow> bool \<Rightarrow> int \<times> sock" where
  "conn_set_epollout sk want_out =
    (if sk_epoll_ok sk then (0, sk\<lparr>sk_epollout := want_out\<rparr>) else (-1, sk))"

lemma socket_write_consumes:
  "ws_conn_socket_write sk buf = (Sent n, sk') \<Longrightarrow> length (sk_wr sk') < length (sk_wr sk)"
  by (auto simp: ws_conn_socket_write_def split: list.splits wr_answer.splits)

function conn_out_drain :: "ws_connection \<Rightarrow> sock \<Rightarrow> int \<times> ws_connection \<times> sock" where
  "conn_out_drain conn sk =
    (if c_out_sent conn < length (c_out conn) then
       case ws_conn_socket_write sk (drop (c_out_sent conn) (c_out conn)) of
         (Sent n, sk') \<Rightarrow>
           if 0 < n then conn_out_drain (conn\<lparr>c_out_sent := c_out_sent conn + n\<rparr>) sk'
           else (-1, conn, sk')
       | (Again, sk') \<Rightarrow> (0, conn, sk')
       | (Fail, sk') \<Rightarrow> (-1, conn, sk')
     else (0, conn\<lparr>c_out := [], c_out_sent := 0\<rparr>, sk))"
  by pat_completeness auto
termination
  by (relation "measure (\<lambda>(conn, sk). length (sk_wr sk))") (auto dest: socket_write_consumes [OF sym])

declare conn_out_drain.simps [simp del]

text \<open>\<open>while (nc < need) nc *= 2;\<close> from a positive capacity.\<close>

function grow_capacity :: "nat \<Rightarrow> nat \<Rightarrow> nat" where
  "grow_capacity nc need = (if 0 < nc \<and> nc < need then grow_capacity (nc * 2) need else nc)"
  by pat_completeness auto
termination
  by (relation "measure (\<lambda>(nc, need). need - nc)") auto

declare grow_capacity.simps [simp del]

definition conn_out_append :: "(nat \<Rightarrow> bool) \<Rightarrow> ws_connection \<Rightarrow> bytes \<Rightarrow> int \<times> ws_connection" where
  "conn_out_append malloc_ok conn buf =
    (let conn = (if 0 < c_out_sent conn
                 then conn\<lparr>c_out := drop (c_out_sent conn) (c_out conn), c_out_sent := 0\<rparr> else conn);
         need = length (c_out conn) + length buf
     in if PORTICO_OUT_MAX < need then (-1, conn)
        else if c_out_capacity conn < need then
          let nc = grow_capacity (if c_out_capacity conn = 0 then 8192 else c_out_capacity conn) need;
              nc = (if PORTICO_OUT_MAX < nc then PORTICO_OUT_MAX else nc)
          in if \<not> malloc_ok nc then (-1, conn)
             else (0, conn\<lparr>c_out_capacity := nc, c_out := c_out conn @ buf\<rparr>)
        else (0, conn\<lparr>c_out := c_out conn @ buf\<rparr>))"

text \<open>The inline part of a send: \<open>buf\<close> is what is left to write.\<close>

function conn_send_loop ::
  "(nat \<Rightarrow> bool) \<Rightarrow> ws_connection \<Rightarrow> sock \<Rightarrow> bytes \<Rightarrow> int \<times> ws_connection \<times> sock" where
  "conn_send_loop malloc_ok conn sk buf =
    (if buf \<noteq> [] then
       case ws_conn_socket_write sk buf of
         (Sent n, sk') \<Rightarrow> if 0 < n then conn_send_loop malloc_ok conn sk' (drop n buf) else (-1, conn, sk')
       | (Again, sk') \<Rightarrow>
           (let (rc, conn') = conn_out_append malloc_ok conn buf
            in if rc \<noteq> 0 then (-1, conn', sk')
               else let (rc, sk'') = conn_set_epollout sk' True in (rc, conn', sk''))
       | (Fail, sk') \<Rightarrow> (-1, conn, sk')
     else (0, conn, sk))"
  by pat_completeness auto
termination
  by (relation "measure (\<lambda>(malloc_ok, conn, sk, buf). length (sk_wr sk))")
     (auto dest: socket_write_consumes [OF sym])

declare conn_send_loop.simps [simp del]

definition portico_conn_send ::
  "(nat \<Rightarrow> bool) \<Rightarrow> ws_connection \<Rightarrow> sock \<Rightarrow> bytes \<Rightarrow> int \<times> ws_connection \<times> sock" where
  "portico_conn_send malloc_ok conn sk buf =
    (if c_out_sent conn < length (c_out conn) then
       let (rc, conn') = conn_out_append malloc_ok conn buf in (rc, conn', sk)
     else conn_send_loop malloc_ok conn sk buf)"

definition http_send_owned ::
  "(nat \<Rightarrow> bool) \<Rightarrow> ws_connection \<Rightarrow> sock \<Rightarrow> bytes \<Rightarrow> int \<times> ws_connection \<times> sock" where
  "http_send_owned malloc_ok conn sk buf = portico_conn_send malloc_ok conn sk buf"

definition http_finish_close :: "ws_connection \<Rightarrow> int \<times> ws_connection" where
  "http_finish_close conn =
    (if c_out_sent conn < length (c_out conn) then (0, conn\<lparr>c_out_close_when_drained := True\<rparr>)
     else (-1, conn))"

section \<open>Frame senders\<close>

text \<open>One direct socket write of a whole frame: success only if it was taken entirely.\<close>

definition send_frame :: "(nat \<Rightarrow> bool) \<Rightarrow> sock \<Rightarrow> u8 \<Rightarrow> bytes \<Rightarrow> int \<times> sock" where
  "send_frame malloc_ok sk opc payload =
    (case ws_encode_frame malloc_ok opc payload of
       None \<Rightarrow> (-1, sk)
     | Some frame_data \<Rightarrow>
         let (ret, sk) = ws_conn_socket_write sk frame_data
         in (if ret = Sent (length frame_data) then 0 else -1, sk))"

definition ws_send_text_frame :: "(nat \<Rightarrow> bool) \<Rightarrow> sock \<Rightarrow> bytes \<Rightarrow> int \<times> sock" where
  "ws_send_text_frame malloc_ok sk text = send_frame malloc_ok sk WS_OPCODE_TEXT text"

definition ws_send_binary_frame :: "(nat \<Rightarrow> bool) \<Rightarrow> sock \<Rightarrow> bytes \<Rightarrow> int \<times> sock" where
  "ws_send_binary_frame malloc_ok sk data = send_frame malloc_ok sk WS_OPCODE_BINARY data"

definition ws_send_ping_frame :: "(nat \<Rightarrow> bool) \<Rightarrow> sock \<Rightarrow> bytes \<Rightarrow> int \<times> sock" where
  "ws_send_ping_frame malloc_ok sk data = send_frame malloc_ok sk WS_OPCODE_PING data"

definition ws_send_pong_frame :: "(nat \<Rightarrow> bool) \<Rightarrow> sock \<Rightarrow> bytes \<Rightarrow> int \<times> sock" where
  "ws_send_pong_frame malloc_ok sk data = send_frame malloc_ok sk WS_OPCODE_PONG data"

definition close_code_bytes :: "u16 \<Rightarrow> bytes" where
  "close_code_bytes code = [ucast (drop_bit 8 code AND 0xFF), ucast (code AND 0xFF)]"

definition ws_send_close_frame :: "(nat \<Rightarrow> bool) \<Rightarrow> sock \<Rightarrow> u16 \<Rightarrow> bytes \<Rightarrow> int \<times> sock" where
  "ws_send_close_frame malloc_ok sk code reason =
    (if code = 0 then send_frame malloc_ok sk WS_OPCODE_CLOSE []
     else if \<not> malloc_ok (2 + length reason) then (-1, sk)
     else send_frame malloc_ok sk WS_OPCODE_CLOSE (close_code_bytes code @ reason))"

text \<open>The same frames through the write buffer.\<close>

definition send_frame_buffered ::
  "(nat \<Rightarrow> bool) \<Rightarrow> sock \<Rightarrow> ws_connection \<Rightarrow> u8 \<Rightarrow> bytes \<Rightarrow> int \<times> ws_connection \<times> sock" where
  "send_frame_buffered malloc_ok sk conn opc payload =
    (case ws_encode_frame malloc_ok opc payload of
       None \<Rightarrow> (-1, conn, sk)
     | Some frame_data \<Rightarrow>
         let (result, conn, sk) = ws_connection_buffered_send malloc_ok sk conn frame_data
         in (if result = int (length frame_data) then 0 else -1, conn, sk))"

definition ws_send_text_frame_buffered ::
  "(nat \<Rightarrow> bool) \<Rightarrow> sock \<Rightarrow> ws_connection \<Rightarrow> bytes \<Rightarrow> int \<times> ws_connection \<times> sock" where
  "ws_send_text_frame_buffered malloc_ok sk conn text = send_frame_buffered malloc_ok sk conn WS_OPCODE_TEXT text"

definition ws_send_binary_frame_buffered ::
  "(nat \<Rightarrow> bool) \<Rightarrow> sock \<Rightarrow> ws_connection \<Rightarrow> bytes \<Rightarrow> int \<times> ws_connection \<times> sock" where
  "ws_send_binary_frame_buffered malloc_ok sk conn data = send_frame_buffered malloc_ok sk conn WS_OPCODE_BINARY data"

definition ws_send_ping_buffered ::
  "(nat \<Rightarrow> bool) \<Rightarrow> sock \<Rightarrow> ws_connection \<Rightarrow> bytes \<Rightarrow> int \<times> ws_connection \<times> sock" where
  "ws_send_ping_buffered malloc_ok sk conn payload = send_frame_buffered malloc_ok sk conn WS_OPCODE_PING payload"

definition ws_send_pong_buffered ::
  "(nat \<Rightarrow> bool) \<Rightarrow> sock \<Rightarrow> ws_connection \<Rightarrow> bytes \<Rightarrow> int \<times> ws_connection \<times> sock" where
  "ws_send_pong_buffered malloc_ok sk conn payload = send_frame_buffered malloc_ok sk conn WS_OPCODE_PONG payload"

definition ws_send_close_buffered ::
  "(nat \<Rightarrow> bool) \<Rightarrow> sock \<Rightarrow> ws_connection \<Rightarrow> u16 \<Rightarrow> bytes option \<Rightarrow> int \<times> ws_connection \<times> sock" where
  "ws_send_close_buffered malloc_ok sk conn code reason =
    (let close_payload =
       (if code \<noteq> 0 then close_code_bytes code @ (case reason of None \<Rightarrow> [] | Some r \<Rightarrow> take 123 r) else [])
     in case ws_encode_frame malloc_ok WS_OPCODE_CLOSE close_payload of
          None \<Rightarrow> (-1, conn, sk)
        | Some frame_data \<Rightarrow>
            let (result, conn, sk) = ws_connection_buffered_send malloc_ok sk conn frame_data;
                (_, conn, sk) = ws_connection_flush_write_buffer sk conn
            in (if result = int (length frame_data) then 0 else -1, conn, sk))"

section \<open>Ordering and backpressure\<close>

definition out_pending :: "ws_connection \<Rightarrow> bytes" where
  "out_pending conn = drop (c_out_sent conn) (c_out conn)"

text \<open>Everything the peer has been given and will be given, in order.\<close>

definition out_stream :: "sock \<Rightarrow> ws_connection \<Rightarrow> bytes" where
  "out_stream sk conn = sk_wire sk @ out_pending conn"

text \<open>
  The output invariant: the cursor is inside the buffer, the buffer inside its capacity and the
  cap, and while output is pending the descriptor is armed for writability, so that the drain
  handler will run.
\<close>

definition out_inv :: "sock \<Rightarrow> ws_connection \<Rightarrow> bool" where
  "out_inv sk conn \<longleftrightarrow>
    c_out_sent conn \<le> length (c_out conn) \<and> length (c_out conn) \<le> c_out_capacity conn \<and>
    c_out_capacity conn \<le> PORTICO_OUT_MAX \<and> (out_pending conn \<noteq> [] \<longrightarrow> sk_epollout sk)"

lemma conn_out_drain_stream:
  assumes "conn_out_drain conn sk = (r, conn', sk')" "out_inv sk conn"
  shows "out_stream sk' conn' = out_stream sk conn \<and> out_inv sk' conn' \<and>
    sk_epoll_ok sk' = sk_epoll_ok sk \<and> sk_epollout sk' = sk_epollout sk"
  using assms
proof (induction conn sk arbitrary: r conn' sk' rule: conn_out_drain.induct)
  case (1 conn sk)
  show ?case
  proof (cases "c_out_sent conn < length (c_out conn)")
    case False
    thus ?thesis using 1(2,3)
      by (subst (asm) conn_out_drain.simps) (auto simp: out_stream_def out_pending_def out_inv_def)
  next
    case True
    obtain ret sk1 where w: "ws_conn_socket_write sk (drop (c_out_sent conn) (c_out conn)) = (ret, sk1)"
      by fastforce
    show ?thesis
    proof (cases ret)
      case (Sent n)
      note s = socket_write_sent [OF w [unfolded Sent]]
      show ?thesis
      proof (cases "0 < n")
        case True
        have "out_inv sk1 (conn\<lparr>c_out_sent := c_out_sent conn + n\<rparr>)"
          using 1(3) s \<open>c_out_sent conn < length (c_out conn)\<close>
          by (auto simp: out_inv_def out_pending_def)
        moreover have "conn_out_drain (conn\<lparr>c_out_sent := c_out_sent conn + n\<rparr>) sk1 = (r, conn', sk')"
          using 1(2) w Sent True \<open>c_out_sent conn < length (c_out conn)\<close>
          by (subst (asm) conn_out_drain.simps) simp
        moreover have "out_stream sk1 (conn\<lparr>c_out_sent := c_out_sent conn + n\<rparr>) = out_stream sk conn"
          using s append_take_drop_id [of n "drop (c_out_sent conn) (c_out conn)"]
          by (simp add: out_stream_def out_pending_def add.commute)
        ultimately show ?thesis
          using 1(1) [OF \<open>c_out_sent conn < length (c_out conn)\<close> w [symmetric] Sent True] s by simp
      next
        case False
        thus ?thesis
          using 1(2,3) w Sent s \<open>c_out_sent conn < length (c_out conn)\<close>
          by (subst (asm) conn_out_drain.simps) (auto simp: out_stream_def out_pending_def out_inv_def)
      qed
    next
      case Again
      thus ?thesis
        using 1(2,3) w socket_write_not_sent [OF w] True
        by (subst (asm) conn_out_drain.simps) (auto simp: out_stream_def out_pending_def out_inv_def)
    next
      case Fail
      thus ?thesis
        using 1(2,3) w socket_write_not_sent [OF w] True
        by (subst (asm) conn_out_drain.simps) (auto simp: out_stream_def out_pending_def out_inv_def)
    qed
  qed
qed

lemma grow_capacity_ge: "0 < nc \<Longrightarrow> need \<le> grow_capacity nc need"
  by (induction nc need rule: grow_capacity.induct) (subst grow_capacity.simps, auto)

lemma conn_out_append_pending:
  assumes "conn_out_append malloc_ok conn buf = (r, conn')" "out_inv sk conn"
  shows "(r = 0 \<or> r = -1) \<and> out_pending conn' = out_pending conn @ (if r = 0 then buf else []) \<and>
    c_out_sent conn' \<le> length (c_out conn') \<and> length (c_out conn') \<le> c_out_capacity conn' \<and>
    c_out_capacity conn' \<le> PORTICO_OUT_MAX"
proof -
  define conn1 where "conn1 = (if 0 < c_out_sent conn
    then conn\<lparr>c_out := drop (c_out_sent conn) (c_out conn), c_out_sent := 0\<rparr> else conn)"
  have c1: "out_pending conn1 = out_pending conn" "c_out_sent conn1 = 0" "c_out conn1 = out_pending conn"
    "c_out_capacity conn1 = c_out_capacity conn" "length (c_out conn1) \<le> c_out_capacity conn"
    using assms(2) by (auto simp: conn1_def out_pending_def out_inv_def)
  have grow: "need \<le> (if PORTICO_OUT_MAX < grow_capacity (if c = 0 then 8192 else c) need
      then PORTICO_OUT_MAX else grow_capacity (if c = 0 then 8192 else c) need)"
    if "need \<le> PORTICO_OUT_MAX" for need c
    using that grow_capacity_ge [of "if c = 0 then 8192 else c" need] by auto
  show ?thesis
    using assms(1) c1 assms(2) grow [of "length (c_out conn1) + length buf" "c_out_capacity conn"]
    by (auto simp: conn_out_append_def Let_def conn1_def [symmetric] out_inv_def out_pending_def
        split: if_splits)
qed

lemma conn_send_loop_stream:
  assumes "conn_send_loop malloc_ok conn sk buf = (r, conn', sk')" "out_inv sk conn"
    "out_pending conn = []" "sk_epoll_ok sk"
  shows "if r = 0 then out_stream sk' conn' = out_stream sk conn @ buf \<and> out_inv sk' conn'
    else r = -1 \<and> prefix (out_stream sk' conn') (out_stream sk conn @ buf)"
  using assms
proof (induction malloc_ok conn sk buf arbitrary: r conn' sk' rule: conn_send_loop.induct)
  case (1 malloc_ok conn sk buf)
  show ?case
  proof (cases "buf = []")
    case True
    thus ?thesis using 1(2,3) by (subst (asm) conn_send_loop.simps) auto
  next
    case False
    obtain ret sk1 where w: "ws_conn_socket_write sk buf = (ret, sk1)" by fastforce
    show ?thesis
    proof (cases ret)
      case (Sent n)
      note s = socket_write_sent [OF w [unfolded Sent]]
      have wire: "out_stream sk1 conn @ drop n buf = out_stream sk conn @ buf"
        using s 1(4) append_take_drop_id [of n buf] by (simp add: out_stream_def)
      show ?thesis
      proof (cases "0 < n")
        case True
        have "out_inv sk1 conn" using 1(3,4) by (simp add: out_inv_def)
        moreover have "conn_send_loop malloc_ok conn sk1 (drop n buf) = (r, conn', sk')"
          using 1(2) w Sent True False by (subst (asm) conn_send_loop.simps) simp
        ultimately have "if r = 0
            then out_stream sk' conn' = out_stream sk1 conn @ drop n buf \<and> out_inv sk' conn'
            else r = -1 \<and> prefix (out_stream sk' conn') (out_stream sk1 conn @ drop n buf)"
          using 1(1) [OF False w [symmetric] Sent True] 1(4,5) s by simp
        thus ?thesis unfolding wire .
      next
        case False
        thus ?thesis
          using 1(2) w Sent wire \<open>buf \<noteq> []\<close>
          by (subst (asm) conn_send_loop.simps) (auto simp: prefix_def)
      qed
    next
      case Again
      note s = socket_write_not_sent [OF w]
      obtain rc conn1 where ap: "conn_out_append malloc_ok conn buf = (rc, conn1)" by fastforce
      note a = conn_out_append_pending [OF ap 1(3)]
      show ?thesis
        using 1(2,4,5) w Again False ap a s
        by (subst (asm) conn_send_loop.simps)
           (auto simp: conn_set_epollout_def out_stream_def out_inv_def out_pending_def split: if_splits)
    next
      case Fail
      thus ?thesis
        using 1(2,3) w socket_write_not_sent [OF w] False
        by (subst (asm) conn_send_loop.simps) (auto simp: out_stream_def)
    qed
  qed
qed

lemma conn_send_stream:
  assumes "portico_conn_send malloc_ok conn sk buf = (r, conn', sk')" "out_inv sk conn" "sk_epoll_ok sk"
  shows "if r = 0 then out_stream sk' conn' = out_stream sk conn @ buf \<and> out_inv sk' conn'
    else r = -1 \<and> prefix (out_stream sk' conn') (out_stream sk conn @ buf)"
proof (cases "c_out_sent conn < length (c_out conn)")
  case True
  obtain rc conn1 where ap: "conn_out_append malloc_ok conn buf = (rc, conn1)" by fastforce
  note a = conn_out_append_pending [OF ap assms(2)]
  have "out_pending conn \<noteq> []" using True by (simp add: out_pending_def)
  hence "sk_epollout sk" using assms(2) by (simp add: out_inv_def)
  thus ?thesis
    using assms(1) True ap a by (auto simp: portico_conn_send_def out_stream_def out_inv_def)
next
  case False
  hence "out_pending conn = []" by (simp add: out_pending_def)
  thus ?thesis using conn_send_loop_stream assms False by (simp add: portico_conn_send_def)
qed

text \<open>
  C14. Output is never reordered, duplicated or lost while sends succeed: a successful send makes
  the stream given to the peer grow by exactly the buffer, whatever mixture of partial writes and
  full socket buffers occurs, and if anything is left pending the descriptor is armed for
  writability and the pending bytes respect the cap. After a failure the peer has seen a prefix.
\<close>

theorem portico_conn_send_stream:
  assumes "portico_conn_send malloc_ok conn sk buf = (r, conn', sk')" "out_inv sk conn" "sk_epoll_ok sk"
  shows "if r = 0 then out_stream sk' conn' = out_stream sk conn @ buf \<and> out_inv sk' conn'
    else r = -1 \<and> prefix (out_stream sk' conn') (out_stream sk conn @ buf)"
  using conn_send_stream [OF assms] .

theorem portico_conn_send_stream_witness:
  "let sk = \<lparr>sk_wire = [9], sk_wr = [WrTake 2, WrAgain], sk_rd = [], sk_epollout = False, sk_epoll_ok = True\<rparr>;
       (r, conn', sk') = portico_conn_send (\<lambda>_. True) zero_connection sk [1, 2, 3]
   in r = 0 \<and> out_stream sk' conn' = [9, 1, 2, 3] \<and> out_inv sk' conn'"
proof -
  let ?sk = "\<lparr>sk_wire = [9], sk_wr = [WrTake 2, WrAgain], sk_rd = [], sk_epollout = False, sk_epoll_ok = True\<rparr>"
  obtain r conn' sk' where eq: "portico_conn_send (\<lambda>_. True) zero_connection ?sk [1, 2, 3] = (r, conn', sk')"
    by (metis prod_cases3)
  have "r = 0"
    using arg_cong [OF eq, of fst]
    by (simp add: portico_conn_send_def zero_connection_def conn_send_loop.simps ws_conn_socket_write_def
        conn_out_append_def PORTICO_OUT_MAX_def conn_set_epollout_def Let_def)
  moreover have "out_inv ?sk zero_connection" by (simp add: out_inv_def zero_connection_def out_pending_def)
  ultimately show ?thesis
    using portico_conn_send_stream [OF eq] eq by (simp add: out_stream_def out_pending_def zero_connection_def)
qed

text \<open>
  A control frame is written to the socket directly, not behind the pending output: while a data
  frame is partly sent, a pong lands in the middle of it.
\<close>

lemma pong_splits_pending_frame:
  "let sk = \<lparr>sk_wire = [], sk_wr = [WrTake 2, WrAgain, WrTake 2, WrTake 9], sk_rd = [],
             sk_epollout = False, sk_epoll_ok = True\<rparr>;
       (r1, conn1, sk1) = portico_conn_send (\<lambda>_. True) zero_connection sk [0x82, 0x02, 7, 8];
       (r2, sk2) = ws_send_pong_frame (\<lambda>_. True) sk1 [];
       (r3, conn3, sk3) = conn_out_drain conn1 sk2
   in r1 = 0 \<and> r2 = 0 \<and> r3 = 0 \<and> sk_wire sk3 = [0x82, 0x02, 0x8A, 0x00, 7, 8]"
  by (simp add: portico_conn_send_def zero_connection_def conn_send_loop.simps ws_conn_socket_write_def
        conn_out_append_def PORTICO_OUT_MAX_def conn_set_epollout_def Let_def ws_send_pong_frame_def
        send_frame_def ws_encode_frame_def WS_OPCODE_PONG_def WS_FRAME_FIN_def conn_out_drain.simps)

end
