(* ===== verification/Ws_Handler.thy ===== *)
theory Ws_Handler
  imports Ws_Utf8 Ws_Frame_Rfc Conn_Out
begin

text \<open>
  Received frames (ws\_connection\_handler.c): the read loop of an open WebSocket connection,
  dispatch by opcode, fragmentation and reassembly, and the close handshake. Application
  callbacks are recorded as events; whether one is registered is part of the server.
\<close>

section \<open>State\<close>

datatype ws_event =
    OnText u32 bytes user_ptr
  | OnBinary u32 bytes user_ptr
  | OnPing u32 bytes user_ptr
  | OnPong u32 bytes
  | OnClose u32 u16 bytes
  | OnConnect u32
  | OnDisconnect u32 user_ptr

record ws_server_cfg =
  sv_max_message_size :: u64
  sv_on_text_message :: bool
  sv_on_binary_message :: bool
  sv_on_ping :: bool
  sv_on_pong :: bool
  sv_on_close :: bool
  sv_on_connect :: bool
  sv_on_disconnect :: bool

record hstate =
  hs_conn :: ws_connection
  hs_sock :: sock
  hs_log :: "ws_event list"

definition WS_CLOSE_NORMAL :: u16 where "WS_CLOSE_NORMAL = 1000"
definition WS_CLOSE_PROTOCOL_ERROR :: u16 where "WS_CLOSE_PROTOCOL_ERROR = 1002"
definition WS_CLOSE_INVALID_UTF8 :: u16 where "WS_CLOSE_INVALID_UTF8 = 1007"
definition WS_CLOSE_MESSAGE_TOO_BIG :: u16 where "WS_CLOSE_MESSAGE_TOO_BIG = 1009"

definition WS_FRAME_CLOSE_REQUESTED :: int where
  "WS_FRAME_CLOSE_REQUESTED = -2"

definition log_event :: "bool \<Rightarrow> ws_event \<Rightarrow> hstate \<Rightarrow> hstate" where
  "log_event registered ev st = (if registered then st\<lparr>hs_log := hs_log st @ [ev]\<rparr> else st)"

definition map_conn :: "(ws_connection \<Rightarrow> ws_connection) \<Rightarrow> hstate \<Rightarrow> hstate" where
  "map_conn f st = st\<lparr>hs_conn := f (hs_conn st)\<rparr>"

definition set_parser :: "ws_frame_parser \<Rightarrow> hstate \<Rightarrow> hstate" where
  "set_parser p st = map_conn (\<lambda>c. c\<lparr>c_frame_parser := p\<rparr>) st"

section \<open>Close handshake\<close>

definition ws_fail_connection :: "(nat \<Rightarrow> bool) \<Rightarrow> hstate \<Rightarrow> u16 \<Rightarrow> int \<times> hstate" where
  "ws_fail_connection malloc_ok st code =
    (let st = map_conn (\<lambda>c. ws_connection_set_state c WS_STATE_CLOSING) st;
         (_, sk) = ws_send_close_frame malloc_ok (hs_sock st) code []
     in (WS_FRAME_CLOSE_REQUESTED, st\<lparr>hs_sock := sk\<rparr>))"

definition ws_close_code_valid :: "u16 \<Rightarrow> bool" where
  "ws_close_code_valid code \<longleftrightarrow>
    (3000 \<le> code \<and> code \<le> 4999) \<or>
    code \<in> {1000, 1001, 1002, 1003, 1007, 1008, 1009, 1010, 1011}"

definition cleanup_fragmentation_state :: "ws_connection \<Rightarrow> ws_connection" where
  "cleanup_fragmentation_state conn =
    conn\<lparr>c_frame_parser := (c_frame_parser conn)\<lparr>fp_fragment_buffer := None,
       fp_in_fragmented_message := False, fp_fragment_opcode := 0, fp_fragment_buffer_size := 0,
       fp_fragment_total_size := 0\<rparr>\<rparr>"

section \<open>Fragmentation\<close>

text \<open>\<open>data\<close> are the payload bytes of the frame.\<close>

definition process_fragmented_frame ::
  "(nat \<Rightarrow> bool) \<Rightarrow> ws_server_cfg \<Rightarrow> hstate \<Rightarrow> ws_frame \<Rightarrow> bytes \<Rightarrow> int \<times> hstate" where
  "process_fragmented_frame malloc_ok server st frame data =
    (let parser = c_frame_parser (hs_conn st);
         n = unat (f_payload_len frame);
         fd = c_fd (hs_conn st);
         user = c_user_data (hs_conn st)
     in if fp_in_fragmented_message parser then (-1, st)
        else if \<not> f_fin frame then
          let parser = parser\<lparr>fp_in_fragmented_message := True, fp_fragment_opcode := f_opcode frame,
                              fp_fragment_total_size := n\<rparr>;
              initial_size = (if n > 65536 then n * 2 else 65536)
          in if \<not> malloc_ok initial_size then
               (-1, set_parser (parser\<lparr>fp_fragment_buffer := None, fp_in_fragmented_message := False\<rparr>) st)
             else
               (0, set_parser (parser\<lparr>fp_fragment_buffer := Some data, fp_fragment_buffer_size := initial_size\<rparr>) st)
        else if f_opcode frame = WS_OPCODE_TEXT \<and> \<not> ws_utf8_valid data then
          ws_fail_connection malloc_ok st WS_CLOSE_INVALID_UTF8
        else if f_opcode frame = WS_OPCODE_TEXT \<and> sv_on_text_message server then
          (if \<not> malloc_ok (n + 1) then (-1, st) else (0, log_event True (OnText fd data user) st))
        else if f_opcode frame = WS_OPCODE_BINARY \<and> sv_on_binary_message server then
          (0, log_event True (OnBinary fd data user) st)
        else (0, st))"

text \<open>The subtraction in the size check is on 64-bit words, as in the source.\<close>

definition process_continuation_frame ::
  "(nat \<Rightarrow> bool) \<Rightarrow> ws_server_cfg \<Rightarrow> hstate \<Rightarrow> ws_frame \<Rightarrow> bytes \<Rightarrow> int \<times> hstate" where
  "process_continuation_frame malloc_ok server st frame data =
    (let parser = c_frame_parser (hs_conn st);
         max_msg = sv_max_message_size server;
         total = fp_fragment_total_size parser;
         needed_size = total + unat (f_payload_len frame);
         fd = c_fd (hs_conn st);
         user = c_user_data (hs_conn st)
     in if \<not> fp_in_fragmented_message parser then (-1, st)
        else if f_payload_len frame > max_msg - word_of_nat total then
          ws_fail_connection malloc_ok (map_conn cleanup_fragmentation_state st) WS_CLOSE_MESSAGE_TOO_BIG
        else if needed_size > fp_fragment_buffer_size parser \<and> \<not> malloc_ok (needed_size * 2) then
          (-1, map_conn cleanup_fragmentation_state st)
        else
          let parser = (if needed_size > fp_fragment_buffer_size parser
                        then parser\<lparr>fp_fragment_buffer_size := needed_size * 2\<rparr> else parser);
              message = the (fp_fragment_buffer parser) @ data;
              parser = parser\<lparr>fp_fragment_buffer := Some message, fp_fragment_total_size := needed_size\<rparr>;
              st = set_parser parser st
          in if \<not> f_fin frame then (0, st)
             else if fp_fragment_opcode parser = WS_OPCODE_TEXT \<and> \<not> ws_utf8_valid message then
               ws_fail_connection malloc_ok (map_conn cleanup_fragmentation_state st) WS_CLOSE_INVALID_UTF8
             else
               let st = (if fp_fragment_opcode parser = WS_OPCODE_TEXT \<and> sv_on_text_message server then
                           log_event (malloc_ok (needed_size + 1)) (OnText fd message user) st
                         else if fp_fragment_opcode parser = WS_OPCODE_BINARY \<and> sv_on_binary_message server then
                           log_event True (OnBinary fd message user) st
                         else st)
               in (0, map_conn cleanup_fragmentation_state st))"

section \<open>Dispatch by opcode\<close>

definition process_close_frame ::
  "(nat \<Rightarrow> bool) \<Rightarrow> ws_server_cfg \<Rightarrow> hstate \<Rightarrow> ws_frame \<Rightarrow> bytes \<Rightarrow> int \<times> hstate" where
  "process_close_frame malloc_ok server st frame data =
    (if f_payload_len frame = 1 then ws_fail_connection malloc_ok st WS_CLOSE_PROTOCOL_ERROR
     else
       let has_code = (f_payload_len frame \<ge> 2);
           close_code = (if has_code then push_bit 8 (ucast (data ! 0)) OR ucast (data ! 1)
                         else WS_CLOSE_NORMAL);
           reason = drop 2 data
       in if has_code \<and> \<not> ws_close_code_valid close_code then
            ws_fail_connection malloc_ok st WS_CLOSE_PROTOCOL_ERROR
          else if has_code \<and> reason \<noteq> [] \<and> \<not> ws_utf8_valid reason then
            ws_fail_connection malloc_ok st WS_CLOSE_INVALID_UTF8
          else
            let st = map_conn (\<lambda>c. ws_connection_set_state c WS_STATE_CLOSING) st;
                (_, sk) = ws_send_close_frame malloc_ok (hs_sock st) (if has_code then close_code else 0) [];
                st = log_event (sv_on_close server) (OnClose (c_fd (hs_conn st)) close_code []) (st\<lparr>hs_sock := sk\<rparr>)
            in (WS_FRAME_CLOSE_REQUESTED, st))"

definition process_websocket_frame ::
  "(nat \<Rightarrow> bool) \<Rightarrow> ws_server_cfg \<Rightarrow> hstate \<Rightarrow> ws_frame \<Rightarrow> bytes \<Rightarrow> int \<times> hstate" where
  "process_websocket_frame malloc_ok server st frame data =
    (if f_opcode frame \<ge> 8 \<and> (\<not> f_fin frame \<or> f_payload_len frame > 125) then
       ws_fail_connection malloc_ok st WS_CLOSE_PROTOCOL_ERROR
     else if f_opcode frame = WS_OPCODE_TEXT \<or> f_opcode frame = WS_OPCODE_BINARY then
       process_fragmented_frame malloc_ok server st frame data
     else if f_opcode frame = WS_OPCODE_PING then
       let (rc, sk) = ws_send_pong_frame malloc_ok (hs_sock st) data;
           st = st\<lparr>hs_sock := sk\<rparr>
       in if rc < 0 then (-1, st) else (0, st)
     else if f_opcode frame = WS_OPCODE_PONG then
       (0, log_event (sv_on_pong server) (OnPong (c_fd (hs_conn st)) data) st)
     else if f_opcode frame = WS_OPCODE_CLOSE then process_close_frame malloc_ok server st frame data
     else if f_opcode frame = WS_OPCODE_CONTINUATION then
       process_continuation_frame malloc_ok server st frame data
     else (-1, st))"

section \<open>Read loop\<close>

lemma length_xor_at: "i + k \<le> length p \<Longrightarrow> length (xor_at k m i p) = length p"
  by (simp add: xor_at_def)

lemma length_for_xor_at:
  "lo \<le> hi \<Longrightarrow> 0 < k \<Longrightarrow> k dvd hi - lo \<Longrightarrow> hi \<le> length p \<Longrightarrow>
   length (for_by k lo hi (xor_at k m) p) = length p"
  by (rule for_by_invariant [where I = "\<lambda>i q. length q = length p"]) (auto simp: length_xor_at)

lemma length_for_xor_byte_at:
  "lo \<le> hi \<Longrightarrow> length (for_by 1 lo hi (xor_byte_at key) p) = length p"
  by (rule for_by_invariant [where I = "\<lambda>i q. length q = length p"]) (auto simp: xor_byte_at_def)

lemma length_for_xor_at_scalar:
  "4 * n \<le> length p \<Longrightarrow> length (for_by 1 0 n (\<lambda>i. xor_at 4 m (4 * i)) p) = length p"
  by (rule for_by_invariant [where I = "\<lambda>i q. length q = length p"]) (auto simp: length_xor_at)

lemma vector_dvd: "k = 4 * j \<Longrightarrow> 4 dvd n div 4 * 4 - n div k * (k :: nat) \<and> n div k * k \<le> n div 4 * 4"
proof -
  assume k: "k = 4 * j"
  have "n div k * k div 4 \<le> n div 4" by (intro div_le_mono) simp
  moreover have "n div k * k div 4 * 4 = n div k * k" using k by simp
  ultimately have "n div k * k \<le> n div 4 * 4" by (metis mult_le_mono1)
  thus ?thesis using k by (simp add: dvd_diff_nat)
qed

lemma length_unmask_vector:
  assumes "k = 4 * j" "0 < j" "n = length p"
  shows "length (for_by 1 (n div 4 * 4) n (xor_byte_at key)
      (for_by 4 (n div k * k) (n div 4 * 4) (xor_at 4 m32) (for_by k 0 (n div k * k) (xor_at k m) p))) = n"
proof -
  define q where "q = for_by k 0 (n div k * k) (xor_at k m) p"
  define q' where "q' = for_by 4 (n div k * k) (n div 4 * 4) (xor_at 4 m32) q"
  have q: "length q = n" unfolding q_def using assms by (subst length_for_xor_at) auto
  have "length q' = n"
    unfolding q'_def using vector_dvd [OF assms(1), of n] q by (subst length_for_xor_at) auto
  thus ?thesis unfolding q_def [symmetric] q'_def [symmetric] by (subst length_for_xor_byte_at) auto
qed

lemma length_unmask_scalar: "length (ws_unmask_payload_scalar p key) = length p"
proof -
  let ?q = "for_by 1 0 (length p div 4) (\<lambda>i. xor_at 4 (load_le key :: u32) (4 * i)) p"
  have "length ?q = length p" by (rule length_for_xor_at_scalar) simp
  thus ?thesis
    using length_for_xor_byte_at [of "length p div 4 * 4" "length p" key ?q]
    unfolding ws_unmask_payload_scalar_def Let_def by simp
qed

lemma length_ws_unmask_payload [simp]: "length (ws_unmask_payload cpu p key) = length p"
  unfolding ws_unmask_payload_def ws_unmask_payload_avx2_def ws_unmask_payload_sse2_def Let_def
  by (auto simp: length_unmask_scalar length_unmask_vector [of 32 8] length_unmask_vector [of 16 4]
      simp del: One_nat_def)

lemma length_ws_parse_frame:
  "ws_parse_frame cpu data lim = (r, f, data') \<Longrightarrow> length data' = length data"
  by (auto simp: ws_parse_frame_def Let_def split: prod.splits if_splits)

text \<open>
  The parse loop over the buffered bytes: \<open>pre\<close> is what was consumed already (offset bytes), and
  \<open>rest\<close> what follows. The last component of the result is the receive buffer afterwards.
\<close>

function ws_frames_loop ::
  "cpu \<Rightarrow> (nat \<Rightarrow> bool) \<Rightarrow> ws_server_cfg \<Rightarrow> hstate \<Rightarrow> bytes \<Rightarrow> bytes \<Rightarrow> int \<times> hstate \<times> bytes" where
  "ws_frames_loop cpu malloc_ok server st pre rest =
    (if rest = [] then (0, st, [])
     else
       case ws_parse_frame cpu rest (sv_max_message_size server) of
         (r, frame, data) \<Rightarrow>
           if r < 0 then (-1, st, [])
           else if r = 0 then (0, st, data)
           else
             case process_websocket_frame malloc_ok server st frame (frame_bytes frame data) of
               (proc, st') \<Rightarrow>
                 if proc = WS_FRAME_CLOSE_REQUESTED then (WS_FRAME_CLOSE_REQUESTED, st', pre @ data)
                 else if proc < 0 then (-1, st', [])
                 else ws_frames_loop cpu malloc_ok server st' (pre @ take (nat r) data) (drop (nat r) data))"
  by pat_completeness auto
termination
proof (relation "measure (\<lambda>(cpu, malloc_ok, server, st, pre, rest). length rest)")
  fix cpu malloc_ok and server :: ws_server_cfg and st :: hstate and pre rest r y frame data proc st'
  assume "rest \<noteq> []" and p: "(r, y) = ws_parse_frame cpu rest (sv_max_message_size server)"
    "(frame, data) = y" and r: "\<not> r < 0" "r \<noteq> 0"
  hence "length data = length rest" using length_ws_parse_frame by metis
  thus "((cpu, malloc_ok, server, st', pre @ take (nat r) data, drop (nat r) data),
      (cpu, malloc_ok, server, st, pre, rest)) \<in> measure (\<lambda>(cpu, malloc_ok, server, st, pre, rest). length rest)"
    using \<open>rest \<noteq> []\<close> r by simp
qed simp

declare ws_frames_loop.simps [simp del]

text \<open>Handling frames does not read from the socket.\<close>

lemma write_keeps_rd: "ws_conn_socket_write sk buf = (r, sk') \<Longrightarrow> sk_rd sk' = sk_rd sk"
  by (auto simp: ws_conn_socket_write_def split: list.splits wr_answer.splits)

lemma send_frame_keeps_rd: "send_frame malloc_ok sk opc p = (r, sk') \<Longrightarrow> sk_rd sk' = sk_rd sk"
  using write_keeps_rd by (fastforce simp: send_frame_def split: option.splits prod.splits)

lemma send_close_keeps_rd: "ws_send_close_frame malloc_ok sk code p = (r, sk') \<Longrightarrow> sk_rd sk' = sk_rd sk"
  by (auto simp: ws_send_close_frame_def split: if_splits dest: send_frame_keeps_rd)

lemma fail_keeps_rd: "ws_fail_connection malloc_ok st code = (r, st') \<Longrightarrow>
    sk_rd (hs_sock st') = sk_rd (hs_sock st)"
  by (auto simp: ws_fail_connection_def Let_def map_conn_def dest: send_close_keeps_rd split: prod.splits)

lemma process_keeps_rd:
  assumes "process_websocket_frame malloc_ok server st frame data = (r, st')"
  shows "sk_rd (hs_sock st') = sk_rd (hs_sock st)"
  using assms
  by (auto simp: process_websocket_frame_def process_fragmented_frame_def process_continuation_frame_def
      process_close_frame_def Let_def log_event_def set_parser_def map_conn_def ws_send_pong_frame_def
      dest!: fail_keeps_rd send_frame_keeps_rd send_close_keeps_rd split: if_splits prod.splits)

lemma frames_loop_keeps_rd:
  "ws_frames_loop cpu malloc_ok server st pre rest = (r, st', recv) \<Longrightarrow>
   sk_rd (hs_sock st') = sk_rd (hs_sock st)"
proof (induction cpu malloc_ok server st pre rest arbitrary: r st' recv rule: ws_frames_loop.induct)
  case (1 cpu malloc_ok server st pre rest)
  thus ?case
    by (subst (asm) (2) ws_frames_loop.simps)
       (auto split: if_splits prod.splits dest!: process_keeps_rd)
qed

fun rd_size :: "rd_answer list \<Rightarrow> nat" where
  "rd_size [] = 0"
| "rd_size (RdBytes bs # as) = Suc (length bs) + rd_size as"
| "rd_size (_ # as) = Suc (rd_size as)"

lemma read_decreases:
  "ws_conn_socket_read sk space = (RdBytes bs, sk') \<Longrightarrow> bs \<noteq> [] \<Longrightarrow> rd_size (sk_rd sk') < rd_size (sk_rd sk)"
  by (auto simp: ws_conn_socket_read_def split: list.splits rd_answer.splits if_splits)

definition recv_new_cap :: "nat \<Rightarrow> ws_connection \<Rightarrow> nat" where
  "recv_new_cap hard_max conn =
    (let new_cap = c_recv_capacity conn * 2 in if new_cap > hard_max then hard_max else new_cap)"

text \<open>Reading until the socket would block, growing the receive buffer up to \<open>hard_max\<close>.\<close>

function ws_read_loop ::
  "cpu \<Rightarrow> (nat \<Rightarrow> bool) \<Rightarrow> ws_server_cfg \<Rightarrow> u32 \<Rightarrow> nat \<Rightarrow> hstate \<Rightarrow> int \<times> hstate" where
  "ws_read_loop cpu malloc_ok server now hard_max st =
    (let conn = hs_conn st;
         full = (length (c_recv conn) = c_recv_capacity conn)
     in if full \<and> c_recv_capacity conn \<ge> hard_max then (-1, map_conn (\<lambda>c. c\<lparr>c_recv := []\<rparr>) st)
        else if full \<and> \<not> malloc_ok (recv_new_cap hard_max conn) then (-1, st)
        else
          let conn = (if full then conn\<lparr>c_recv_capacity := recv_new_cap hard_max conn\<rparr> else conn)
          in case ws_conn_socket_read (hs_sock st) (c_recv_capacity conn - length (c_recv conn)) of
               (RdBytes bs, sk) \<Rightarrow>
                 if bs = [] then (-1, st\<lparr>hs_conn := conn, hs_sock := sk\<rparr>)
                 else
                   let conn = ws_connection_add_bytes_received now (conn\<lparr>c_recv := c_recv conn @ bs\<rparr>)
                   in case ws_frames_loop cpu malloc_ok server (st\<lparr>hs_conn := conn, hs_sock := sk\<rparr>) [] (c_recv conn) of
                        (rc, st', recv) \<Rightarrow>
                          let st' = map_conn (\<lambda>c. c\<lparr>c_recv := recv\<rparr>) st'
                          in if rc \<noteq> 0 then (rc, st')
                             else ws_read_loop cpu malloc_ok server now hard_max st'
             | (RdAgain, sk) \<Rightarrow> (0, st\<lparr>hs_conn := conn, hs_sock := sk\<rparr>)
             | (RdFail, sk) \<Rightarrow> (-1, st\<lparr>hs_conn := conn, hs_sock := sk\<rparr>))"
  by pat_completeness auto
termination
  by (relation "measure (\<lambda>(cpu, malloc_ok, server, now, hard_max, st). rd_size (sk_rd (hs_sock st)))")
     (auto simp: map_conn_def dest!: frames_loop_keeps_rd [OF sym] read_decreases [OF sym])

declare ws_read_loop.simps [simp del]

definition handle_websocket_frames ::
  "cpu \<Rightarrow> (nat \<Rightarrow> bool) \<Rightarrow> ws_server_cfg \<Rightarrow> u32 \<Rightarrow> hstate \<Rightarrow> int \<times> hstate" where
  "handle_websocket_frames cpu malloc_ok server now st =
    (if c_recv_capacity (hs_conn st) = 0 then (-1, st)
     else
       let hard_max = unat (sv_max_message_size server + 64);
           hard_max = (if hard_max < c_recv_capacity (hs_conn st) then c_recv_capacity (hs_conn st) else hard_max)
       in ws_read_loop cpu malloc_ok server now hard_max st)"

end
