(* ===== verification/Ws_Handshake.thy ===== *)
theory Ws_Handshake
  imports C_Text Ws_Handler
begin

text \<open>
  The WebSocket opening handshake (ws\_handshake.c, and its caller in
  ws\_connection\_handler.c): header lookup in the request text, the checks of RFC 6455, the
  response with the accept key, and error responses. A request is the contents of the
  NUL-terminated buffer; the application's handshake callback is a parameter.
\<close>

section \<open>Header lookup\<close>

definition is_blank :: "u8 \<Rightarrow> bool" where
  "is_blank c \<longleftrightarrow> c = 32 \<or> c = 9"

text \<open>A match at position \<open>i\<close> counts when it starts a line and is followed by a colon.\<close>

definition at_line_start :: "bytes \<Rightarrow> nat \<Rightarrow> bool" where
  "at_line_start headers i \<longleftrightarrow> i = 0 \<or> 2 \<le> i \<and> headers ! (i - 2) = 13 \<and> headers ! (i - 1) = 10"

text \<open>The text after the colon of the first such match from \<open>pos\<close> on.\<close>

function find_header_from :: "bytes \<Rightarrow> bytes \<Rightarrow> nat \<Rightarrow> bytes option" where
  "find_header_from headers header_name pos =
    (case strcasestr_from headers header_name pos of
       None \<Rightarrow> None
     | Some i \<Rightarrow>
         let after_header = dropWhile is_blank (drop (i + length header_name) headers)
         in if at_line_start headers i \<and> after_header \<noteq> [] \<and> hd after_header = 58 then Some (drop 1 after_header)
            else find_header_from headers header_name (i + 1))"
  by pat_completeness auto
termination
proof (relation "measure (\<lambda>(headers, name, pos). Suc (length headers) - pos)", goal_cases)
  case (2 headers name pos i after)
  hence "pos \<le> i \<and> i < Suc (length headers)" using find_Some_least unfolding strcasestr_from_def by metis
  thus ?case by auto
qed simp

declare find_header_from.simps [simp del]

definition trim_blanks_right :: "bytes \<Rightarrow> bytes" where
  "trim_blanks_right s = rev (dropWhile is_blank (rev s))"

definition find_header_value :: "(nat \<Rightarrow> bool) \<Rightarrow> bytes \<Rightarrow> bytes \<Rightarrow> bytes option" where
  "find_header_value malloc_ok headers header_name =
    (case find_header_from headers header_name 0 of
       None \<Rightarrow> None
     | Some rest \<Rightarrow>
         let rest = dropWhile is_blank rest;
             line = (case before CRLF rest of Some l \<Rightarrow> l | None \<Rightarrow> rest);
             value = trim_blanks_right line
         in if malloc_ok (length value + 1) then Some value else None)"

section \<open>Request\<close>

definition validate_websocket_headers :: "(nat \<Rightarrow> bool) \<Rightarrow> bytes \<Rightarrow> bool" where
  "validate_websocket_headers malloc_ok headers =
    (case (find_header_value malloc_ok headers (bytes_of ''Upgrade''),
           find_header_value malloc_ok headers (bytes_of ''Connection''),
           find_header_value malloc_ok headers (bytes_of ''Sec-WebSocket-Version'')) of
       (Some upgrade, Some connection, Some ws_version) \<Rightarrow>
         ws_string_contains_token malloc_ok upgrade (bytes_of ''websocket'') \<and>
         ws_string_contains_token malloc_ok connection (bytes_of ''upgrade'') \<and>
         ws_version = bytes_of ''13''
     | _ \<Rightarrow> False)"

record ws_handshake_info =
  hi_path :: bytes
  hi_sec_websocket_key :: bytes
  hi_sec_websocket_protocol :: bytes
  hi_origin :: bytes
  hi_error_code :: int

definition zero_handshake_info :: ws_handshake_info where
  "zero_handshake_info = \<lparr>hi_path = [], hi_sec_websocket_key = [], hi_sec_websocket_protocol = [],
     hi_origin = [], hi_error_code = 0\<rparr>"

definition ws_parse_handshake_request :: "(nat \<Rightarrow> bool) \<Rightarrow> bytes \<Rightarrow> int \<times> ws_handshake_info" where
  "ws_parse_handshake_request malloc_ok request =
    (let info = zero_handshake_info
     in if take 4 request \<noteq> bytes_of ''GET '' then (-1, info\<lparr>hi_error_code := 405\<rparr>)
        else
          let path_start = drop 4 request
          in if 32 \<notin> set path_start then (-1, info\<lparr>hi_error_code := 400\<rparr>)
             else
               let path = takeWhile (\<lambda>c. c \<noteq> 32) path_start
               in if length path \<ge> 256 then (-1, info\<lparr>hi_error_code := 414\<rparr>)
                  else
                    let info = info\<lparr>hi_path := path\<rparr>
                    in if \<not> validate_websocket_headers malloc_ok request then (-1, info\<lparr>hi_error_code := 400\<rparr>)
                       else
                         case find_header_value malloc_ok request (bytes_of ''Sec-WebSocket-Key'') of
                           None \<Rightarrow> (-1, info\<lparr>hi_error_code := 400\<rparr>)
                         | Some ws_key \<Rightarrow>
                             let info = info\<lparr>hi_sec_websocket_key := copy_trunc 32 ws_key\<rparr>;
                                 info = (case find_header_value malloc_ok request (bytes_of ''Sec-WebSocket-Protocol'') of
                                           None \<Rightarrow> info
                                         | Some protocol \<Rightarrow> info\<lparr>hi_sec_websocket_protocol := copy_trunc 256 protocol\<rparr>);
                                 info = (case find_header_value malloc_ok request (bytes_of ''Origin'') of
                                           None \<Rightarrow> info
                                         | Some origin \<Rightarrow> info\<lparr>hi_origin := copy_trunc 256 origin\<rparr>)
                             in (0, info))"

section \<open>Response\<close>

text \<open>\<open>None\<close> is the result -1; \<open>selected_protocol\<close> is \<open>None\<close> for NULL.\<close>

definition ws_create_handshake_response ::
  "(nat \<Rightarrow> bool) \<Rightarrow> ws_handshake_info \<Rightarrow> bytes option \<Rightarrow> nat \<Rightarrow> bytes option" where
  "ws_create_handshake_response malloc_ok info selected_protocol response_size =
    (if response_size = 0 then None
     else
       case ws_generate_accept_key malloc_ok (hi_sec_websocket_key info) of
         None \<Rightarrow> None
       | Some accept_key \<Rightarrow>
           let response = bytes_of ''HTTP/1.1 101 Switching Protocols'' @ CRLF @
                 bytes_of ''Upgrade: websocket'' @ CRLF @ bytes_of ''Connection: Upgrade'' @ CRLF @
                 bytes_of ''Sec-WebSocket-Accept: '' @ accept_key @ CRLF
           in if length response \<ge> response_size then None
              else
                let protocol_line = (case selected_protocol of
                      Some p \<Rightarrow> if p \<noteq> [] then bytes_of ''Sec-WebSocket-Protocol: '' @ p @ CRLF else []
                    | None \<Rightarrow> [])
                in if protocol_line \<noteq> [] \<and> length protocol_line \<ge> response_size - length response then None
                   else if length response + length protocol_line + 2 \<ge> response_size then None
                   else Some (response @ protocol_line @ CRLF))"

definition status_text :: "int \<Rightarrow> int \<times> bytes" where
  "status_text error_code =
    (if error_code = 400 then (400, bytes_of ''Bad Request'')
     else if error_code = 403 then (403, bytes_of ''Forbidden'')
     else if error_code = 405 then (405, bytes_of ''Method Not Allowed'')
     else if error_code = 414 then (414, bytes_of ''URI Too Long'')
     else if error_code = 426 then (426, bytes_of ''Upgrade Required'')
     else if error_code = 500 then (500, bytes_of ''Internal Server Error'')
     else (400, bytes_of ''Bad Request''))"

text \<open>The messages passed by the callers are short, so the 512-byte buffer never truncates.\<close>

definition ws_send_handshake_error :: "sock \<Rightarrow> int \<Rightarrow> bytes option \<Rightarrow> int \<times> sock" where
  "ws_send_handshake_error sk error_code error_message =
    (let (code, txt) = status_text error_code;
         msg = (case error_message of None \<Rightarrow> txt | Some m \<Rightarrow> m);
         response = bytes_of ''HTTP/1.1 '' @ dec (nat code) @ [32] @ txt @ CRLF @
           bytes_of ''Content-Type: text/plain'' @ CRLF @
           bytes_of ''Content-Length: '' @ dec (length msg) @ CRLF @
           bytes_of ''Connection: close'' @ CRLF @ CRLF @ msg;
         (ret, sk) = ws_conn_socket_write sk response
     in (if ret = Sent (length response) then 0 else -1, sk))"

section \<open>The handshake\<close>

type_synonym on_handshake = "u32 \<Rightarrow> ws_handshake_info \<Rightarrow> int \<times> bytes option"

definition ws_process_handshake ::
  "(nat \<Rightarrow> bool) \<Rightarrow> on_handshake option \<Rightarrow> hstate \<Rightarrow> bytes \<Rightarrow> int \<times> hstate" where
  "ws_process_handshake malloc_ok callback st request =
    (let (rc, info) = ws_parse_handshake_request malloc_ok request
     in if rc \<noteq> 0 then (-1, st\<lparr>hs_sock := snd (ws_send_handshake_error (hs_sock st) (hi_error_code info) None)\<rparr>)
        else
          let (result, selected_protocol) =
                (case callback of None \<Rightarrow> (0, None) | Some f \<Rightarrow> f (c_fd (hs_conn st)) info)
          in if result \<noteq> 0 then
               (-1, st\<lparr>hs_sock := snd (ws_send_handshake_error (hs_sock st) 403 (Some (bytes_of ''Forbidden'')))\<rparr>)
             else
               let st = (case find_header_value malloc_ok request (bytes_of ''Host'') of
                           None \<Rightarrow> st
                         | Some host \<Rightarrow> map_conn (\<lambda>c. c\<lparr>c_host := copy_trunc 256 host, c_user_data := UserHost\<rparr>) st)
               in case ws_create_handshake_response malloc_ok info selected_protocol 1024 of
                    None \<Rightarrow>
                      (-1, st\<lparr>hs_sock := snd (ws_send_handshake_error (hs_sock st) 500 (Some (bytes_of ''Internal Server Error'')))\<rparr>)
                  | Some response \<Rightarrow>
                      let (ret, sk) = ws_conn_socket_write (hs_sock st) response
                      in (if ret = Sent (length response) then 0 else -1, st\<lparr>hs_sock := sk\<rparr>))"

definition handle_websocket_handshake ::
  "(nat \<Rightarrow> bool) \<Rightarrow> on_handshake option \<Rightarrow> ws_server_cfg \<Rightarrow> hstate \<Rightarrow> int \<times> hstate" where
  "handle_websocket_handshake malloc_ok callback server st =
    (case ws_conn_socket_read (hs_sock st) 4095 of
       (RdBytes bs, sk) \<Rightarrow>
         if bs = [] then (-1, st\<lparr>hs_sock := sk\<rparr>)
         else
           let (rc, st) = ws_process_handshake malloc_ok callback (st\<lparr>hs_sock := sk\<rparr>) (cstr bs)
           in if rc = 0 then
                (0, log_event (sv_on_connect server) (OnConnect (c_fd (hs_conn st)))
                      (map_conn (\<lambda>c. ws_connection_set_state c WS_STATE_OPEN) st))
              else (-1, st)
     | (_, sk) \<Rightarrow> (-1, st\<lparr>hs_sock := sk\<rparr>))"

end
