(* ===== verification/Http_Conn.thy ===== *)
theory Http_Conn
  imports Http_Static_Spec Ws_Handshake
begin

text \<open>
  HTTP connections (http/connection.c): reading requests into the receive buffer, dispatch to the
  application, responses from memory, from a file read in one piece or streamed in chunks through
  asynchronous reads, and the first dispatch between WebSocket and HTTP. One connection is modelled
  with its socket, the descriptors of the process, the heap of stream contexts and the reads in
  flight. Loops are total functions; the recursion between serving requests and finishing a stream
  is the code's.
\<close>

section \<open>State\<close>

definition PORTICO_STREAM_CHUNK :: nat where
  "PORTICO_STREAM_CHUNK = 1024 * 1024"

definition PORTICO_SINGLE_MAX :: nat where
  "PORTICO_SINGLE_MAX = 4 * 1024 * 1024"

definition SIZEOF_STREAM :: nat where "SIZEOF_STREAM = 56"
definition SIZEOF_FILE_CTX :: nat where "SIZEOF_FILE_CTX = 4152"

record http_stream =
  hst_generation :: u32
  hst_fd :: int
  hst_offset :: int
  hst_end :: int
  hst_keep_alive :: bool
  hst_reading :: bool

record http_file_ctx =
  fc_generation :: u32
  fc_fd :: int
  fc_status :: int
  fc_keep_alive :: bool
  fc_headers :: bytes

text \<open>A read in flight: for whom, how many bytes, from which offset.\<close>

datatype aio_user = AioFile http_file_ctx | AioStream nat

record aio_op =
  op_user :: aio_user
  op_fd :: int
  op_len :: nat
  op_offset :: int

text \<open>
  What surrounds the connection: memory, the file system, the application's handler with its state
  \<open>'a\<close>, configuration, and whether the thread has asynchronous I/O.
\<close>

type_synonym 'a http_handler =
  "'a \<Rightarrow> portico_request \<Rightarrow> portico_response \<Rightarrow> fds \<Rightarrow> int \<times> portico_response \<times> fds \<times> 'a"

record 'a http_env =
  he_malloc :: "nat \<Rightarrow> bool"
  he_fs :: fs
  he_on_http_request :: "'a http_handler option"
  he_trust_proxy :: bool
  he_inet_ok :: "bytes \<Rightarrow> bool"
  he_peer :: bytes
  he_sse :: bool
  he_aio :: bool
  he_now :: u32
  he_on_handshake :: "on_handshake option"
  he_on_connect :: bool

text \<open>
  \<open>hx_streams\<close> is the heap of stream contexts, \<open>hx_answers\<close> whether the next reads submitted are
  accepted, \<open>hx_closed\<close> whether the connection was closed from a completion.
\<close>

record 'a http_state =
  hx_h :: hstate
  hx_fds :: fds
  hx_app :: 'a
  hx_streams :: "nat \<Rightarrow> http_stream option"
  hx_next :: nat
  hx_inflight :: "aio_op list"
  hx_answers :: "bool list"
  hx_closed :: bool

abbreviation hx_conn :: "'a http_state \<Rightarrow> ws_connection" where
  "hx_conn st \<equiv> hs_conn (hx_h st)"

abbreviation hx_sock :: "'a http_state \<Rightarrow> sock" where
  "hx_sock st \<equiv> hs_sock (hx_h st)"

definition set_conn :: "(ws_connection \<Rightarrow> ws_connection) \<Rightarrow> 'a http_state \<Rightarrow> 'a http_state" where
  "set_conn f st = st\<lparr>hx_h := (hx_h st)\<lparr>hs_conn := f (hs_conn (hx_h st))\<rparr>\<rparr>"

definition set_io :: "ws_connection \<Rightarrow> sock \<Rightarrow> 'a http_state \<Rightarrow> 'a http_state" where
  "set_io conn sk st = st\<lparr>hx_h := (hx_h st)\<lparr>hs_conn := conn, hs_sock := sk\<rparr>\<rparr>"

definition backlogged :: "'a http_state \<Rightarrow> bool" where
  "backlogged st \<longleftrightarrow> c_out_sent (hx_conn st) < length (c_out (hx_conn st))"

definition close_fd :: "int \<Rightarrow> 'a http_state \<Rightarrow> 'a http_state" where
  "close_fd fd st = st\<lparr>hx_fds := sys_close fd (hx_fds st)\<rparr>"

section \<open>Reading and replying\<close>

function read_into_recv :: "(nat \<Rightarrow> bool) \<Rightarrow> u32 \<Rightarrow> ws_connection \<Rightarrow> sock \<Rightarrow> int \<times> ws_connection \<times> sock" where
  "read_into_recv malloc_ok now conn sk =
    (let hard_max = PORTICO_MAX_HEADER_SIZE + PORTICO_MAX_BODY;
         full = (length (c_recv conn) = c_recv_capacity conn);
         nc = min hard_max (if c_recv_capacity conn \<noteq> 0 then c_recv_capacity conn * 2 else 16384)
     in if full \<and> c_recv_capacity conn \<ge> hard_max then (0, conn, sk)
        else if full \<and> \<not> malloc_ok nc then (-1, conn, sk)
        else
          let conn = (if full then conn\<lparr>c_recv_capacity := nc\<rparr> else conn)
          in case ws_conn_socket_read sk (c_recv_capacity conn - length (c_recv conn)) of
               (RdBytes bs, sk) \<Rightarrow>
                 if bs = [] then (-1, conn, sk)
                 else read_into_recv malloc_ok now (ws_connection_add_bytes_received now (conn\<lparr>c_recv := c_recv conn @ bs\<rparr>)) sk
             | (RdAgain, sk) \<Rightarrow> (0, conn, sk)
             | (RdFail, sk) \<Rightarrow> (-1, conn, sk))"
  by pat_completeness auto
termination
  by (relation "measure (\<lambda>(malloc_ok, now, conn, sk). rd_size (sk_rd sk))") (auto dest!: read_decreases [OF sym])

declare read_into_recv.simps [simp del]

definition conn_send :: "'a http_env \<Rightarrow> bytes \<Rightarrow> 'a http_state \<Rightarrow> int \<times> 'a http_state" where
  "conn_send env buf st =
    (case portico_conn_send (he_malloc env) (hx_conn st) (hx_sock st) buf of (rc, conn, sk) \<Rightarrow> (rc, set_io conn sk st))"

definition finish_close :: "'a http_state \<Rightarrow> int \<times> 'a http_state" where
  "finish_close st = (case http_finish_close (hx_conn st) of (rc, conn) \<Rightarrow> (rc, set_conn (\<lambda>_. conn) st))"

definition http_reply_status :: "'a http_env \<Rightarrow> int \<Rightarrow> 'a http_state \<Rightarrow> int \<times> 'a http_state" where
  "http_reply_status env status st =
    (case portico_http_build_status (he_malloc env) status False of
       None \<Rightarrow> (-1, st)
     | Some b \<Rightarrow> conn_send env b st)"

definition http_error_close :: "'a http_env \<Rightarrow> int \<Rightarrow> 'a http_state \<Rightarrow> int \<times> 'a http_state" where
  "http_error_close env status st =
    (case http_reply_status env status st of
       (rc, st) \<Rightarrow> if rc < 0 then (-1, st) else finish_close st)"

definition consume :: "nat \<Rightarrow> 'a http_state \<Rightarrow> 'a http_state" where
  "consume n st = set_conn (\<lambda>c. c\<lparr>c_recv := (if n < length (c_recv c) then drop n (c_recv c) else [])\<rparr>) st"

section \<open>Files in one piece\<close>

text \<open>The result tells whether to close the connection; \<open>data\<close> is what was read, \<open>None\<close> an error.\<close>

definition file_emit :: "'a http_env \<Rightarrow> http_file_ctx \<Rightarrow> bytes option \<Rightarrow> 'a http_state \<Rightarrow> bool \<times> 'a http_state" where
  "file_emit env ctx data st =
    (case data of
       None \<Rightarrow>
         (case portico_http_build_status (he_malloc env) 500 False of
            None \<Rightarrow> (True, st)
          | Some b \<Rightarrow> (True, snd (conn_send env b st)))
     | Some body \<Rightarrow>
         let res = zero_response\<lparr>rs_status := fc_status ctx, rs_headers := fc_headers ctx, rs_body := Some body,
               rs_keep_alive := fc_keep_alive ctx\<rparr>
         in (case fst (portico_http_build_response (he_malloc env) res) of
               None \<Rightarrow> (True, st)
             | Some resp \<Rightarrow>
                 (case conn_send env resp st of
                    (rc, st) \<Rightarrow> if rc \<noteq> 0 then (True, st) else (\<not> fc_keep_alive ctx, st))))"

text \<open>Submitting a read: whether it was accepted.\<close>

definition portico_aio_submit :: "aio_op \<Rightarrow> 'a http_state \<Rightarrow> bool \<times> 'a http_state" where
  "portico_aio_submit rd st =
    (case hx_answers st of
       [] \<Rightarrow> (False, st)
     | a # rest \<Rightarrow>
         if a then (True, st\<lparr>hx_answers := rest, hx_inflight := hx_inflight st @ [rd]\<rparr>)
         else (False, st\<lparr>hx_answers := rest\<rparr>))"

text \<open>How a round of the request loop goes on: return, serve the next request, or pump a stream.\<close>

datatype 'a http_next = Return int "'a http_state" | Continue "'a http_state" | Pump nat "'a http_state"

definition return_of :: "int \<times> 'a http_state \<Rightarrow> 'a http_next" where
  "return_of r = Return (fst r) (snd r)"

section \<open>Streams\<close>

definition stream_free :: "nat \<Rightarrow> 'a http_state \<Rightarrow> 'a http_state" where
  "stream_free sid st =
    (case hx_streams st sid of
       None \<Rightarrow> st
     | Some s \<Rightarrow> (close_fd (hst_fd s) st)\<lparr>hx_streams := (hx_streams st)(sid := None)\<rparr>)"

definition stream_detach :: "nat \<Rightarrow> 'a http_state \<Rightarrow> 'a http_state" where
  "stream_detach sid st =
    stream_free sid (set_conn (\<lambda>c. c\<lparr>c_file_stream := None, c_http_async_inflight := False\<rparr>) st)"

definition stream_fail :: "nat \<Rightarrow> 'a http_state \<Rightarrow> int \<times> 'a http_state" where
  "stream_fail sid st = (-1, stream_detach sid st)"

definition portico_http_stream_abort :: "'a http_state \<Rightarrow> 'a http_state" where
  "portico_http_stream_abort st =
    (case c_file_stream (hx_conn st) of
       None \<Rightarrow> st
     | Some sid \<Rightarrow>
         let reading = (case hx_streams st sid of None \<Rightarrow> False | Some s \<Rightarrow> hst_reading s);
             st = set_conn (\<lambda>c. c\<lparr>c_file_stream := None\<rparr>) st
         in if reading then st else stream_free sid st)"

definition set_stream :: "nat \<Rightarrow> (http_stream \<Rightarrow> http_stream) \<Rightarrow> 'a http_state \<Rightarrow> 'a http_state" where
  "set_stream sid f st = st\<lparr>hx_streams := (hx_streams st)(sid := map_option f (hx_streams st sid))\<rparr>"

text \<open>The headers are sent first; the caller then pumps.\<close>

definition stream_start :: "'a http_env \<Rightarrow> portico_response \<Rightarrow> nat \<Rightarrow> 'a http_state \<Rightarrow> 'a http_next" where
  "stream_start env res taken st =
    (if \<not> he_malloc env SIZEOF_STREAM \<or> \<not> he_malloc env PORTICO_STREAM_CHUNK
     then return_of (http_error_close env 500 (close_fd (rs_file_fd res) st))
     else
       let s = \<lparr>hst_generation = c_generation (hx_conn st), hst_fd = rs_file_fd res, hst_offset = rs_file_offset res,
                hst_end = rs_file_offset res + rs_file_size res, hst_keep_alive = rs_keep_alive res, hst_reading = False\<rparr>;
           sid = hx_next st;
           st = consume taken (st\<lparr>hx_streams := (hx_streams st)(sid := Some s), hx_next := sid + 1\<rparr>);
           hdr = response_head (rs_status res) (rs_headers res) (dec_int (rs_file_size res)) (rs_keep_alive res)
       in if length hdr \<ge> PORTICO_RES_HEADERS_CAP + 256 then return_of (http_error_close env 500 (stream_free sid st))
          else
            let st = set_conn (\<lambda>c. c\<lparr>c_file_stream := Some sid, c_http_async_inflight := True\<rparr>) st;
                (rc, st) = conn_send env hdr st
            in if rc \<noteq> 0 then Return (-1) (stream_detach sid st) else Pump sid st)"

text \<open>One round of pumping: return, try the next chunk, or go on with requests after the end.\<close>

datatype 'a stream_next = SReturn int "'a http_state" | SMore "'a http_state" | SResume "'a http_state"

definition stream_end :: "nat \<Rightarrow> 'a http_state \<Rightarrow> 'a stream_next" where
  "stream_end sid st =
    (let keep_alive = (case hx_streams st sid of None \<Rightarrow> False | Some s \<Rightarrow> hst_keep_alive s);
         st = stream_detach sid st
     in if keep_alive then SResume st
        else if backlogged st then SReturn 0 (set_conn (\<lambda>c. c\<lparr>c_out_close_when_drained := True\<rparr>) st)
        else SReturn (-1) st)"

definition stream_send :: "'a http_env \<Rightarrow> nat \<Rightarrow> bytes option \<Rightarrow> 'a http_state \<Rightarrow> bool \<times> 'a http_state" where
  "stream_send env sid data st =
    (case data of
       None \<Rightarrow> (False, st)
     | Some bs \<Rightarrow>
         if bs = [] then (False, st)
         else case conn_send env bs st of
                (rc, st) \<Rightarrow>
                  if rc \<noteq> 0 then (False, st)
                  else (True, set_stream sid (\<lambda>s. s\<lparr>hst_offset := hst_offset s + int (length bs)\<rparr>) st))"

definition stream_step :: "'a http_env \<Rightarrow> nat \<Rightarrow> 'a http_state \<Rightarrow> 'a stream_next" where
  "stream_step env sid st =
    (case hx_streams st sid of
       None \<Rightarrow> SReturn 0 st
     | Some s \<Rightarrow>
         if hst_reading s then SReturn 0 st
         else if backlogged st then SReturn 0 st
         else if hst_offset s \<ge> hst_end s then stream_end sid st
         else
           let want = min (nat (hst_end s - hst_offset s)) PORTICO_STREAM_CHUNK;
               (accepted, st) =
                 (if he_aio env
                  then portico_aio_submit \<lparr>op_user = AioStream sid, op_fd = hst_fd s, op_len = want, op_offset = hst_offset s\<rparr> st
                  else (False, st))
           in if accepted then SReturn 0 (set_stream sid (\<lambda>s. s\<lparr>hst_reading := True\<rparr>) st)
              else
                (case stream_send env sid (sys_pread (he_fs env) (hst_fd s) want (hst_offset s) (hx_fds st)) st of
                  (True, st) \<Rightarrow> SMore st
                | (False, st) \<Rightarrow> (case stream_fail sid st of (rc, st) \<Rightarrow> SReturn rc st)))"

section \<open>Requests\<close>

definition http_serve_file :: "'a http_env \<Rightarrow> portico_response \<Rightarrow> nat \<Rightarrow> 'a http_state \<Rightarrow> 'a http_next" where
  "http_serve_file env res taken st =
    (if he_aio env \<and> rs_file_size res > int PORTICO_STREAM_CHUNK then stream_start env res taken st
     else if rs_file_size res > int PORTICO_SINGLE_MAX then
       return_of (http_error_close env 503 (consume taken (close_fd (rs_file_fd res) st)))
     else
       let sz = size_of_ll (rs_file_size res)
       in if \<not> he_malloc env (if sz \<noteq> 0 then sz else 1) \<or> \<not> he_malloc env SIZEOF_FILE_CTX
          then return_of (http_error_close env 500 (close_fd (rs_file_fd res) st))
          else
            let ctx = \<lparr>fc_generation = c_generation (hx_conn st), fc_fd = rs_file_fd res, fc_status = rs_status res,
                       fc_keep_alive = rs_keep_alive res, fc_headers = rs_headers res\<rparr>;
                st = consume taken st;
                (accepted, st) =
                  (if he_aio env
                   then portico_aio_submit \<lparr>op_user = AioFile ctx, op_fd = fc_fd ctx, op_len = sz, op_offset = rs_file_offset res\<rparr> st
                   else (False, st))
            in if accepted then Return 0 (set_conn (\<lambda>c. c\<lparr>c_http_async_inflight := True\<rparr>) st)
               else
                 case file_emit env ctx (sys_pread (he_fs env) (fc_fd ctx) sz (rs_file_offset res) (hx_fds st)) st of
                   (close_it, st) \<Rightarrow>
                     let st = close_fd (fc_fd ctx) st
                     in if close_it then return_of (finish_close st) else Continue st)"

definition respond :: "'a http_env \<Rightarrow> portico_request \<Rightarrow> portico_response \<Rightarrow> nat \<Rightarrow> 'a http_state \<Rightarrow> 'a http_next" where
  "respond env req res taken st =
    (case fst (portico_http_build_response (he_malloc env) res) of
       None \<Rightarrow> Return (-1) st
     | Some resp \<Rightarrow>
         (case conn_send env resp st of
            (rc, st) \<Rightarrow>
              if rc \<noteq> 0 then Return (-1) st
              else
                let st = consume taken st
                in if \<not> rq_keep_alive req then return_of (finish_close st) else Continue st))"

definition headers_complete :: "bytes \<Rightarrow> bool" where
  "headers_complete buf \<longleftrightarrow> before (CRLF @ CRLF) buf \<noteq> None"

text \<open>One round of the request loop.\<close>

definition http_step :: "'a http_env \<Rightarrow> 'a http_state \<Rightarrow> 'a http_next" where
  "http_step env st =
    (let buf = c_recv (hx_conn st)
     in if buf = [] then Return 0 st
        else (case portico_http_parse (he_sse env) buf of
          (len, req) \<Rightarrow>
            if len = 0 then
              (if \<not> headers_complete buf \<and> length buf > PORTICO_MAX_HEADER_SIZE
               then return_of (http_error_close env 431 st) else Return 0 st)
            else if len = -1 then return_of (http_error_close env 400 st)
            else if len = -2 then return_of (http_error_close env 413 st)
            else if len = -3 then return_of (http_error_close env 501 st)
            else
              let req = resolve_client_ip (he_inet_ok env) (he_trust_proxy env) (he_peer env) req;
                  res = zero_response\<lparr>rs_keep_alive := rq_keep_alive req\<rparr>;
                  taken = size_of_ll len
              in (case he_on_http_request env of
                   None \<Rightarrow> respond env req (res\<lparr>rs_status := 501\<rparr>) taken st
                 | Some handler \<Rightarrow>
                     (case handler (hx_app st) req res (hx_fds st) of
                        (hrc, res, fds, app) \<Rightarrow>
                          let st = st\<lparr>hx_fds := fds, hx_app := app\<rparr>
                          in if hrc \<noteq> 0 then
                               let st = (if rs_is_file res then close_fd (rs_file_fd res) st else st)
                               in respond env req (res\<lparr>rs_status := 500, rs_body := None, rs_is_file := False\<rparr>) taken st
                             else if rs_is_file res then http_serve_file env res taken st
                             else respond env req res taken st))))"

section \<open>The request loop\<close>

lemma set_conn_sel [simp]:
  "hs_conn (hx_h (set_conn f st)) = f (hx_conn st)" "hs_sock (hx_h (set_conn f st)) = hx_sock st"
  "hx_fds (set_conn f st) = hx_fds st" "hx_app (set_conn f st) = hx_app st"
  "hx_streams (set_conn f st) = hx_streams st" "hx_next (set_conn f st) = hx_next st"
  "hx_inflight (set_conn f st) = hx_inflight st" "hx_answers (set_conn f st) = hx_answers st"
  "hx_closed (set_conn f st) = hx_closed st"
  by (simp_all add: set_conn_def)

lemma set_io_sel [simp]:
  "hs_conn (hx_h (set_io conn sk st)) = conn" "hs_sock (hx_h (set_io conn sk st)) = sk"
  "hx_fds (set_io conn sk st) = hx_fds st" "hx_app (set_io conn sk st) = hx_app st"
  "hx_streams (set_io conn sk st) = hx_streams st" "hx_next (set_io conn sk st) = hx_next st"
  "hx_inflight (set_io conn sk st) = hx_inflight st" "hx_answers (set_io conn sk st) = hx_answers st"
  "hx_closed (set_io conn sk st) = hx_closed st"
  by (simp_all add: set_io_def)

lemma close_fd_sel [simp]:
  "hx_h (close_fd fd st) = hx_h st" "hx_app (close_fd fd st) = hx_app st"
  "hx_streams (close_fd fd st) = hx_streams st" "hx_next (close_fd fd st) = hx_next st"
  "hx_inflight (close_fd fd st) = hx_inflight st" "hx_answers (close_fd fd st) = hx_answers st"
  "hx_closed (close_fd fd st) = hx_closed st" "hx_fds (close_fd fd st) = sys_close fd (hx_fds st)"
  by (simp_all add: close_fd_def)

lemma set_stream_sel [simp]:
  "hx_h (set_stream sid f st) = hx_h st" "hx_fds (set_stream sid f st) = hx_fds st"
  "hx_app (set_stream sid f st) = hx_app st" "hx_next (set_stream sid f st) = hx_next st"
  "hx_inflight (set_stream sid f st) = hx_inflight st" "hx_answers (set_stream sid f st) = hx_answers st"
  "hx_closed (set_stream sid f st) = hx_closed st"
  "hx_streams (set_stream sid f st) = (hx_streams st)(sid := map_option f (hx_streams st sid))"
  by (simp_all add: set_stream_def)

text \<open>A send touches only the output fields of the connection and the socket.\<close>

definition out_frame :: "ws_connection \<Rightarrow> ws_connection \<Rightarrow> bool" where
  "out_frame c c' \<longleftrightarrow> c' = c\<lparr>c_out := c_out c', c_out_sent := c_out_sent c', c_out_capacity := c_out_capacity c'\<rparr>"

lemma out_frameI: "out_frame c (c\<lparr>c_out := out, c_out_sent := sent, c_out_capacity := cap\<rparr>)"
  by (simp add: out_frame_def)

lemma out_frame_refl: "out_frame c c"
  by (simp add: out_frame_def)

lemma out_frame_sel:
  assumes "out_frame c c'"
  shows "c_recv c' = c_recv c" "c_file_stream c' = c_file_stream c" "c_generation c' = c_generation c"
    "c_state c' = c_state c" "c_http_async_inflight c' = c_http_async_inflight c"
    "c_out_close_when_drained c' = c_out_close_when_drained c" "c_fd c' = c_fd c"
    "c_recv_capacity c' = c_recv_capacity c"
  using arg_cong [OF assms [unfolded out_frame_def], of c_recv]
    arg_cong [OF assms [unfolded out_frame_def], of c_file_stream]
    arg_cong [OF assms [unfolded out_frame_def], of c_generation]
    arg_cong [OF assms [unfolded out_frame_def], of c_state]
    arg_cong [OF assms [unfolded out_frame_def], of c_http_async_inflight]
    arg_cong [OF assms [unfolded out_frame_def], of c_out_close_when_drained]
    arg_cong [OF assms [unfolded out_frame_def], of c_fd]
    arg_cong [OF assms [unfolded out_frame_def], of c_recv_capacity]
  by simp_all

lemma conn_out_append_frame:
  "conn_out_append malloc_ok conn buf = (r, conn') \<Longrightarrow> out_frame conn conn'"
  unfolding conn_out_append_def Let_def out_frame_def
  by (auto split: if_splits)

lemma socket_write_frame:
  "ws_conn_socket_write sk buf = (r, sk') \<Longrightarrow> sk_rd sk' = sk_rd sk \<and> sk_epoll_ok sk' = sk_epoll_ok sk"
  by (auto simp: ws_conn_socket_write_def split: list.splits wr_answer.splits)

lemma conn_send_loop_frame:
  "conn_send_loop malloc_ok conn sk buf = (r, conn', sk') \<Longrightarrow>
   out_frame conn conn' \<and> sk_rd sk' = sk_rd sk \<and> sk_epoll_ok sk' = sk_epoll_ok sk"
proof (induction malloc_ok conn sk buf arbitrary: r conn' sk' rule: conn_send_loop.induct)
  case (1 malloc_ok conn sk buf)
  obtain ret sk1 where w: "ws_conn_socket_write sk buf = (ret, sk1)" by fastforce
  obtain rc conn1 where ap: "conn_out_append malloc_ok conn buf = (rc, conn1)" by fastforce
  note f = socket_write_frame [OF w] conn_out_append_frame [OF ap] out_frame_refl [of conn]
  show ?case
  proof (cases "buf = []")
    case True
    thus ?thesis using 1(2) f by (subst (asm) conn_send_loop.simps) simp
  next
    case False
    show ?thesis
    proof (cases ret)
      case (Sent n)
      show ?thesis
      proof (cases "0 < n")
        case True
        hence "conn_send_loop malloc_ok conn sk1 (drop n buf) = (r, conn', sk')"
          using 1(2) w Sent False by (subst (asm) conn_send_loop.simps) simp
        thus ?thesis using 1(1) [OF False w [symmetric] Sent True] f by simp
      next
        case False
        thus ?thesis using 1(2) w Sent \<open>buf \<noteq> []\<close> f by (subst (asm) conn_send_loop.simps) auto
      qed
    next
      case Again
      thus ?thesis using 1(2) w False f ap
        by (subst (asm) conn_send_loop.simps) (auto simp: conn_set_epollout_def split: if_splits)
    next
      case Fail
      thus ?thesis using 1(2) w False f by (subst (asm) conn_send_loop.simps) auto
    qed
  qed
qed

lemma portico_conn_send_frame:
  "portico_conn_send malloc_ok conn sk buf = (r, conn', sk') \<Longrightarrow>
   out_frame conn conn' \<and> sk_rd sk' = sk_rd sk \<and> sk_epoll_ok sk' = sk_epoll_ok sk"
  using conn_out_append_frame [of malloc_ok conn buf] conn_send_loop_frame [of malloc_ok conn sk buf]
  by (auto simp: portico_conn_send_def Let_def split: if_splits prod.splits)

lemma conn_send_frame:
  assumes "conn_send env buf st = (r, st')"
  shows "st' = set_io (hx_conn st') (hx_sock st') st" "out_frame (hx_conn st) (hx_conn st')"
    "sk_rd (hx_sock st') = sk_rd (hx_sock st)" "sk_epoll_ok (hx_sock st') = sk_epoll_ok (hx_sock st)"
  using assms portico_conn_send_frame [of "he_malloc env" "hx_conn st" "hx_sock st" buf]
  by (auto simp: conn_send_def split: prod.splits)

text \<open>Facts every send gives: the rest of the state stays.\<close>

lemma conn_send_keeps:
  assumes "conn_send env buf st = (r, st')"
  shows "c_recv (hx_conn st') = c_recv (hx_conn st)" "hx_streams st' = hx_streams st" "hx_fds st' = hx_fds st"
    "hx_app st' = hx_app st" "hx_next st' = hx_next st" "hx_inflight st' = hx_inflight st"
    "hx_answers st' = hx_answers st" "hx_closed st' = hx_closed st"
    "c_file_stream (hx_conn st') = c_file_stream (hx_conn st)" "c_generation (hx_conn st') = c_generation (hx_conn st)"
    "c_state (hx_conn st') = c_state (hx_conn st)"
    "c_http_async_inflight (hx_conn st') = c_http_async_inflight (hx_conn st)"
    "c_out_close_when_drained (hx_conn st') = c_out_close_when_drained (hx_conn st)"
  using conn_send_frame [OF assms] out_frame_sel [OF conn_send_frame(2) [OF assms]]
  by (metis set_io_sel)+

lemma submit_keeps:
  assumes "portico_aio_submit rd st = (a, st')"
  shows "hx_h st' = hx_h st" "hx_streams st' = hx_streams st" "hx_fds st' = hx_fds st" "hx_app st' = hx_app st"
    "hx_next st' = hx_next st" "hx_closed st' = hx_closed st"
    "hx_inflight st' = hx_inflight st @ (if a then [rd] else [])"
  using assms by (auto simp: portico_aio_submit_def split: list.splits if_splits)

abbreviation hx_recv :: "'a http_state \<Rightarrow> bytes" where
  "hx_recv st \<equiv> c_recv (hx_conn st)"

lemma consume_recv [simp]: "hx_recv (consume n st) = drop n (hx_recv st)"
  by (simp add: consume_def)

lemma consume_sel [simp]:
  "hs_sock (hx_h (consume n st)) = hx_sock st" "hx_fds (consume n st) = hx_fds st"
  "hx_app (consume n st) = hx_app st" "hx_streams (consume n st) = hx_streams st"
  "hx_next (consume n st) = hx_next st" "hx_inflight (consume n st) = hx_inflight st"
  "hx_answers (consume n st) = hx_answers st" "hx_closed (consume n st) = hx_closed st"
  by (simp_all add: consume_def)

lemma stream_free_sel [simp]:
  "hx_h (stream_free sid st) = hx_h st" "hx_app (stream_free sid st) = hx_app st"
  "hx_next (stream_free sid st) = hx_next st" "hx_inflight (stream_free sid st) = hx_inflight st"
  "hx_answers (stream_free sid st) = hx_answers st" "hx_closed (stream_free sid st) = hx_closed st"
  "hx_streams (stream_free sid st) = (hx_streams st)(sid := None)"
  by (auto simp: stream_free_def fun_upd_idem split: option.splits)

lemma stream_detach_sel [simp]:
  "hs_conn (hx_h (stream_detach sid st)) = (hx_conn st)\<lparr>c_file_stream := None, c_http_async_inflight := False\<rparr>"
  "hs_sock (hx_h (stream_detach sid st)) = hx_sock st"
  "hx_app (stream_detach sid st) = hx_app st" "hx_next (stream_detach sid st) = hx_next st"
  "hx_inflight (stream_detach sid st) = hx_inflight st" "hx_answers (stream_detach sid st) = hx_answers st"
  "hx_closed (stream_detach sid st) = hx_closed st"
  "hx_streams (stream_detach sid st) = (hx_streams st)(sid := None)"
  by (simp_all add: stream_detach_def)

lemma file_emit_keeps:
  assumes "file_emit env ctx data st = (close_it, st')"
  shows "hx_recv st' = hx_recv st" "hx_streams st' = hx_streams st" "hx_fds st' = hx_fds st" "hx_app st' = hx_app st"
    "hx_next st' = hx_next st" "hx_inflight st' = hx_inflight st" "hx_closed st' = hx_closed st"
proof -
  have "st' = st \<or> (\<exists>b r. conn_send env b st = (r, st'))"
    using assms by (auto simp: file_emit_def Let_def split: option.splits prod.splits if_splits)
      (metis prod.collapse)+
  thus "hx_recv st' = hx_recv st" "hx_streams st' = hx_streams st" "hx_fds st' = hx_fds st" "hx_app st' = hx_app st"
    "hx_next st' = hx_next st" "hx_inflight st' = hx_inflight st" "hx_closed st' = hx_closed st"
    using conn_send_keeps by metis+
qed

lemma respond_continue:
  "respond env req res taken st = Continue st' \<Longrightarrow> hx_recv st' = drop taken (hx_recv st)"
  using conn_send_keeps(1)
  by (fastforce simp: respond_def return_of_def Let_def split: option.splits prod.splits if_splits)

lemma respond_not_pump: "respond env req res taken st \<noteq> Pump sid st'"
  by (auto simp: respond_def return_of_def Let_def split: option.splits prod.splits if_splits)

lemma stream_start_pump:
  assumes "stream_start env res taken st = Pump sid st'"
  shows "hx_recv st' = drop taken (hx_recv st)"
  using assms conn_send_keeps(1)
  by (fastforce simp: stream_start_def return_of_def Let_def split: prod.splits if_splits)

lemma stream_start_not_continue: "stream_start env res taken st \<noteq> Continue st'"
  by (auto simp: stream_start_def return_of_def Let_def split: prod.splits if_splits)

lemma serve_file_continue:
  "http_serve_file env res taken st = Continue st' \<Longrightarrow> hx_recv st' = drop taken (hx_recv st)"
  using submit_keeps(1) file_emit_keeps(1)
  by (fastforce simp: http_serve_file_def stream_start_not_continue return_of_def Let_def
      split: prod.splits if_splits)

lemma serve_file_pump:
  "http_serve_file env res taken st = Pump sid st' \<Longrightarrow> hx_recv st' = drop taken (hx_recv st)"
  using stream_start_pump
  by (fastforce simp: http_serve_file_def return_of_def Let_def split: prod.splits if_splits)

lemma http_parse_range:
  assumes "portico_http_parse sse buf = (r, req)"
  shows "-(2 ^ 31) \<le> r" "r < 2 ^ 31"
proof -
  have c: "-(2 ^ 31) \<le> c_int n" "c_int n < 2 ^ 31" for n
    using sint_range_size [of "word_of_nat n :: 32 word"] by (simp_all add: c_int_def word_size)
  have f: "fst (resolve_body_framing rq) \<in> {0, -1, -3}" for rq
    using framing_loop_codes [of "rq_headers rq" "(False, 0)"] by (simp add: resolve_body_framing_def)
  obtain pret parsed where q: "phr_parse_request sse buf PORTICO_MAX_HEADERS 0 = (pret, parsed)" by fastforce
  have "-(2 ^ 31) \<le> r \<and> r < 2 ^ 31"
  proof (cases "pret \<in> {-1, -2} \<or> parsed = None")
    case True
    thus ?thesis using assms q by (auto simp: portico_http_parse_def split: if_splits)
  next
    case False
    then obtain pr where pr: "parsed = Some pr" "pret \<noteq> -1" "pret \<noteq> -2" by auto
    obtain rq where rq: "rq = zero_request \<lparr>rq_method := pr_method pr, rq_minor_version := pr_minor_version pr,
        rq_path := fst (split_target (pr_path pr)), rq_query := snd (split_target (pr_path pr)), rq_headers := pr_headers pr\<rparr>"
      by simp
    obtain fr clen where fr: "resolve_body_framing rq = (fr, clen)" by fastforce
    show ?thesis
      using assms q pr fr [unfolded rq] f [of rq] c fr
      by (auto simp: portico_http_parse_def Let_def split: if_splits)
  qed
  thus "-(2 ^ 31) \<le> r" "r < 2 ^ 31" by simp_all
qed

lemma size_of_ll_pos: "r \<noteq> 0 \<Longrightarrow> -(2 ^ 31) \<le> r \<Longrightarrow> r < 2 ^ 31 \<Longrightarrow> 0 < size_of_ll r"
  using zdvd_imp_le [of "2 ^ 64" r] zdvd_imp_le [of "2 ^ 64" "- r"]
  unfolding size_of_ll_def by (cases "0 < r") (auto simp: unat_gt_0 word_of_int_eq_0_iff)

text \<open>Every round of the request loop that does not return consumes bytes.\<close>

lemma http_step_consumes:
  assumes "http_step env st = Continue st' \<or> http_step env st = Pump sid st'"
  shows "length (hx_recv st') < length (hx_recv st)"
proof -
  obtain len req where p: "portico_http_parse (he_sse env) (hx_recv st) = (len, req)" by fastforce
  define taken where "taken = size_of_ll len"
  have ne: "hx_recv st \<noteq> []" "len \<noteq> 0"
    using assms p by (auto simp: http_step_def return_of_def Let_def split: if_splits)
  have neg: "len \<noteq> -1" "len \<noteq> -2" "len \<noteq> -3"
    using assms p ne by (auto simp: http_step_def return_of_def Let_def)
  have "hx_recv st' = drop taken (hx_recv st)"
  proof (cases "he_on_http_request env")
    case None
    thus ?thesis using assms p ne neg
      by (auto simp: http_step_def Let_def taken_def respond_not_pump dest: respond_continue)
  next
    case (Some handler)
    let ?req = "resolve_client_ip (he_inet_ok env) (he_trust_proxy env) (he_peer env) req"
    obtain hrc res fds app where h: "handler (hx_app st) ?req (zero_response\<lparr>rs_keep_alive := rq_keep_alive ?req\<rparr>)
        (hx_fds st) = (hrc, res, fds, app)" by (metis prod_cases4)
    show ?thesis using assms p ne neg Some h
      by (auto simp: http_step_def Let_def taken_def respond_not_pump
          dest!: respond_continue serve_file_continue serve_file_pump split: if_splits)
  qed
  moreover have "0 < taken" using ne http_parse_range [OF p] by (simp add: taken_def size_of_ll_pos)
  ultimately show ?thesis using ne by simp
qed

lemma stream_send_keeps:
  assumes "stream_send env sid data st = (ok, st')"
  shows "hx_recv st' = hx_recv st" "hx_fds st' = hx_fds st" "hx_app st' = hx_app st" "hx_next st' = hx_next st"
    "hx_inflight st' = hx_inflight st" "hx_closed st' = hx_closed st"
    "hx_streams st' = (if ok then (hx_streams st)(sid := map_option
       (\<lambda>s. s\<lparr>hst_offset := hst_offset s + int (length (the data))\<rparr>) (hx_streams st sid)) else hx_streams st)"
    "ok \<Longrightarrow> data \<noteq> None \<and> the data \<noteq> []"
  using assms
  by (auto simp: stream_send_def conn_send_keeps split: option.splits if_splits prod.splits)

definition stream_left :: "nat \<Rightarrow> 'a http_state \<Rightarrow> nat" where
  "stream_left sid st = (case hx_streams st sid of None \<Rightarrow> 0 | Some s \<Rightarrow> nat (hst_end s - hst_offset s))"

lemma stream_step_more:
  assumes "stream_step env sid st = SMore st'"
  shows "hx_recv st' = hx_recv st" "stream_left sid st' < stream_left sid st"
proof -
  obtain s where s: "hx_streams st sid = Some s" "\<not> hst_reading s" "\<not> backlogged st" "hst_offset s < hst_end s"
    using assms by (auto simp: stream_step_def stream_end_def Let_def split: option.splits if_splits)
  define want where "want = min (nat (hst_end s - hst_offset s)) PORTICO_STREAM_CHUNK"
  define sub where "sub = (if he_aio env
    then portico_aio_submit \<lparr>op_user = AioStream sid, op_fd = hst_fd s, op_len = want, op_offset = hst_offset s\<rparr> st
    else (False, st))"
  obtain a st0 where a: "sub = (a, st0)" by fastforce
  hence k: "hx_recv st0 = hx_recv st" "hx_streams st0 = hx_streams st" "hx_fds st0 = hx_fds st"
    using submit_keeps(1-3) [of _ st a st0] by (auto simp: sub_def split: if_splits)
  obtain ok st1 where sd: "stream_send env sid (sys_pread (he_fs env) (hst_fd s) want (hst_offset s) (hx_fds st0)) st0 = (ok, st1)"
    by fastforce
  have "ok \<and> st' = st1"
    using assms s a sd
    by (simp add: stream_step_def Let_def want_def [symmetric] sub_def [symmetric] stream_fail_def split: if_splits bool.splits)
  thus "hx_recv st' = hx_recv st" "stream_left sid st' < stream_left sid st"
    using stream_send_keeps [OF sd] k s by (auto simp: stream_left_def)
qed

lemma stream_step_resume:
  "stream_step env sid st = SResume st' \<Longrightarrow> hx_recv st' = hx_recv st"
  by (auto simp: stream_step_def stream_end_def stream_fail_def Let_def split: option.splits if_splits prod.splits bool.splits)

function process_http_buffer :: "'a http_env \<Rightarrow> 'a http_state \<Rightarrow> int \<times> 'a http_state"
  and stream_advance :: "'a http_env \<Rightarrow> nat \<Rightarrow> 'a http_state \<Rightarrow> int \<times> 'a http_state" where
  "process_http_buffer env st =
    (case http_step env st of
       Return rc st \<Rightarrow> (rc, st)
     | Continue st \<Rightarrow> process_http_buffer env st
     | Pump sid st \<Rightarrow>
         (case stream_advance env sid st of
            (rc, st) \<Rightarrow>
              if rc < 0 then
                if backlogged st then (0, set_conn (\<lambda>c. c\<lparr>c_out_close_when_drained := True\<rparr>) st)
                else (-1, st)
              else (0, st)))"
| "stream_advance env sid st =
    (case stream_step env sid st of
       SReturn rc st \<Rightarrow> (rc, st)
     | SMore st \<Rightarrow> stream_advance env sid st
     | SResume st \<Rightarrow> process_http_buffer env st)"
  by pat_completeness auto
termination
proof (relation "inv_image (less_than <*lex*> less_than)
    (\<lambda>x. case x of Inl (env, st) \<Rightarrow> (2 * length (hx_recv st), 0)
                 | Inr (env, sid, st) \<Rightarrow> (2 * length (hx_recv st) + 1, stream_left sid st))", goal_cases)
  case 1
  show ?case by (intro wf_inv_image wf_lex_prod wf_less_than)
next
  case (2 env st x)
  thus ?case using http_step_consumes [of env st] by simp
next
  case (3 env st x y)
  thus ?case using http_step_consumes [of env st] by simp
next
  case (4 env sid st x)
  thus ?case using stream_step_more [of env sid st] by simp
next
  case (5 env sid st x)
  thus ?case using stream_step_resume [of env sid st] by simp
qed

declare process_http_buffer.simps [simp del] stream_advance.simps [simp del]

section \<open>Completions and events\<close>

definition stream_finish :: "'a http_env \<Rightarrow> nat \<Rightarrow> 'a http_state \<Rightarrow> int \<times> 'a http_state" where
  "stream_finish env sid st =
    (case stream_end sid st of
       SReturn rc st \<Rightarrow> (rc, st)
     | SMore st \<Rightarrow> (0, st)
     | SResume st \<Rightarrow> process_http_buffer env st)"

text \<open>After a completion asked for the connection to be closed: now, or once the output is drained.\<close>

definition close_or_drain :: "'a http_state \<Rightarrow> 'a http_state" where
  "close_or_drain st =
    (if backlogged st then set_conn (\<lambda>c. c\<lparr>c_out_close_when_drained := True\<rparr>) st else st\<lparr>hx_closed := True\<rparr>)"

definition file_read_complete :: "'a http_env \<Rightarrow> http_file_ctx \<Rightarrow> bytes option \<Rightarrow> 'a http_state \<Rightarrow> 'a http_state" where
  "file_read_complete env ctx data st =
    (let conn = hx_conn st;
         st =
           (if c_generation conn = fc_generation ctx \<and> 0 \<le> sint (c_fd conn) \<and> c_state conn = WS_STATE_HTTP then
              let st = set_conn (\<lambda>c. c\<lparr>c_http_async_inflight := False\<rparr>) st;
                  (close_it, st) = file_emit env ctx data st;
                  (close_it, st) =
                    (if \<not> close_it then (case process_http_buffer env st of (rc, st) \<Rightarrow> (rc < 0, st)) else (close_it, st))
              in if close_it then close_or_drain st else st
            else st)
     in close_fd (fc_fd ctx) st)"

definition stream_chunk_complete :: "'a http_env \<Rightarrow> nat \<Rightarrow> bytes option \<Rightarrow> 'a http_state \<Rightarrow> 'a http_state" where
  "stream_chunk_complete env sid data st =
    (case hx_streams st sid of
       None \<Rightarrow> st
     | Some s \<Rightarrow>
         let st = set_stream sid (\<lambda>s. s\<lparr>hst_reading := False\<rparr>) st;
             conn = hx_conn st
         in if \<not> (c_generation conn = hst_generation s \<and> c_state conn = WS_STATE_HTTP \<and> c_file_stream conn = Some sid)
            then stream_free sid st
            else
              let st = set_conn (\<lambda>c. c\<lparr>c_last_activity := he_now env\<rparr>) st;
                  (ok, st) = stream_send env sid data st;
                  (rc, st) =
                    (if \<not> ok then stream_fail sid st
                     else if stream_left sid st = 0 then stream_finish env sid st
                     else stream_advance env sid st)
              in if rc < 0 then close_or_drain st else st)"

text \<open>The completion of a read: \<open>data\<close> is what it returned, \<open>None\<close> an error.\<close>

definition aio_complete :: "'a http_env \<Rightarrow> aio_op \<Rightarrow> bytes option \<Rightarrow> 'a http_state \<Rightarrow> 'a http_state" where
  "aio_complete env rd data st =
    (case op_user rd of
       AioFile ctx \<Rightarrow> file_read_complete env ctx data st
     | AioStream sid \<Rightarrow> stream_chunk_complete env sid data st)"

definition portico_conn_on_writable :: "'a http_env \<Rightarrow> 'a http_state \<Rightarrow> int \<times> 'a http_state" where
  "portico_conn_on_writable env st =
    (case conn_out_drain (hx_conn st) (hx_sock st) of
       (rc, conn, sk) \<Rightarrow>
         let st = set_io conn sk st
         in if rc < 0 then (-1, st)
            else if backlogged st then (0, st)
            else
              let st = set_io conn (snd (conn_set_epollout sk False)) st
              in (case c_file_stream conn of
                    Some sid \<Rightarrow> stream_advance env sid st
                  | None \<Rightarrow> (if c_out_close_when_drained conn then -1 else 0, st)))"

definition portico_http_event :: "'a http_env \<Rightarrow> 'a http_state \<Rightarrow> int \<times> 'a http_state" where
  "portico_http_event env st =
    (if c_out_close_when_drained (hx_conn st) then (0, st)
     else case read_into_recv (he_malloc env) (he_now env) (hx_conn st) (hx_sock st) of
            (rc, conn, sk) \<Rightarrow>
              let st = set_io conn sk st
              in if rc < 0 then (-1, st)
                 else if c_http_async_inflight conn then (0, st)
                 else process_http_buffer env st)"

definition portico_initial_dispatch :: "'a http_env \<Rightarrow> 'a http_state \<Rightarrow> int \<times> 'a http_state" where
  "portico_initial_dispatch env st =
    (case read_into_recv (he_malloc env) (he_now env) (hx_conn st) (hx_sock st) of
       (rc, conn, sk) \<Rightarrow>
         let st = set_io conn sk st;
             buf = c_recv conn
         in if rc < 0 then (-1, st)
            else (case before (CRLF @ CRLF) buf of
              None \<Rightarrow> if length buf > PORTICO_MAX_HEADER_SIZE then http_error_close env 431 st else (0, st)
            | Some h \<Rightarrow>
                let headers_len = length h + 4
                in if ci_contains (take headers_len buf) (bytes_of ''sec-websocket-key'') then
                     (if \<not> he_malloc env (headers_len + 1) then (-1, st)
                      else
                        (case ws_process_handshake (he_malloc env) (he_on_handshake env) (hx_h st) (cstr (take headers_len buf)) of
                          (rc, hst) \<Rightarrow>
                            if rc \<noteq> 0 then (-1, st\<lparr>hx_h := hst\<rparr>)
                            else
                              let hst = map_conn (\<lambda>c. ws_connection_set_state c WS_STATE_OPEN) hst;
                                  hst = log_event (he_on_connect env) (OnConnect (c_fd (hs_conn hst))) hst
                              in (0, consume headers_len (st\<lparr>hx_h := hst\<rparr>))))
                   else if he_on_http_request env = None then http_error_close env 501 st
                   else process_http_buffer env (set_conn (\<lambda>c. ws_connection_set_state c WS_STATE_HTTP) st)))"

end
