(* ===== verification/Ws_Reassembly.thy ===== *)
theory Ws_Reassembly
  imports Ws_Handler
begin

text \<open>
  Correctness of frame handling: whatever bytes arrive, the application only sees messages within
  the configured limit and valid text; a fragmented message is delivered whole; and the result
  does not depend on how the byte stream was cut into reads.
\<close>

section \<open>Invariant\<close>

definition frag_inv :: "u64 \<Rightarrow> ws_frame_parser \<Rightarrow> bool" where
  "frag_inv lim p \<longleftrightarrow>
    (if fp_in_fragmented_message p then
       (\<exists>b. fp_fragment_buffer p = Some b \<and> length b = fp_fragment_total_size p) \<and>
       fp_fragment_total_size p \<le> unat lim \<and> fp_fragment_total_size p \<le> fp_fragment_buffer_size p \<and>
       fp_fragment_opcode p \<in> {WS_OPCODE_TEXT, WS_OPCODE_BINARY}
     else fp_fragment_buffer p = None)"

fun event_ok :: "u64 \<Rightarrow> ws_event \<Rightarrow> bool" where
  "event_ok lim (OnText fd data user) = (ws_utf8_valid data \<and> length data \<le> unat lim)"
| "event_ok lim (OnBinary fd data user) = (length data \<le> unat lim)"
| "event_ok lim (OnPong fd data) = (length data \<le> 125)"
| "event_ok lim (OnClose fd code reason) = ws_close_code_valid code"
| "event_ok lim _ = True"

definition handler_inv :: "ws_server_cfg \<Rightarrow> hstate \<Rightarrow> bool" where
  "handler_inv server st \<longleftrightarrow>
    frag_inv (sv_max_message_size server) (c_frame_parser (hs_conn st)) \<and>
    (\<forall>ev \<in> set (hs_log st). event_ok (sv_max_message_size server) ev)"

lemma frag_inv_cleanup: "frag_inv lim (c_frame_parser (cleanup_fragmentation_state c))"
  by (simp add: frag_inv_def cleanup_fragmentation_state_def)

lemma fail_inv:
  "ws_fail_connection malloc_ok st code = (r, st') \<Longrightarrow>
   handler_inv server st' = handler_inv server st \<and> r = WS_FRAME_CLOSE_REQUESTED"
  by (auto simp: ws_fail_connection_def Let_def handler_inv_def map_conn_def ws_connection_set_state_def
      split: prod.splits)

lemma fragmented_inv:
  assumes "process_fragmented_frame malloc_ok server st frame data = (r, st')" "handler_inv server st"
    and "unat (f_payload_len frame) = length data" "length data \<le> unat (sv_max_message_size server)"
    and "f_opcode frame \<in> {WS_OPCODE_TEXT, WS_OPCODE_BINARY}"
  shows "handler_inv server st'"
  using assms
  by (auto simp: process_fragmented_frame_def Let_def handler_inv_def frag_inv_def set_parser_def
      map_conn_def log_event_def dest!: fail_inv [where server = server] split: if_splits)

lemma continuation_fits:
  assumes "\<not> f_payload_len frame > max_msg - word_of_nat tot" "tot \<le> unat max_msg"
  shows "tot + unat (f_payload_len frame) \<le> unat (max_msg :: u64)"
proof -
  have "unat max_msg < 2 ^ LENGTH(64)" by (rule unsigned_less)
  hence "tot < 2 ^ 64" using assms(2) by simp
  hence t: "unat (word_of_nat tot :: u64) = tot" by (rule unat_of_nat_u64)
  hence "(word_of_nat tot :: u64) \<le> max_msg" using assms(2) by (simp add: word_le_nat_alt)
  hence "unat (max_msg - word_of_nat tot) = unat max_msg - tot" using t by (simp add: unat_sub)
  thus ?thesis using assms by (simp add: word_less_nat_alt not_less)
qed

lemma continuation_inv:
  assumes "process_continuation_frame malloc_ok server st frame data = (r, st')" "handler_inv server st"
    and "unat (f_payload_len frame) = length data"
  shows "handler_inv server st'"
proof (cases "fp_in_fragmented_message (c_frame_parser (hs_conn st))")
  case False
  thus ?thesis using assms by (simp add: process_continuation_frame_def Let_def)
next
  case True
  let ?p = "c_frame_parser (hs_conn st)"
  let ?lim = "sv_max_message_size server"
  obtain b where b: "fp_fragment_buffer ?p = Some b" "length b = fp_fragment_total_size ?p"
      "fp_fragment_total_size ?p \<le> unat ?lim"
    using True assms(2) by (auto simp: handler_inv_def frag_inv_def)
  show ?thesis
  proof (cases "f_payload_len frame > ?lim - word_of_nat (fp_fragment_total_size ?p)")
    case True
    thus ?thesis using assms \<open>fp_in_fragmented_message ?p\<close>
      by (auto simp: process_continuation_frame_def Let_def handler_inv_def map_conn_def frag_inv_cleanup
          dest!: fail_inv [where server = server])
  next
    case False
    let ?need = "fp_fragment_total_size ?p + unat (f_payload_len frame)"
    have fit: "length b + length data \<le> unat ?lim" using continuation_fits [OF False b(3)] b assms(3) by simp
    show ?thesis
    proof (cases "?need > fp_fragment_buffer_size ?p \<and> \<not> malloc_ok (?need * 2)")
      case True
      thus ?thesis using assms(1,2) \<open>fp_in_fragmented_message ?p\<close> False
        by (auto simp: process_continuation_frame_def Let_def handler_inv_def map_conn_def frag_inv_cleanup)
    next
      case mem: False
      define p2 where "p2 = (if ?need > fp_fragment_buffer_size ?p
        then ?p\<lparr>fp_fragment_buffer_size := ?need * 2\<rparr> else ?p)\<lparr>fp_fragment_buffer := Some (b @ data),
          fp_fragment_total_size := ?need\<rparr>"
      define st2 where "st2 = set_parser p2 st"
      have p2: "frag_inv ?lim p2"
        using assms(2,3) \<open>fp_in_fragmented_message ?p\<close> b fit
        by (auto simp: p2_def frag_inv_def handler_inv_def)
      have inv2: "handler_inv server st2"
        using assms(2) p2 by (simp add: st2_def handler_inv_def set_parser_def map_conn_def)
      have clean: "handler_inv server (map_conn cleanup_fragmentation_state t)"
        if "\<forall>ev \<in> set (hs_log t). event_ok ?lim ev" for t
        using that by (simp add: handler_inv_def map_conn_def frag_inv_cleanup)
      have log2: "\<forall>ev \<in> set (hs_log st2). event_ok ?lim ev" using inv2 by (simp add: handler_inv_def)
      have eq: "process_continuation_frame malloc_ok server st frame data =
          (if \<not> f_fin frame then (0, st2)
           else if fp_fragment_opcode ?p = WS_OPCODE_TEXT \<and> \<not> ws_utf8_valid (b @ data) then
             ws_fail_connection malloc_ok (map_conn cleanup_fragmentation_state st2) WS_CLOSE_INVALID_UTF8
           else (0, map_conn cleanup_fragmentation_state
             (if fp_fragment_opcode ?p = WS_OPCODE_TEXT \<and> sv_on_text_message server then
                log_event (malloc_ok (?need + 1)) (OnText (c_fd (hs_conn st)) (b @ data) (c_user_data (hs_conn st))) st2
              else if fp_fragment_opcode ?p = WS_OPCODE_BINARY \<and> sv_on_binary_message server then
                log_event True (OnBinary (c_fd (hs_conn st)) (b @ data) (c_user_data (hs_conn st))) st2
              else st2)))"
        using \<open>fp_in_fragmented_message ?p\<close> False mem b(1)
        by (cases "?need > fp_fragment_buffer_size ?p")
           (auto simp: process_continuation_frame_def Let_def p2_def st2_def)
      show ?thesis
        using assms(1) inv2 clean [OF log2] log2 fit fail_inv [where server = server]
        unfolding eq by (auto split: if_splits intro!: clean simp: log_event_def)
    qed
  qed
qed

lemma close_inv:
  assumes "process_close_frame malloc_ok server st frame data = (r, st')" "handler_inv server st"
  shows "handler_inv server st'"
proof -
  have "ws_close_code_valid WS_CLOSE_NORMAL" by (simp add: ws_close_code_valid_def WS_CLOSE_NORMAL_def)
  thus ?thesis
    using assms
    by (auto simp: process_close_frame_def Let_def handler_inv_def log_event_def map_conn_def
        ws_connection_set_state_def dest!: fail_inv [where server = server] split: if_splits prod.splits)
qed

lemma process_inv:
  assumes "process_websocket_frame malloc_ok server st frame data = (r, st')" "handler_inv server st"
    and "unat (f_payload_len frame) = length data" "length data \<le> unat (sv_max_message_size server)"
  shows "handler_inv server st'"
proof -
  let ?op = "f_opcode frame"
  consider "?op \<ge> 8 \<and> (\<not> f_fin frame \<or> f_payload_len frame > 125)"
    | (ctl) "\<not> (?op \<ge> 8 \<and> (\<not> f_fin frame \<or> f_payload_len frame > 125))" by blast
  thus ?thesis
  proof cases
    case 1
    thus ?thesis using assms(1,2)
      by (auto simp: process_websocket_frame_def dest!: fail_inv [where server = server])
  next
    case ctl
    note u = assms(1) [unfolded process_websocket_frame_def if_not_P [OF ctl]]
    consider "?op = WS_OPCODE_TEXT \<or> ?op = WS_OPCODE_BINARY" | "?op = WS_OPCODE_PING"
      | "?op = WS_OPCODE_PONG" | "?op = WS_OPCODE_CLOSE" | "?op = WS_OPCODE_CONTINUATION"
      | "?op \<notin> {WS_OPCODE_TEXT, WS_OPCODE_BINARY, WS_OPCODE_PING, WS_OPCODE_PONG, WS_OPCODE_CLOSE,
          WS_OPCODE_CONTINUATION}" by blast
    thus ?thesis
    proof cases
      case 1
      hence "process_fragmented_frame malloc_ok server st frame data = (r, st')" using u by auto
      thus ?thesis using fragmented_inv assms(2-4) 1 by blast
    next
      case 2
      thus ?thesis using u assms(2)
        by (auto simp: opcode_defs handler_inv_def Let_def split: prod.splits if_splits)
    next
      case 3
      hence "length data \<le> 125"
        using ctl assms(3) by (auto simp: WS_OPCODE_PONG_def word_less_nat_alt word_le_nat_alt)
      thus ?thesis using 3 u assms(2) by (auto simp: opcode_defs handler_inv_def log_event_def split: if_splits)
    next
      case 4
      thus ?thesis using u assms(2) close_inv by (auto simp: opcode_defs)
    next
      case 5
      thus ?thesis using u assms(2,3) continuation_inv by (auto simp: opcode_defs)
    next
      case 6
      thus ?thesis using u assms(2) by auto
    qed
  qed
qed

section \<open>Every delivered message is valid\<close>

lemma frame_bytes_length:
  assumes "ws_parse_frame cpu data lim = (r, f, data')" "0 < r" "unat lim + 14 < 2 ^ 31" "length data < 2 ^ 64"
  shows "unat (f_payload_len f) = length (frame_bytes f data') \<and> length (frame_bytes f data') \<le> unat lim"
  using parse_frame_bounds [OF assms(1,3,4)] assms(2) by (auto simp: min_def)

lemma frames_loop_inv:
  assumes "ws_frames_loop cpu malloc_ok server st pre rest = (r, st', recv)" "handler_inv server st"
    and "unat (sv_max_message_size server) + 14 < 2 ^ 31" "length pre + length rest < 2 ^ 64"
  shows "handler_inv server st' \<and> length recv \<le> length pre + length rest"
  using assms
proof (induction cpu malloc_ok server st pre rest arbitrary: r st' recv rule: ws_frames_loop.induct)
  case (1 cpu malloc_ok server st pre rest)
  show ?case
  proof (cases "rest = []")
    case True
    thus ?thesis using 1(2,3) by (subst (asm) ws_frames_loop.simps) simp
  next
    case False
    obtain n frame data where p: "ws_parse_frame cpu rest (sv_max_message_size server) = (n, frame, data)"
      by (metis prod_cases3)
    have len: "length data = length rest" using length_ws_parse_frame [OF p] .
    show ?thesis
    proof (cases "0 < n")
      case n: False
      thus ?thesis using 1(2,3) False p len by (subst (asm) ws_frames_loop.simps) (auto split: if_splits)
    next
      case n: True
      obtain proc st1 where w: "process_websocket_frame malloc_ok server st frame (frame_bytes frame data) = (proc, st1)"
        by fastforce
      have fb: "unat (f_payload_len frame) = length (frame_bytes frame data)"
        "length (frame_bytes frame data) \<le> unat (sv_max_message_size server)"
        using frame_bytes_length [OF p n 1(4)] 1(5) by auto
      have inv1: "handler_inv server st1" using process_inv [OF w 1(3) fb] .
      show ?thesis
      proof (cases "proc < 0")
        case True
        thus ?thesis using 1(2) False p n w inv1 len by (subst (asm) ws_frames_loop.simps) (auto split: if_splits)
      next
        case ok: False
        hence "ws_frames_loop cpu malloc_ok server st1 (pre @ take (nat n) data) (drop (nat n) data) = (r, st', recv)"
          using 1(2) False p n w by (subst (asm) ws_frames_loop.simps) (auto simp: WS_FRAME_CLOSE_REQUESTED_def)
        moreover have "length (pre @ take (nat n) data) + length (drop (nat n) data) = length pre + length rest"
          using len by (simp add: min_def)
        moreover have "proc \<noteq> WS_FRAME_CLOSE_REQUESTED" using ok by (simp add: WS_FRAME_CLOSE_REQUESTED_def)
        ultimately show ?thesis
          using 1(1) [OF False p [symmetric] refl _ _ w [symmetric] _ ok] inv1 1(4,5) n by simp
      qed
    qed
  qed
qed

section \<open>Handling does not depend on the read state\<close>

text \<open>The state without what only the read loop uses: unread input, receive buffer, idle clock.\<close>

definition core :: "hstate \<Rightarrow> hstate" where
  "core st = st\<lparr>hs_conn := (hs_conn st)\<lparr>c_recv := [], c_recv_capacity := 0, c_last_activity := 0,
       c_ping_sent_at := 0\<rparr>, hs_sock := (hs_sock st)\<lparr>sk_rd := []\<rparr>\<rparr>"

lemma write_core:
  "ws_conn_socket_write (sk\<lparr>sk_rd := x\<rparr>) buf = map_prod id (\<lambda>s. s\<lparr>sk_rd := x\<rparr>) (ws_conn_socket_write sk buf)"
  by (auto simp: ws_conn_socket_write_def split: list.splits wr_answer.splits)

lemma send_frame_core:
  "send_frame malloc_ok (sk\<lparr>sk_rd := x\<rparr>) opc p = map_prod id (\<lambda>s. s\<lparr>sk_rd := x\<rparr>) (send_frame malloc_ok sk opc p)"
  by (simp add: send_frame_def write_core map_prod_def case_prod_beta Let_def split: option.splits)

lemma send_close_core:
  "ws_send_close_frame malloc_ok (sk\<lparr>sk_rd := x\<rparr>) code p =
   map_prod id (\<lambda>s. s\<lparr>sk_rd := x\<rparr>) (ws_send_close_frame malloc_ok sk code p)"
  by (simp add: ws_send_close_frame_def send_frame_core)

lemma fail_core: "ws_fail_connection malloc_ok (core st) code = map_prod id core (ws_fail_connection malloc_ok st code)"
  by (simp add: ws_fail_connection_def core_def map_conn_def ws_connection_set_state_def send_close_core
      case_prod_beta Let_def map_prod_def)

lemma core_simps:
  "c_frame_parser (hs_conn (core st)) = c_frame_parser (hs_conn st)" "c_fd (hs_conn (core st)) = c_fd (hs_conn st)"
  "c_user_data (hs_conn (core st)) = c_user_data (hs_conn st)" "hs_log (core st) = hs_log st"
  "set_parser p (core st) = core (set_parser p st)" "log_event b ev (core st) = core (log_event b ev st)"
  "map_conn cleanup_fragmentation_state (core st) = core (map_conn cleanup_fragmentation_state st)"
  "map_conn (\<lambda>c. ws_connection_set_state c s) (core st) = core (map_conn (\<lambda>c. ws_connection_set_state c s) st)"
  by (simp_all add: core_def set_parser_def map_conn_def log_event_def cleanup_fragmentation_state_def
      ws_connection_set_state_def)

lemma core_if:
  "(if b then core x else core y) = core (if b then x else y)"
  "map_prod id core (if b then u else v) = (if b then map_prod id core u else map_prod id core v)"
  by simp_all

lemma fragmented_core:
  "process_fragmented_frame malloc_ok server (core st) frame data =
   map_prod id core (process_fragmented_frame malloc_ok server st frame data)"
  by (simp add: process_fragmented_frame_def Let_def core_simps fail_core core_if cong: if_cong split del: if_split)

lemma continuation_core:
  "process_continuation_frame malloc_ok server (core st) frame data =
   map_prod id core (process_continuation_frame malloc_ok server st frame data)"
  by (simp add: process_continuation_frame_def Let_def core_simps fail_core core_if cong: if_cong split del: if_split)

lemma core_sock: "hs_sock (core st) = (hs_sock st)\<lparr>sk_rd := []\<rparr>"
  "(core st)\<lparr>hs_sock := sk\<lparr>sk_rd := []\<rparr>\<rparr> = core (st\<lparr>hs_sock := sk\<rparr>)"
  by (simp_all add: core_def)

lemma close_core:
  "process_close_frame malloc_ok server (core st) frame data =
   map_prod id core (process_close_frame malloc_ok server st frame data)"
  by (simp add: process_close_frame_def Let_def core_simps fail_core core_sock send_close_core
      case_prod_beta core_if cong: if_cong split del: if_split)

lemma process_core:
  "process_websocket_frame malloc_ok server (core st) frame data =
   map_prod id core (process_websocket_frame malloc_ok server st frame data)"
  by (simp add: process_websocket_frame_def Let_def core_simps fail_core fragmented_core continuation_core
      close_core ws_send_pong_frame_def core_sock send_frame_core case_prod_beta core_if
      cong: if_cong split del: if_split)

lemma frames_loop_core:
  "ws_frames_loop cpu malloc_ok server st pre rest = (r, st', recv) \<Longrightarrow>
   \<exists>recv'. ws_frames_loop cpu malloc_ok server (core st) pre' rest = (r, core st', recv') \<and> (r = 0 \<longrightarrow> recv' = recv)"
proof (induction cpu malloc_ok server st pre rest arbitrary: r st' recv pre' rule: ws_frames_loop.induct)
  case (1 cpu malloc_ok server st pre rest)
  show ?case
  proof (cases "rest = []")
    case True
    thus ?thesis using 1(2) by (simp add: ws_frames_loop.simps)
  next
    case False
    obtain n frame data where p: "ws_parse_frame cpu rest (sv_max_message_size server) = (n, frame, data)"
      by (metis prod_cases3)
    obtain proc st1 where w: "process_websocket_frame malloc_ok server st frame (frame_bytes frame data) = (proc, st1)"
      by fastforce
    have w': "process_websocket_frame malloc_ok server (core st) frame (frame_bytes frame data) = (proc, core st1)"
      using w by (simp add: process_core)
    show ?thesis
    proof (cases "0 < n \<and> \<not> proc < 0")
      case False
      thus ?thesis
        using 1(2) \<open>rest \<noteq> []\<close> p w w'
        by (auto simp: ws_frames_loop.simps [of _ _ _ _ _ rest] WS_FRAME_CLOSE_REQUESTED_def split: if_splits)
    next
      case True
      hence c: "\<not> n < 0" "n \<noteq> 0" "proc \<noteq> WS_FRAME_CLOSE_REQUESTED" "\<not> proc < 0"
        by (auto simp: WS_FRAME_CLOSE_REQUESTED_def)
      have "ws_frames_loop cpu malloc_ok server st1 (pre @ take (nat n) data) (drop (nat n) data) = (r, st', recv)"
        using 1(2) False p w c by (subst (asm) ws_frames_loop.simps) simp
      from 1(1) [OF False p [symmetric] refl c(1,2) w [symmetric] c(3,4) this, of "pre' @ take (nat n) data"]
      show ?thesis using False p w' c by (subst ws_frames_loop.simps) simp
    qed
  qed
qed

section \<open>Parsing is stable under more input\<close>

lemma declared_len_extend:
  "2 \<le> length a \<Longrightarrow> ws_declared_len a = Some x \<Longrightarrow> ws_declared_len (a @ b) = Some x"
  by (auto simp: ws_declared_len_def Let_def nth_append split: if_splits)

lemma parse_header_extend:
  assumes "ws_parse_frame_header a z lim = (h, f)" "h \<noteq> 0"
  shows "ws_parse_frame_header (a @ b) z lim = (h, f)"
proof -
  have two: "2 \<le> length a" using assms by (auto simp: ws_parse_frame_header_def split: if_splits)
  have n: "(a @ b) ! 0 = a ! 0" "(a @ b) ! 1 = a ! 1" using two by (auto simp: nth_append)
  show ?thesis
  proof (cases "ws_declared_len a")
    case None
    thus ?thesis using assms two n
      by (auto simp: ws_parse_frame_header_def Let_def split: if_splits)
  next
    case (Some x)
    obtain plen hlen where x: "x = (plen, hlen)" by fastforce
    have d: "ws_declared_len (a @ b) = Some (plen, hlen)"
      using declared_len_extend [OF two] Some x by blast
    have "take 4 (drop hlen (a @ b)) = take 4 (drop hlen a)" if "\<not> length a < hlen + 4"
      using that by simp
    thus ?thesis using assms two n d Some x
      by (auto simp: ws_parse_frame_header_def Let_def split: if_splits)
  qed
qed

lemma parse_frame_extend:
  assumes "ws_parse_frame cpu a lim = (r, f, a')" "r \<noteq> 0"
    and "unat lim + 14 < 2 ^ 31" "length (a @ b) < 2 ^ 64" "a \<noteq> []"
  shows "ws_parse_frame cpu (a @ b) lim = (r, f, a' @ b)"
proof -
  obtain h g where hg: "ws_parse_frame_header a zero_frame lim = (h, g)" by fastforce
  have h0: "h \<noteq> 0" using assms(1,2,5) hg by (auto simp: ws_parse_frame_def)
  have hg': "ws_parse_frame_header (a @ b) zero_frame lim = (h, g)"
    using parse_header_extend [OF hg h0] .
  show ?thesis
  proof (cases "h < 0")
    case True
    thus ?thesis using assms hg hg' by (simp add: ws_parse_frame_def)
  next
    case False
    define T where "T = (word_of_int h + f_payload_len g :: u64)"
    have enough: "\<not> (word_of_nat (length a) :: u64) < T"
      using assms(1,2,5) hg False h0 by (auto simp: ws_parse_frame_def T_def Let_def)
    have "unat (word_of_nat (length a) :: u64) = length a" using assms(4) by (simp add: unat_of_nat)
    moreover have "unat (word_of_nat (length (a @ b)) :: u64) = length (a @ b)"
      using assms(4) by (rule unat_of_nat_u64)
    ultimately have enough': "\<not> (word_of_nat (length (a @ b)) :: u64) < T"
      using enough by (simp add: word_less_nat_alt del: of_nat_add length_append) simp
    have b: "h = int (f_header_len g)" "unat (f_payload_len g) \<le> unat lim" "f_header_len g \<le> 14"
      using parse_header_bounds [OF hg] False h0 by auto
    have "unat T = f_header_len g + unat (f_payload_len g)"
      using parse_total(2) [of "f_header_len g" "unat (f_payload_len g)"] b assms(3) by (simp add: T_def)
    hence le: "nat h + unat (f_payload_len g) \<le> length a"
      using enough unat_of_nat_u64 [of "length a"] assms(4) b by (simp add: word_less_nat_alt)
    thus ?thesis
      using assms(1,5) hg hg' False h0 enough enough'
      by (auto simp: ws_parse_frame_def T_def [symmetric] Let_def simp del: length_append split: if_splits)
  qed
qed

lemma parse_zero_short:
  assumes "ws_parse_frame cpu a lim = (0, f, a')" "unat lim + 14 < 2 ^ 31" "length a < 2 ^ 64" "a \<noteq> []"
  shows "a' = a \<and> length a < unat lim + 14"
proof -
  obtain h g where hg: "ws_parse_frame_header a zero_frame lim = (h, g)" by fastforce
  have "a' = a" using parse_frame_bounds [OF assms(1-3)] by simp
  moreover have "length a < unat lim + 14"
  proof (cases "h = 0")
    case True
    show ?thesis
    proof (cases "ws_declared_len a")
      case None
      hence "length a < 10" by (auto simp: ws_declared_len_def Let_def split: if_splits)
      thus ?thesis by simp
    next
      case (Some x)
      obtain plen hlen where x: "x = (plen, hlen)" by fastforce
      have "2 \<le> length a \<Longrightarrow> hlen \<le> 10" using ws_declared_len_bound Some x by blast
      thus ?thesis using hg True Some x
        by (cases "length a < 2") (auto simp: ws_parse_frame_header_def Let_def split: if_splits)
    qed
  next
    case False
    have pos: "0 < h" using assms(1,4) hg False by (auto simp: ws_parse_frame_def split: if_splits)
    have b: "h = int (f_header_len g)" "unat (f_payload_len g) \<le> unat lim" "f_header_len g \<le> 14"
      using parse_header_bounds [OF hg pos] by auto
    have tot: "f_header_len g + unat (f_payload_len g) < 2 ^ 31" using b assms(2) by linarith
    note T = parse_total [OF tot]
    have "(word_of_nat (length a) :: u64) < word_of_int h + f_payload_len g"
    proof (rule ccontr)
      assume "\<not> ?thesis"
      hence "0 = int (f_header_len g + unat (f_payload_len g))"
        using assms(1,4) hg pos T(1) b(1)
        by (auto simp: ws_parse_frame_def Let_def simp del: of_nat_add split: if_splits)
      thus False using pos b(1) by (simp del: of_nat_add)
    qed
    hence "length a < f_header_len g + unat (f_payload_len g)"
      using T(2) b(1) unat_of_nat_u64 [OF assms(3)] by (simp add: word_less_nat_alt)
    thus ?thesis using b by linarith
  qed
  ultimately show ?thesis by simp
qed

lemma frames_loop_append:
  assumes "ws_frames_loop cpu malloc_ok server st pre a = (r, st1, rest)"
    and "unat (sv_max_message_size server) + 14 < 2 ^ 31" "length (a @ b) < 2 ^ 64"
  shows "if r = 0 then length rest < unat (sv_max_message_size server) + 14 \<and> length rest \<le> length a \<and>
      (\<exists>pre2. ws_frames_loop cpu malloc_ok server st pre (a @ b) = ws_frames_loop cpu malloc_ok server st1 pre2 (rest @ b))
    else \<exists>recv. ws_frames_loop cpu malloc_ok server st pre (a @ b) = (r, st1, recv)"
  using assms
proof (induction cpu malloc_ok server st pre a arbitrary: r st1 rest rule: ws_frames_loop.induct)
  case (1 cpu malloc_ok server st pre a)
  show ?case
  proof (cases "a = []")
    case True
    hence "r = 0" "st1 = st" "rest = []" using 1(2) by (simp_all add: ws_frames_loop.simps)
    thus ?thesis using True by auto
  next
    case False
    let ?lim = "sv_max_message_size server"
    obtain n frame data where p: "ws_parse_frame cpu a ?lim = (n, frame, data)" by (metis prod_cases3)
    have la: "length a < 2 ^ 64" using 1(4) by simp
    show ?thesis
    proof (cases "n = 0")
      case True
      note z = parse_zero_short [OF p [unfolded True] 1(3) la False]
      have "r = 0" "st1 = st" "rest = a"
        using 1(2) False p True z by (simp_all add: ws_frames_loop.simps [of _ _ _ _ _ a])
      thus ?thesis using z by auto
    next
      case n: False
      have px: "ws_parse_frame cpu (a @ b) ?lim = (n, frame, data @ b)"
        using parse_frame_extend [OF p n 1(3,4) False] .
      show ?thesis
      proof (cases "n < 0")
        case True
        thus ?thesis using 1(2) False p px n
          by (auto simp: ws_frames_loop.simps [of _ _ _ _ _ a] ws_frames_loop.simps [of _ _ _ _ _ "a @ b"])
      next
        case pos: False
        note bd = parse_frame_bounds [OF p 1(3) la]
        have "unat (f_payload_len frame) = length (frame_bytes frame data)"
          using frame_bytes_length [OF p _ 1(3) la] pos n by simp
        hence "frame_bytes frame (data @ b) = frame_bytes frame data"
          by (auto simp: frame_bytes_def min_def split: option.splits if_splits)
        hence nl: "nat n \<le> length data" "length data = length a"
          "frame_bytes frame (data @ b) = frame_bytes frame data"
          using bd pos n by auto
        obtain proc st2 where w: "process_websocket_frame malloc_ok server st frame (frame_bytes frame data) = (proc, st2)"
          by fastforce
        show ?thesis
        proof (cases "proc < 0")
          case True
          thus ?thesis using 1(2) False p px n pos w nl
            by (auto simp: ws_frames_loop.simps [of _ _ _ _ _ a] ws_frames_loop.simps [of _ _ _ _ _ "a @ b"]
                WS_FRAME_CLOSE_REQUESTED_def split: if_splits)
        next
          case ok: False
          have nc: "proc \<noteq> WS_FRAME_CLOSE_REQUESTED" using ok by (simp add: WS_FRAME_CLOSE_REQUESTED_def)
          have lp: "ws_frames_loop cpu malloc_ok server st2 (pre @ take (nat n) data) (drop (nat n) data) = (r, st1, rest)"
            using 1(2) False p n pos w ok nc by (subst (asm) ws_frames_loop.simps) simp
          have lx: "ws_frames_loop cpu malloc_ok server st pre (a @ b) =
              ws_frames_loop cpu malloc_ok server st2 (pre @ take (nat n) data) (drop (nat n) data @ b)"
            using False px n pos w ok nc nl by (subst ws_frames_loop.simps) simp
          have "length (drop (nat n) data @ b) < 2 ^ 64" using 1(4) nl by simp
          from 1(1) [OF False p [symmetric] refl pos n w [symmetric] nc ok lp 1(3) this]
          show ?thesis unfolding lx using nl by (auto split: if_splits)
        qed
      qed
    qed
  qed
qed

section \<open>The read loop\<close>

lemma process_keeps_recv:
  assumes "process_websocket_frame malloc_ok server st frame data = (r, st')"
  shows "c_recv_capacity (hs_conn st') = c_recv_capacity (hs_conn st)"
  using assms
  by (auto simp: process_websocket_frame_def process_fragmented_frame_def process_continuation_frame_def
      process_close_frame_def ws_fail_connection_def Let_def log_event_def set_parser_def map_conn_def
      ws_connection_set_state_def cleanup_fragmentation_state_def split: if_splits prod.splits)

lemma frames_loop_keeps_recv:
  "ws_frames_loop cpu malloc_ok server st pre rest = (r, st', recv) \<Longrightarrow>
   c_recv_capacity (hs_conn st') = c_recv_capacity (hs_conn st)"
proof (induction cpu malloc_ok server st pre rest arbitrary: r st' recv rule: ws_frames_loop.induct)
  case (1 cpu malloc_ok server st pre rest)
  thus ?case
    by (subst (asm) (2) ws_frames_loop.simps)
       (auto split: if_splits prod.splits dest!: process_keeps_recv)
qed

lemma read_loop_bytes:
  assumes "\<not> (length (c_recv (hs_conn st)) = c_recv_capacity (hs_conn st) \<and>
      (c_recv_capacity (hs_conn st) \<ge> hard_max \<or> \<not> malloc_ok (recv_new_cap hard_max (hs_conn st))))"
    and "conn = (if length (c_recv (hs_conn st)) = c_recv_capacity (hs_conn st)
      then (hs_conn st)\<lparr>c_recv_capacity := recv_new_cap hard_max (hs_conn st)\<rparr> else hs_conn st)"
    and "ws_conn_socket_read (hs_sock st) (c_recv_capacity conn - length (c_recv conn)) = (RdBytes bs, sk)" "bs \<noteq> []"
    and "conn2 = ws_connection_add_bytes_received now (conn\<lparr>c_recv := c_recv conn @ bs\<rparr>)"
    and "ws_frames_loop cpu malloc_ok server (st\<lparr>hs_conn := conn2, hs_sock := sk\<rparr>) [] (c_recv conn2) = (rc, st3, recv)"
  shows "ws_read_loop cpu malloc_ok server now hard_max st =
    (if rc \<noteq> 0 then (rc, map_conn (\<lambda>c. c\<lparr>c_recv := recv\<rparr>) st3)
     else ws_read_loop cpu malloc_ok server now hard_max (map_conn (\<lambda>c. c\<lparr>c_recv := recv\<rparr>) st3))"
  using assms(1,3,4,6)
  by (subst ws_read_loop.simps) (auto simp: Let_def assms(2) [symmetric] assms(5) [symmetric])

lemma read_loop_inv:
  assumes "ws_read_loop cpu malloc_ok server now hard_max st = (r, st')" "handler_inv server st"
    and "unat (sv_max_message_size server) + 14 < 2 ^ 31" "hard_max < 2 ^ 64"
    and "length (c_recv (hs_conn st)) \<le> c_recv_capacity (hs_conn st)" "c_recv_capacity (hs_conn st) \<le> hard_max"
  shows "handler_inv server st' \<and> length (c_recv (hs_conn st')) \<le> c_recv_capacity (hs_conn st') \<and>
    c_recv_capacity (hs_conn st') \<le> hard_max"
  using assms
proof (induction cpu malloc_ok server now hard_max st arbitrary: r st' rule: ws_read_loop.induct)
  case (1 cpu malloc_ok server now hard_max st)
  let ?full = "length (c_recv (hs_conn st)) = c_recv_capacity (hs_conn st)"
  show ?case
  proof (cases "?full \<and> (c_recv_capacity (hs_conn st) \<ge> hard_max \<or> \<not> malloc_ok (recv_new_cap hard_max (hs_conn st)))")
    case True
    thus ?thesis using 1(2-7)
      by (subst (asm) ws_read_loop.simps) (auto simp: Let_def map_conn_def handler_inv_def split: if_splits)
  next
    case go: False
    define conn where "conn = (if ?full then (hs_conn st)\<lparr>c_recv_capacity := recv_new_cap hard_max (hs_conn st)\<rparr> else hs_conn st)"
    have cap: "length (c_recv conn) \<le> c_recv_capacity conn" "c_recv_capacity conn \<le> hard_max"
      "c_recv conn = c_recv (hs_conn st)" "c_frame_parser conn = c_frame_parser (hs_conn st)"
      using 1(6,7) by (auto simp: conn_def recv_new_cap_def Let_def)
    obtain ans sk where rd: "ws_conn_socket_read (hs_sock st) (c_recv_capacity conn - length (c_recv conn)) = (ans, sk)"
      by fastforce
    have keep: "handler_inv server (st\<lparr>hs_conn := c, hs_sock := s\<rparr>)" if "c_frame_parser c = c_frame_parser (hs_conn st)" for c s
      using 1(3) that by (simp add: handler_inv_def)
    show ?thesis
    proof (cases "\<exists>bs. ans = RdBytes bs \<and> bs \<noteq> []")
      case False
      thus ?thesis
        using 1(2) go rd cap keep [OF cap(4)]
        by (subst (asm) ws_read_loop.simps) (auto simp: Let_def conn_def [symmetric] split: rd_answer.splits if_splits)
    next
      case True
      then obtain bs where bs: "ans = RdBytes bs" "bs \<noteq> []" by blast
      define conn2 where "conn2 = ws_connection_add_bytes_received now (conn\<lparr>c_recv := c_recv conn @ bs\<rparr>)"
      define st2 where "st2 = st\<lparr>hs_conn := conn2, hs_sock := sk\<rparr>"
      obtain rc st3 recv where lp: "ws_frames_loop cpu malloc_ok server st2 [] (c_recv conn2) = (rc, st3, recv)"
        by (metis prod_cases3)
      have lb: "length bs \<le> c_recv_capacity conn - length (c_recv conn)"
        using rd bs by (auto simp: ws_conn_socket_read_def split: list.splits rd_answer.splits if_splits)
      have c2: "length (c_recv conn2) \<le> c_recv_capacity conn" "c_recv_capacity conn2 = c_recv_capacity conn"
        "c_frame_parser conn2 = c_frame_parser (hs_conn st)"
        using lb cap by (simp_all add: conn2_def ws_connection_add_bytes_received_def)
      have inv2: "handler_inv server st2" unfolding st2_def using keep c2(3) by blast
      have "length ([] :: bytes) + length (c_recv conn2) < 2 ^ 64" using c2 cap 1(5) by simp
      note l3 = frames_loop_inv [OF lp inv2 1(4) this]
      define st4 where "st4 = map_conn (\<lambda>c. c\<lparr>c_recv := recv\<rparr>) st3"
      have inv4: "handler_inv server st4" "length (c_recv (hs_conn st4)) \<le> c_recv_capacity (hs_conn st4)"
        "c_recv_capacity (hs_conn st4) \<le> hard_max"
        using l3 c2 cap frames_loop_keeps_recv [OF lp] by (auto simp: st4_def map_conn_def handler_inv_def st2_def)
      have unf: "(r, st') = (if rc \<noteq> 0 then (rc, st4) else ws_read_loop cpu malloc_ok server now hard_max st4)"
        using 1(2) read_loop_bytes [OF go conn_def rd [unfolded bs(1)] bs(2) conn2_def lp [unfolded st2_def]]
        unfolding st4_def by (simp only:)
      have IH: "ws_read_loop cpu malloc_ok server now hard_max st4 = (r, st') \<Longrightarrow> ?thesis"
        if "rc = 0"
        using 1(1) [OF refl refl _ _ conn_def rd [symmetric] bs(1) bs(2) conn2_def] lp that go inv4 1(4,5)
        by (auto simp: st2_def [symmetric] st4_def [symmetric])
      show ?thesis using unf inv4 IH by (cases "rc = 0") auto
    qed
  qed
qed


section \<open>The cut of the stream into reads is irrelevant\<close>

lemma frames_loop_rest_stable:
  assumes "ws_frames_loop cpu malloc_ok server st pre a = (0, st1, rest)"
    and "unat (sv_max_message_size server) + 14 < 2 ^ 31" "length a < 2 ^ 64"
  shows "ws_frames_loop cpu malloc_ok server st2 pre2 rest = (0, st2, rest)"
  using assms
proof (induction cpu malloc_ok server st pre a arbitrary: st1 rest rule: ws_frames_loop.induct)
  case (1 cpu malloc_ok server st pre a)
  show ?case
  proof (cases "a = []")
    case True
    thus ?thesis using 1(2) by (simp add: ws_frames_loop.simps)
  next
    case False
    obtain n frame data where p: "ws_parse_frame cpu a (sv_max_message_size server) = (n, frame, data)"
      by (metis prod_cases3)
    show ?thesis
    proof (cases "n = 0")
      case True
      hence "data = a" using parse_zero_short [OF p [unfolded True] 1(3,4) False] by simp
      hence "rest = a" using 1(2) False p True by (simp add: ws_frames_loop.simps [of _ _ _ _ _ a])
      thus ?thesis using False p True \<open>data = a\<close> by (simp add: ws_frames_loop.simps [of _ _ _ _ _ a])
    next
      case n: False
      obtain proc st3 where w: "process_websocket_frame malloc_ok server st frame (frame_bytes frame data) = (proc, st3)"
        by fastforce
      have c: "\<not> n < 0" "proc \<noteq> WS_FRAME_CLOSE_REQUESTED" "\<not> proc < 0"
        using 1(2) False p n w
        by (auto simp: ws_frames_loop.simps [of _ _ _ _ _ a] WS_FRAME_CLOSE_REQUESTED_def split: if_splits)
      have "ws_frames_loop cpu malloc_ok server st3 (pre @ take (nat n) data) (drop (nat n) data) = (0, st1, rest)"
        using 1(2) False p n w c by (subst (asm) ws_frames_loop.simps) simp
      moreover have "length (drop (nat n) data) < 2 ^ 64" using length_ws_parse_frame [OF p] 1(4) by simp
      ultimately show ?thesis
        using 1(1) [OF False p [symmetric] refl c(1) n w [symmetric] c(2,3)] 1(3) by blast
    qed
  qed
qed

definition rd_plain :: "rd_answer list \<Rightarrow> bool" where
  "rd_plain as \<longleftrightarrow> (\<forall>a \<in> set as. case a of RdBytes bs \<Rightarrow> bs \<noteq> [] | _ \<Rightarrow> False)"

definition rd_data :: "rd_answer list \<Rightarrow> bytes" where
  "rd_data as = concat (map (\<lambda>a. case a of RdBytes bs \<Rightarrow> bs | _ \<Rightarrow> []) as)"

lemma read_plain:
  assumes "rd_plain (sk_rd sk)" "sk_rd sk \<noteq> []" "0 < space"
  shows "\<exists>bs sk'. ws_conn_socket_read sk space = (RdBytes bs, sk') \<and> bs \<noteq> [] \<and>
    rd_data (sk_rd sk) = bs @ rd_data (sk_rd sk') \<and> rd_plain (sk_rd sk') \<and> sk'\<lparr>sk_rd := []\<rparr> = sk\<lparr>sk_rd := []\<rparr>"
proof -
  obtain bs rest where sk: "sk_rd sk = RdBytes bs # rest" "bs \<noteq> []"
    using assms(1,2) by (cases "sk_rd sk") (auto simp: rd_plain_def split: rd_answer.splits)
  show ?thesis
  proof (cases "length bs \<le> space")
    case True
    thus ?thesis using sk assms(1) by (auto simp: ws_conn_socket_read_def rd_plain_def rd_data_def)
  next
    case False
    thus ?thesis using sk assms(1,3) by (auto simp: ws_conn_socket_read_def rd_plain_def rd_data_def)
  qed
qed

lemma read_loop_stream:
  assumes "rd_plain (sk_rd (hs_sock st))" "\<forall>n. malloc_ok n"
    and "unat (sv_max_message_size server) + 14 < 2 ^ 31" "unat (sv_max_message_size server) + 14 \<le> hard_max"
    and "0 < c_recv_capacity (hs_conn st)" "length (c_recv (hs_conn st)) \<le> c_recv_capacity (hs_conn st)"
    and "length (c_recv (hs_conn st)) < unat (sv_max_message_size server) + 14"
    and "length (c_recv (hs_conn st) @ rd_data (sk_rd (hs_sock st))) < 2 ^ 64"
    and "ws_frames_loop cpu malloc_ok server (core st) pre (c_recv (hs_conn st) @ rd_data (sk_rd (hs_sock st))) = (r, st1, left)"
    and "ws_frames_loop cpu malloc_ok server (core st) [] (c_recv (hs_conn st)) = (0, core st, c_recv (hs_conn st))"
  shows "\<exists>st'. ws_read_loop cpu malloc_ok server now hard_max st = (r, st') \<and> core st' = st1"
  using assms
proof (induction "rd_size (sk_rd (hs_sock st))" arbitrary: st pre r st1 left rule: less_induct)
  case less
  let ?conn0 = "hs_conn st"
  let ?lim = "unat (sv_max_message_size server)"
  have go: "\<not> (length (c_recv ?conn0) = c_recv_capacity ?conn0 \<and>
      (c_recv_capacity ?conn0 \<ge> hard_max \<or> \<not> malloc_ok (recv_new_cap hard_max ?conn0)))"
    using less.prems(2,4,7) by auto
  define conn where "conn = (if length (c_recv ?conn0) = c_recv_capacity ?conn0
      then ?conn0\<lparr>c_recv_capacity := recv_new_cap hard_max ?conn0\<rparr> else ?conn0)"
  have conn: "c_recv conn = c_recv ?conn0" "0 < c_recv_capacity conn - length (c_recv conn)"
    using less.prems(4-7) by (auto simp: conn_def recv_new_cap_def Let_def)
  have core_conn: "core (st\<lparr>hs_conn := conn, hs_sock := sk\<rparr>) = core st"
    if "sk\<lparr>sk_rd := []\<rparr> = (hs_sock st)\<lparr>sk_rd := []\<rparr>" for sk
    using that by (simp add: core_def conn_def)
  show ?case
  proof (cases "sk_rd (hs_sock st) = []")
    case True
    hence rd: "ws_conn_socket_read (hs_sock st) (c_recv_capacity conn - length (c_recv conn)) = (RdAgain, hs_sock st)"
      by (simp add: ws_conn_socket_read_def)
    have "ws_read_loop cpu malloc_ok server now hard_max st = (0, st\<lparr>hs_conn := conn, hs_sock := hs_sock st\<rparr>)"
      using go rd by (subst ws_read_loop.simps) (auto simp: Let_def conn_def [symmetric])
    moreover have "r = 0" "st1 = core st"
      using frames_loop_core [OF less.prems(10), of pre] less.prems(9) True
      by (auto simp: rd_data_def core_def)
    ultimately show ?thesis using core_conn [of "hs_sock st"] by auto
  next
    case False
    obtain bs sk where rd: "ws_conn_socket_read (hs_sock st) (c_recv_capacity conn - length (c_recv conn)) = (RdBytes bs, sk)"
      "bs \<noteq> []" "rd_data (sk_rd (hs_sock st)) = bs @ rd_data (sk_rd sk)" "rd_plain (sk_rd sk)"
      "sk\<lparr>sk_rd := []\<rparr> = (hs_sock st)\<lparr>sk_rd := []\<rparr>"
      using read_plain [OF less.prems(1) False conn(2)] by blast
    define conn2 where "conn2 = ws_connection_add_bytes_received now (conn\<lparr>c_recv := c_recv conn @ bs\<rparr>)"
    define st2 where "st2 = st\<lparr>hs_conn := conn2, hs_sock := sk\<rparr>"
    have c2: "c_recv conn2 = c_recv ?conn0 @ bs" "core st2 = core st"
      using rd(5) conn by (simp_all add: conn2_def st2_def core_def conn_def ws_connection_add_bytes_received_def)
    obtain rc st3 recv where lp: "ws_frames_loop cpu malloc_ok server st2 [] (c_recv conn2) = (rc, st3, recv)"
      by (metis prod_cases3)
    obtain recv' where lpc: "ws_frames_loop cpu malloc_ok server (core st) pre (c_recv conn2) = (rc, core st3, recv')"
        "rc = 0 \<longrightarrow> recv' = recv"
      using frames_loop_core [OF lp, of pre] c2(2) by auto
    let ?more = "rd_data (sk_rd sk)"
    have all: "c_recv ?conn0 @ rd_data (sk_rd (hs_sock st)) = c_recv conn2 @ ?more" using c2(1) rd(3) by simp
    have len: "length (c_recv conn2 @ ?more) < 2 ^ 64" using less.prems(8) all by simp
    note ap = frames_loop_append [OF lpc(1) less.prems(3) len]
    have loop: "ws_frames_loop cpu malloc_ok server (core st) pre (c_recv conn2 @ ?more) = (r, st1, left)"
      using less.prems(9) all by simp
    define st4 where "st4 = map_conn (\<lambda>c. c\<lparr>c_recv := recv\<rparr>) st3"
    have step: "ws_read_loop cpu malloc_ok server now hard_max st =
        (if rc \<noteq> 0 then (rc, st4) else ws_read_loop cpu malloc_ok server now hard_max st4)"
      using read_loop_bytes [OF go conn_def rd(1,2) conn2_def lp [unfolded st2_def]] by (simp add: st4_def)
    have core4: "core st4 = core st3" by (simp add: st4_def core_def map_conn_def)
    show ?thesis
    proof (cases "rc = 0")
      case False
      thus ?thesis using ap loop step core4 by auto
    next
      case True
      have rest: "length recv < ?lim + 14" "length recv \<le> length (c_recv conn2)"
        using ap lpc(2) True by auto
      obtain pre2 where lp2: "ws_frames_loop cpu malloc_ok server (core st4) pre2 (recv @ ?more) = (r, st1, left)"
        using ap lpc(2) True loop core4 by auto
      have sk4: "sk_rd (hs_sock st4) = sk_rd sk" "c_recv (hs_conn st4) = recv"
        "c_recv_capacity (hs_conn st4) = c_recv_capacity conn"
        using frames_loop_keeps_rd [OF lp] frames_loop_keeps_recv [OF lp]
        by (simp_all add: st4_def st2_def map_conn_def conn2_def ws_connection_add_bytes_received_def)
      have "length bs \<le> c_recv_capacity conn - length (c_recv conn)"
        using rd(1) by (auto simp: ws_conn_socket_read_def split: list.splits rd_answer.splits if_splits)
      hence fits: "length recv \<le> c_recv_capacity conn" using rest(2) c2(1) conn by simp
      have "rd_size (sk_rd (hs_sock st4)) < rd_size (sk_rd (hs_sock st))"
        using read_decreases [OF rd(1,2)] sk4(1) by simp
      moreover have "ws_frames_loop cpu malloc_ok server (core st4) [] recv = (0, core st4, recv)"
        using frames_loop_rest_stable [OF lp [unfolded True] less.prems(3)] len by simp
      ultimately have "\<exists>st'. ws_read_loop cpu malloc_ok server now hard_max st4 = (r, st') \<and> core st' = st1"
        using less.prems(2-4) less.prems(8) rd(4) rest fits conn(2) lp2 len sk4
        by (intro less.hyps [of st4 pre2 r st1 left]) auto
      thus ?thesis using step True by simp
    qed
  qed
qed

end
