(* ===== verification/Ws_Delivery.thy ===== *)
theory Ws_Delivery
  imports Ws_Reassembly
begin

text \<open>
  What the application sees of a connection: messages are valid and bounded whatever the peer
  sends, the result does not depend on how the stream was cut into reads, and a fragmented
  message is delivered whole.
\<close>

section \<open>Theorems on the read loop\<close>

text \<open>A concrete connection and server, on which the theorems below are exercised.\<close>

definition demo_server :: ws_server_cfg where
  "demo_server = \<lparr>sv_max_message_size = 1000, sv_on_text_message = True, sv_on_binary_message = True,
     sv_on_ping = True, sv_on_pong = True, sv_on_close = True, sv_on_connect = True, sv_on_disconnect = True\<rparr>"

definition demo_state :: "wr_answer list \<Rightarrow> rd_answer list \<Rightarrow> hstate" where
  "demo_state wr rd = \<lparr>hs_conn = zero_connection\<lparr>c_fd := 5, c_state := WS_STATE_OPEN, c_recv_capacity := 64\<rparr>,
     hs_sock = \<lparr>sk_wire = [], sk_wr = wr, sk_rd = rd, sk_epollout = False, sk_epoll_ok = True\<rparr>, hs_log = []\<rparr>"

definition demo_cpu :: cpu where
  "demo_cpu = \<lparr>cpu_avx2 = True, cpu_sse2 = True\<rparr>"

lemmas demo_defs = demo_server_def demo_state_def demo_cpu_def

lemma hard_max_value:
  assumes "unat (m :: u64) + 14 < 2 ^ 31"
  shows "unat (m + 64) = unat m + 64"
proof -
  have "unat m + unat (64 :: u64) < 2 ^ LENGTH(64)" using assms by simp
  from unat_add_lem [THEN iffD1, OF this] show ?thesis by simp
qed

text \<open>
  C15. Safety of frame handling against any peer: whatever the socket delivers, in whatever
  pieces, and however allocation behaves, every text message handed to the application is valid
  UTF-8, every message is at most the configured size, every close code is one the protocol
  allows, an unfinished fragmented message stays within the limit, and the receive buffer never
  grows past the larger of its initial size and the message limit plus 64.
\<close>
theorem handled_messages_valid:
  assumes "handle_websocket_frames cpu malloc_ok server now st = (r, st')" "handler_inv server st"
    and "unat (sv_max_message_size server) + 14 < 2 ^ 31" "c_recv_capacity (hs_conn st) < 2 ^ 64"
    and "length (c_recv (hs_conn st)) \<le> c_recv_capacity (hs_conn st)"
  shows "handler_inv server st' \<and> length (c_recv (hs_conn st')) \<le> c_recv_capacity (hs_conn st') \<and>
    c_recv_capacity (hs_conn st') \<le> max (c_recv_capacity (hs_conn st)) (unat (sv_max_message_size server) + 64)"
proof (cases "c_recv_capacity (hs_conn st) = 0")
  case True
  thus ?thesis using assms by (simp add: handle_websocket_frames_def)
next
  case False
  let ?h = "max (c_recv_capacity (hs_conn st)) (unat (sv_max_message_size server) + 64)"
  have "ws_read_loop cpu malloc_ok server now ?h st = (r, st')"
    using assms(1) False hard_max_value [OF assms(3)]
    by (simp add: handle_websocket_frames_def Let_def max_def split: if_splits)
  moreover have "?h < 2 ^ 64" using assms(3,4) by simp
  ultimately show ?thesis using read_loop_inv [OF _ assms(2,3) _ assms(5)] by simp
qed

theorem handled_messages_valid_witness:
  "let (r, st') = handle_websocket_frames demo_cpu (\<lambda>n. n < 4096) demo_server 7
       (demo_state [] [RdBytes [129, 130, 0, 0, 0, 0, 104, 255]])
   in handler_inv demo_server st' \<and> length (c_recv (hs_conn st')) \<le> c_recv_capacity (hs_conn st') \<and>
     c_recv_capacity (hs_conn st') \<le> 1064"
proof -
  let ?st = "demo_state [] [RdBytes [129, 130, 0, 0, 0, 0, 104, 255]]"
  obtain r st' where h: "handle_websocket_frames demo_cpu (\<lambda>n. n < 4096) demo_server 7 ?st = (r, st')" by fastforce
  have "handler_inv demo_server ?st"
    by (simp add: handler_inv_def frag_inv_def demo_defs zero_connection_def zero_frame_parser_def)
  moreover have "c_recv_capacity (hs_conn ?st) = 64" "c_recv (hs_conn ?st) = []"
    "unat (sv_max_message_size demo_server) = 1000"
    by (simp_all add: demo_defs zero_connection_def)
  ultimately show ?thesis using handled_messages_valid [OF h] h by simp
qed

definition with_reads :: "rd_answer list \<Rightarrow> hstate \<Rightarrow> hstate" where
  "with_reads as st = st\<lparr>hs_sock := (hs_sock st)\<lparr>sk_rd := as\<rparr>\<rparr>"

text \<open>
  C16. Chunking does not matter: when allocation succeeds, two ways of cutting the same byte
  stream into reads give the same result code, the same callbacks in the same order, the same
  bytes written and the same connection state (up to the receive buffer and the activity
  timestamps); and that result is the one of parsing the stream in one piece.
\<close>
theorem reads_chunking_irrelevant:
  assumes "rd_plain as" "rd_plain bs" "rd_data as = rd_data bs" "length (rd_data as) < 2 ^ 64"
    and "\<forall>n. malloc_ok n" "unat (sv_max_message_size server) + 14 < 2 ^ 31"
    and "0 < c_recv_capacity (hs_conn st)" "c_recv (hs_conn st) = []"
    and "handle_websocket_frames cpu malloc_ok server now (with_reads as st) = (r, st')"
    and "handle_websocket_frames cpu malloc_ok server now' (with_reads bs st) = (r2, st2)"
  shows "r = r2 \<and> core st' = core st2 \<and>
    (\<exists>left. ws_frames_loop cpu malloc_ok server (core st) [] (rd_data as) = (r, core st', left))"
proof -
  let ?lim = "unat (sv_max_message_size server)"
  let ?h = "max (c_recv_capacity (hs_conn st)) (?lim + 64)"
  obtain r1 st1 left where lp: "ws_frames_loop cpu malloc_ok server (core st) [] (rd_data as) = (r1, st1, left)"
    by (metis prod_cases3)
  have core: "core (with_reads cs st) = core st" "hs_conn (with_reads cs st) = hs_conn st"
    "sk_rd (hs_sock (with_reads cs st)) = cs" for cs
    by (simp_all add: core_def with_reads_def)
  have run: "\<exists>s. ws_read_loop cpu malloc_ok server t ?h (with_reads cs st) = (r1, s) \<and> core s = st1"
    if "rd_plain cs" "rd_data cs = rd_data as" for cs t
    using that assms(4-8) lp ws_frames_loop.simps [of _ _ _ _ _ "[]"]
    by (intro read_loop_stream [where pre = "[]" and left = left]) (auto simp: core)
  have unf: "handle_websocket_frames cpu malloc_ok server t (with_reads cs st) =
      ws_read_loop cpu malloc_ok server t ?h (with_reads cs st)" for t cs
    using assms(7) hard_max_value [OF assms(6)]
    by (simp add: handle_websocket_frames_def Let_def core(2) max_def)
  have "r = r1 \<and> core st' = st1" using run [OF assms(1) refl, of now] assms(9) unf by auto
  moreover have "r2 = r1 \<and> core st2 = st1"
    using run [OF assms(2) assms(3) [symmetric], of now'] assms(10) unf by auto
  ultimately show ?thesis using lp by auto
qed

theorem reads_chunking_irrelevant_witness:
  "let as = [RdBytes [129, 129, 1, 0, 0, 0, 105]];
       bs = [RdBytes [129], RdBytes [129, 1, 0, 0], RdBytes [0, 105]];
       (r, st') = handle_websocket_frames demo_cpu (\<lambda>_. True) demo_server 7 (demo_state [] as);
       (r2, st2) = handle_websocket_frames demo_cpu (\<lambda>_. True) demo_server 9 (demo_state [] bs)
   in r = r2 \<and> core st' = core st2"
proof -
  let ?as = "[RdBytes [129, 129, 1, 0, 0, 0, 105]]"
  let ?bs = "[RdBytes [129], RdBytes [129, 1, 0, 0], RdBytes [0, 105]]"
  obtain r st' where a: "handle_websocket_frames demo_cpu (\<lambda>_. True) demo_server 7 (demo_state [] ?as) = (r, st')" by fastforce
  obtain r2 st2 where b: "handle_websocket_frames demo_cpu (\<lambda>_. True) demo_server 9 (demo_state [] ?bs) = (r2, st2)" by fastforce
  have w: "with_reads cs (demo_state [] []) = demo_state [] cs" for cs by (simp add: with_reads_def demo_state_def)
  have "rd_plain ?as" "rd_plain ?bs" "rd_data ?as = rd_data ?bs" "length (rd_data ?as) < 2 ^ 64"
    by (simp_all add: rd_plain_def rd_data_def)
  moreover have "c_recv_capacity (hs_conn (demo_state [] [])) = 64" "c_recv (hs_conn (demo_state [] [])) = []"
    "unat (sv_max_message_size demo_server) = 1000"
    by (simp_all add: demo_defs zero_connection_def)
  ultimately have "r = r2 \<and> core st' = core st2"
    using reads_chunking_irrelevant [of ?as ?bs "\<lambda>_. True" demo_server "demo_state [] []" demo_cpu 7 r st' 9 r2 st2] a b w
    by simp
  thus ?thesis using a b by simp
qed

section \<open>Reassembly\<close>

text \<open>
  What a client may send between the first and the last frame of a fragmented message: further
  pieces, and control frames in between.
\<close>

datatype between = Piece bytes bytes | PingIn bytes bytes | PongIn bytes bytes

fun between_frame :: "between \<Rightarrow> bytes" where
  "between_frame (Piece key p) = rfc_frame False WS_OPCODE_CONTINUATION (Some key) p"
| "between_frame (PingIn key p) = rfc_frame True WS_OPCODE_PING (Some key) p"
| "between_frame (PongIn key p) = rfc_frame True WS_OPCODE_PONG (Some key) p"

fun between_piece :: "between \<Rightarrow> bytes" where
  "between_piece (Piece key p) = p"
| "between_piece _ = []"

fun between_reply :: "between \<Rightarrow> bytes" where
  "between_reply (PingIn key p) = rfc_frame True WS_OPCODE_PONG None p"
| "between_reply _ = []"

fun between_events :: "ws_server_cfg \<Rightarrow> u32 \<Rightarrow> between \<Rightarrow> ws_event list" where
  "between_events server fd (PongIn key p) = (if sv_on_pong server then [OnPong fd p] else [])"
| "between_events server fd _ = []"

fun between_ok :: "nat \<Rightarrow> between \<Rightarrow> bool" where
  "between_ok lim (Piece key p) = (length key = 4)"
| "between_ok lim (PingIn key p) = (length key = 4 \<and> length p \<le> 125 \<and> length p \<le> lim)"
| "between_ok lim (PongIn key p) = (length key = 4 \<and> length p \<le> 125 \<and> length p \<le> lim)"

definition deliver :: "u8 \<Rightarrow> u32 \<Rightarrow> bytes \<Rightarrow> user_ptr \<Rightarrow> ws_event" where
  "deliver opc fd msg user = (if opc = WS_OPCODE_TEXT then OnText fd msg user else OnBinary fd msg user)"

definition fragments :: "u8 \<Rightarrow> bytes \<Rightarrow> bytes \<Rightarrow> between list \<Rightarrow> bytes \<Rightarrow> bytes \<Rightarrow> bytes" where
  "fragments opc key0 p0 ms key1 p1 = rfc_frame False opc (Some key0) p0 @
     concat (map between_frame ms) @ rfc_frame True WS_OPCODE_CONTINUATION (Some key1) p1"

definition fragments_message :: "bytes \<Rightarrow> between list \<Rightarrow> bytes \<Rightarrow> bytes" where
  "fragments_message p0 ms p1 = p0 @ concat (map between_piece ms) @ p1"

text \<open>One client frame through the loop.\<close>

lemma frame_bytes_client:
  assumes "length key = 4" "length p < 2 ^ 64"
  shows "frame_bytes (client_frame fin opc key (length p))
    (rfc_byte0 fin opc # rfc_len True (length p) @ key @ p @ rest) = p"
proof -
  have "drop (rfc_hdr (length p)) (rfc_byte0 fin opc # rfc_len True (length p) @ key @ p @ rest) = p @ rest"
    using assms(1) by (simp add: rfc_hdr_def drop_Cons')
  thus ?thesis using assms(2) by (auto simp: frame_bytes_def client_frame_def unat_of_nat_u64)
qed

lemma frames_loop_client_frame:
  assumes "opc < 16" "length key = 4" "length p \<le> unat (sv_max_message_size server)"
    and "unat (sv_max_message_size server) + 14 < 2 ^ 31" "length p + length rest + 14 < 2 ^ 64"
    and "process_websocket_frame malloc_ok server st (client_frame fin opc key (length p)) p = (0, st')"
  shows "\<exists>pre'. ws_frames_loop cpu malloc_ok server st pre (rfc_frame fin opc (Some key) p @ rest) =
    ws_frames_loop cpu malloc_ok server st' pre' rest"
proof -
  let ?F = "rfc_frame fin opc (Some key) p"
  let ?d = "rfc_byte0 fin opc # rfc_len True (length p) @ key @ p @ rest"
  have p: "ws_parse_frame cpu (?F @ rest) (sv_max_message_size server) =
      (int (length ?F), client_frame fin opc key (length p), ?d)"
    using assms(1-5) by (intro parse_client_frame) auto
  have len: "length ?F = rfc_hdr (length p) + length p" using assms(2) by (rule length_rfc_client)
  have "drop (length ?F) ?d = rest" unfolding len using assms(2) by (simp add: rfc_hdr_def drop_Cons')
  moreover have "frame_bytes (client_frame fin opc key (length p)) ?d = p"
    using assms(2,5) by (intro frame_bytes_client) auto
  moreover have "?F @ rest \<noteq> []" "\<not> int (length ?F) < 0" "int (length ?F) \<noteq> 0" using len by (auto simp: rfc_hdr_cases)
  ultimately have "ws_frames_loop cpu malloc_ok server st pre (?F @ rest) =
      ws_frames_loop cpu malloc_ok server st' (pre @ take (length ?F) ?d) rest"
    using p assms(6) by (subst ws_frames_loop.simps) (simp add: WS_FRAME_CLOSE_REQUESTED_def del: rfc_frame.simps)
  thus ?thesis by blast
qed

text \<open>The connection is collecting a fragmented message, and the pieces so far are \<open>msg\<close>.\<close>

definition collecting :: "u8 \<Rightarrow> bytes \<Rightarrow> hstate \<Rightarrow> bool" where
  "collecting opc msg st \<longleftrightarrow> (let p = c_frame_parser (hs_conn st) in
     fp_in_fragmented_message p \<and> fp_fragment_opcode p = opc \<and> fp_fragment_buffer p = Some msg \<and>
     fp_fragment_total_size p = length msg)"

definition same_client :: "hstate \<Rightarrow> hstate \<Rightarrow> bool" where
  "same_client st st' \<longleftrightarrow> c_fd (hs_conn st') = c_fd (hs_conn st) \<and>
     c_user_data (hs_conn st') = c_user_data (hs_conn st) \<and> c_state (hs_conn st') = c_state (hs_conn st)"

definition takes_pongs :: "nat \<Rightarrow> sock \<Rightarrow> bool" where
  "takes_pongs k sk \<longleftrightarrow> k \<le> length (sk_wr sk) \<and>
     (\<forall>a \<in> set (take k (sk_wr sk)). case a of WrTake n \<Rightarrow> 127 \<le> n | _ \<Rightarrow> False)"

lemma process_first:
  assumes "opc \<in> {WS_OPCODE_TEXT, WS_OPCODE_BINARY}" "\<forall>n. malloc_ok n"
    and "\<not> fp_in_fragmented_message (c_frame_parser (hs_conn st))" "length p < 2 ^ 64"
  shows "\<exists>st'. process_websocket_frame malloc_ok server st (client_frame False opc key (length p)) p = (0, st') \<and>
    collecting opc p st' \<and> same_client st st' \<and> hs_log st' = hs_log st \<and> hs_sock st' = hs_sock st"
proof -
  have "\<not> (8 :: u8) \<le> 1" "\<not> (8 :: u8) \<le> 2" by (simp_all add: word_le_nat_alt)
  thus ?thesis using assms
    by (auto simp: process_websocket_frame_def client_frame_def opcode_defs process_fragmented_frame_def Let_def
        collecting_def same_client_def set_parser_def map_conn_def unat_of_nat_u64)
qed

lemma piece_fits:
  assumes "length msg + length p \<le> unat lim"
  shows "\<not> (word_of_nat (length p) :: u64) > lim - word_of_nat (length msg)"
proof -
  have "unat lim < 2 ^ LENGTH(64)" by (rule unsigned_less)
  hence u: "unat (word_of_nat (length msg) :: u64) = length msg" "unat (word_of_nat (length p) :: u64) = length p"
    using assms by (auto intro!: unat_of_nat_u64)
  hence "(word_of_nat (length msg) :: u64) \<le> lim" using assms by (simp add: word_le_nat_alt)
  hence "unat (lim - word_of_nat (length msg)) = unat lim - length msg" using u by (simp add: unat_sub)
  thus ?thesis using u assms by (simp add: word_less_nat_alt)
qed

lemma process_piece:
  assumes "collecting opc msg st" "\<forall>n. malloc_ok n" "length msg + length p \<le> unat (sv_max_message_size server)"
  shows "\<exists>st'. process_websocket_frame malloc_ok server st
      (client_frame False WS_OPCODE_CONTINUATION key (length p)) p = (0, st') \<and>
    collecting opc (msg @ p) st' \<and> same_client st st' \<and> hs_log st' = hs_log st \<and> hs_sock st' = hs_sock st"
proof -
  have "unat (sv_max_message_size server) < 2 ^ LENGTH(64)" by (rule unsigned_less)
  hence "length p < 2 ^ 64" using assms(3) by simp
  thus ?thesis using assms(1,2) piece_fits [OF assms(3)]
    by (auto simp: process_websocket_frame_def client_frame_def opcode_defs process_continuation_frame_def Let_def
        collecting_def same_client_def set_parser_def map_conn_def unat_of_nat_u64)
qed

lemma process_last:
  assumes "collecting opc msg st" "\<forall>n. malloc_ok n" "length msg + length p \<le> unat (sv_max_message_size server)"
    and "opc \<in> {WS_OPCODE_TEXT, WS_OPCODE_BINARY}" "opc = WS_OPCODE_TEXT \<longrightarrow> ws_utf8_valid (msg @ p)"
    and "sv_on_text_message server" "sv_on_binary_message server"
  shows "\<exists>st'. process_websocket_frame malloc_ok server st
      (client_frame True WS_OPCODE_CONTINUATION key (length p)) p = (0, st') \<and>
    c_frame_parser (hs_conn st') = zero_frame_parser \<and> same_client st st' \<and>
    hs_log st' = hs_log st @ [deliver opc (c_fd (hs_conn st)) (msg @ p) (c_user_data (hs_conn st))] \<and>
    hs_sock st' = hs_sock st"
proof -
  have "unat (sv_max_message_size server) < 2 ^ LENGTH(64)" by (rule unsigned_less)
  hence "length p < 2 ^ 64" using assms(3) by simp
  thus ?thesis using assms(1,2,4-7) piece_fits [OF assms(3)]
    by (auto simp: process_websocket_frame_def client_frame_def opcode_defs process_continuation_frame_def Let_def
        collecting_def same_client_def set_parser_def map_conn_def unat_of_nat_u64 log_event_def deliver_def
        cleanup_fragmentation_state_def zero_frame_parser_def)
qed

lemma control_small:
  "length p \<le> 125 \<Longrightarrow> \<not> (word_of_nat (length p) :: u64) > 125"
  by (simp add: word_less_nat_alt unat_of_nat_u64)

lemma process_pong:
  assumes "length p \<le> 125"
  shows "process_websocket_frame malloc_ok server st (client_frame True WS_OPCODE_PONG key (length p)) p =
    (0, st\<lparr>hs_log := hs_log st @ between_events server (c_fd (hs_conn st)) (PongIn key p)\<rparr>)"
  using control_small [OF assms]
  by (simp add: process_websocket_frame_def client_frame_def opcode_defs log_event_def)

lemma process_ping:
  assumes "length p \<le> 125" "\<forall>n. malloc_ok n" "takes_pongs (Suc k) (hs_sock st)"
  shows "\<exists>sk. process_websocket_frame malloc_ok server st (client_frame True WS_OPCODE_PING key (length p)) p =
      (0, st\<lparr>hs_sock := sk\<rparr>) \<and> takes_pongs k sk \<and>
    sk_wire sk = sk_wire (hs_sock st) @ rfc_frame True WS_OPCODE_PONG None p"
proof -
  let ?F = "rfc_frame True WS_OPCODE_PONG None p"
  obtain n rest where wr: "sk_wr (hs_sock st) = WrTake n # rest" "127 \<le> n"
    using assms(3) by (cases "sk_wr (hs_sock st)") (auto simp: takes_pongs_def split: wr_answer.splits)
  have "length ?F \<le> n" using assms(1) wr(2) by (simp add: rfc_len_def)
  moreover have "ws_encode_frame malloc_ok WS_OPCODE_PONG p = Some ?F"
    using assms(1,2) by (subst ws_encode_frame_rfc_aux) (simp_all add: WS_OPCODE_PONG_def)
  ultimately have "ws_send_pong_frame malloc_ok (hs_sock st) p =
      (0, (hs_sock st)\<lparr>sk_wire := sk_wire (hs_sock st) @ ?F, sk_wr := rest\<rparr>)"
    using wr(1) by (simp add: ws_send_pong_frame_def send_frame_def ws_conn_socket_write_def min_def del: rfc_frame.simps)
  thus ?thesis using control_small [OF assms(1)] assms(3) wr
    by (auto simp: process_websocket_frame_def client_frame_def opcode_defs takes_pongs_def simp del: rfc_frame.simps)
qed

fun pings :: "between list \<Rightarrow> nat" where
  "pings [] = 0"
| "pings (PingIn key p # ms) = Suc (pings ms)"
| "pings (_ # ms) = pings ms"

lemma opcode_less_16: "WS_OPCODE_CONTINUATION < 16" "WS_OPCODE_PING < 16" "WS_OPCODE_PONG < 16"
  by (simp_all add: opcode_defs)

lemma process_between:
  assumes "collecting opc msg st" "\<forall>n. malloc_ok n" "between_ok (unat (sv_max_message_size server)) m"
    and "length (msg @ between_piece m) \<le> unat (sv_max_message_size server)" "takes_pongs (pings (m # ms)) (hs_sock st)"
    and "unat (sv_max_message_size server) + 14 < 2 ^ 31" "length (between_frame m) + length rest < 2 ^ 63"
  shows "\<exists>st' pre'. ws_frames_loop cpu malloc_ok server st pre (between_frame m @ rest) =
      ws_frames_loop cpu malloc_ok server st' pre' rest \<and>
    collecting opc (msg @ between_piece m) st' \<and> same_client st st' \<and> takes_pongs (pings ms) (hs_sock st') \<and>
    hs_log st' = hs_log st @ between_events server (c_fd (hs_conn st)) m \<and>
    sk_wire (hs_sock st') = sk_wire (hs_sock st) @ between_reply m"
proof (cases m)
  case (Piece key p)
  obtain st' where st': "process_websocket_frame malloc_ok server st
        (client_frame False WS_OPCODE_CONTINUATION key (length p)) p = (0, st')"
      "collecting opc (msg @ p) st'" "same_client st st'" "hs_log st' = hs_log st" "hs_sock st' = hs_sock st"
    using process_piece [OF assms(1,2), of p server key] assms(4) Piece by auto
  show ?thesis
    using frames_loop_client_frame [OF opcode_less_16(1) _ _ assms(6) _ st'(1), of rest cpu pre] st'(2-) assms Piece by auto
next
  case (PingIn key p)
  obtain sk where sk: "process_websocket_frame malloc_ok server st (client_frame True WS_OPCODE_PING key (length p)) p =
        (0, st\<lparr>hs_sock := sk\<rparr>)" "takes_pongs (pings ms) sk"
      "sk_wire sk = sk_wire (hs_sock st) @ rfc_frame True WS_OPCODE_PONG None p"
    using process_ping [of p malloc_ok "pings ms" st server key] assms PingIn by auto
  show ?thesis
    using frames_loop_client_frame [OF opcode_less_16(2) _ _ assms(6) _ sk(1), of rest cpu pre] sk(2-) assms PingIn
    by (auto simp: collecting_def same_client_def)
next
  case (PongIn key p)
  have ok: "length p \<le> 125" using assms(3) PongIn by simp
  show ?thesis
    using frames_loop_client_frame [OF opcode_less_16(3) _ _ assms(6) _ process_pong [OF ok],
        where rest = rest and cpu = cpu and pre = pre and key = key and malloc_ok = malloc_ok and st = st] assms PongIn
    by (auto simp: collecting_def same_client_def simp del: between_events.simps)
qed

lemma process_betweens:
  assumes "collecting opc msg st" "\<forall>n. malloc_ok n" "\<forall>m \<in> set ms. between_ok (unat (sv_max_message_size server)) m"
    and "length (msg @ concat (map between_piece ms)) \<le> unat (sv_max_message_size server)"
    and "takes_pongs (pings ms) (hs_sock st)" "unat (sv_max_message_size server) + 14 < 2 ^ 31"
    and "length (concat (map between_frame ms)) + length rest < 2 ^ 63"
  shows "\<exists>st' pre'. ws_frames_loop cpu malloc_ok server st pre (concat (map between_frame ms) @ rest) =
      ws_frames_loop cpu malloc_ok server st' pre' rest \<and>
    collecting opc (msg @ concat (map between_piece ms)) st' \<and> same_client st st' \<and>
    hs_log st' = hs_log st @ concat (map (between_events server (c_fd (hs_conn st))) ms) \<and>
    sk_wire (hs_sock st') = sk_wire (hs_sock st) @ concat (map between_reply ms)"
  using assms
proof (induction ms arbitrary: st msg pre)
  case Nil
  thus ?case by (auto simp: same_client_def)
next
  case (Cons m ms)
  let ?rest = "concat (map between_frame ms) @ rest"
  obtain st1 pre1 where s1: "ws_frames_loop cpu malloc_ok server st pre (between_frame m @ ?rest) =
      ws_frames_loop cpu malloc_ok server st1 pre1 ?rest"
    "collecting opc (msg @ between_piece m) st1" "same_client st st1" "takes_pongs (pings ms) (hs_sock st1)"
    "hs_log st1 = hs_log st @ between_events server (c_fd (hs_conn st)) m"
    "sk_wire (hs_sock st1) = sk_wire (hs_sock st) @ between_reply m"
    using process_between [where opc = opc and msg = msg and st = st and malloc_ok = malloc_ok and server = server
        and m = m and ms = ms and rest = ?rest and cpu = cpu and pre = pre] Cons.prems by auto
  have ih: "\<forall>m \<in> set ms. between_ok (unat (sv_max_message_size server)) m"
    "length ((msg @ between_piece m) @ concat (map between_piece ms)) \<le> unat (sv_max_message_size server)"
    "length (concat (map between_frame ms)) + length rest < 2 ^ 63"
    using Cons.prems(3,4,7) by auto
  obtain st2 pre2 where "ws_frames_loop cpu malloc_ok server st1 pre1 ?rest =
      ws_frames_loop cpu malloc_ok server st2 pre2 rest"
    "collecting opc ((msg @ between_piece m) @ concat (map between_piece ms)) st2" "same_client st1 st2"
    "hs_log st2 = hs_log st1 @ concat (map (between_events server (c_fd (hs_conn st1))) ms)"
    "sk_wire (hs_sock st2) = sk_wire (hs_sock st1) @ concat (map between_reply ms)"
    using Cons.IH [OF s1(2) Cons.prems(2) ih(1,2) s1(4) Cons.prems(6) ih(3), of pre1] by blast
  with s1 show ?case by (auto simp: same_client_def)
qed

text \<open>
  C17. Reassembly: a client that sends a message in any number of fragments, with pings and pongs
  between them, has its message delivered exactly once, whole and in order, after the events
  of the control frames; every ping is answered by a pong with the same payload; and the
  connection is ready for the next message. The bytes that follow are handled from that state.
\<close>
theorem fragmented_message_delivered:
  assumes "opc \<in> {WS_OPCODE_TEXT, WS_OPCODE_BINARY}" "length key0 = 4" "length key1 = 4"
    and "\<forall>m \<in> set ms. between_ok (unat (sv_max_message_size server)) m"
    and "length (fragments_message p0 ms p1) \<le> unat (sv_max_message_size server)"
    and "opc = WS_OPCODE_TEXT \<longrightarrow> ws_utf8_valid (fragments_message p0 ms p1)"
    and "sv_on_text_message server" "sv_on_binary_message server" "\<forall>n. malloc_ok n"
    and "unat (sv_max_message_size server) + 14 < 2 ^ 31"
    and "length (fragments opc key0 p0 ms key1 p1) + length rest < 2 ^ 63"
    and "\<not> fp_in_fragmented_message (c_frame_parser (hs_conn st))" "takes_pongs (pings ms) (hs_sock st)"
  shows "\<exists>st' pre'. ws_frames_loop cpu malloc_ok server st pre (fragments opc key0 p0 ms key1 p1 @ rest) =
      ws_frames_loop cpu malloc_ok server st' pre' rest \<and>
    c_frame_parser (hs_conn st') = zero_frame_parser \<and> same_client st st' \<and>
    hs_log st' = hs_log st @ concat (map (between_events server (c_fd (hs_conn st))) ms) @
      [deliver opc (c_fd (hs_conn st)) (fragments_message p0 ms p1) (c_user_data (hs_conn st))] \<and>
    sk_wire (hs_sock st') = sk_wire (hs_sock st) @ concat (map between_reply ms)"
proof -
  let ?mid = "concat (map between_frame ms)"
  let ?last = "rfc_frame True WS_OPCODE_CONTINUATION (Some key1) p1"
  let ?first = "rfc_frame False opc (Some key0) p0"
  let ?msg = "p0 @ concat (map between_piece ms)"
  have len: "length ?first + length ?mid + length ?last + length rest < 2 ^ 63"
    using assms(11) by (simp only: fragments_def length_append)
  have plen: "length ?msg + length p1 \<le> unat (sv_max_message_size server)" using assms(5) by (simp add: fragments_message_def)
  have opc: "opc < 16" using assms(1) by (auto simp: opcode_defs)
  note l0 = length_rfc_client [OF assms(2), of False opc p0] and l1 = length_rfc_client [OF assms(3), of True WS_OPCODE_CONTINUATION p1]
  have p0: "length p0 < 2 ^ 64" using plen assms(10) by simp
  obtain st1 where s1: "process_websocket_frame malloc_ok server st (client_frame False opc key0 (length p0)) p0 = (0, st1)"
      "collecting opc p0 st1" "same_client st st1" "hs_log st1 = hs_log st" "hs_sock st1 = hs_sock st"
    using process_first [OF assms(1,9,12) p0, of server key0] by blast
  obtain pre1 where r1: "ws_frames_loop cpu malloc_ok server st pre (?first @ ?mid @ ?last @ rest) =
      ws_frames_loop cpu malloc_ok server st1 pre1 (?mid @ ?last @ rest)"
    using frames_loop_client_frame [OF opc assms(2) _ assms(10) _ s1(1), where rest = "?mid @ ?last @ rest" and cpu = cpu and pre = pre]
      len l0 plen by (auto simp del: rfc_frame.simps)
  obtain st2 pre2 where s2: "ws_frames_loop cpu malloc_ok server st1 pre1 (?mid @ ?last @ rest) =
      ws_frames_loop cpu malloc_ok server st2 pre2 (?last @ rest)"
    "collecting opc ?msg st2" "same_client st1 st2"
    "hs_log st2 = hs_log st1 @ concat (map (between_events server (c_fd (hs_conn st1))) ms)"
    "sk_wire (hs_sock st2) = sk_wire (hs_sock st1) @ concat (map between_reply ms)"
    using process_betweens [where opc = opc and msg = p0 and st = st1 and malloc_ok = malloc_ok and server = server
        and ms = ms and rest = "?last @ rest" and cpu = cpu and pre = pre1] s1 assms(4,9,10,13) len plen
    by (auto simp del: rfc_frame.simps)
  obtain st3 where s3: "process_websocket_frame malloc_ok server st2
        (client_frame True WS_OPCODE_CONTINUATION key1 (length p1)) p1 = (0, st3)"
      "c_frame_parser (hs_conn st3) = zero_frame_parser" "same_client st2 st3" "hs_sock st3 = hs_sock st2"
      "hs_log st3 = hs_log st2 @ [deliver opc (c_fd (hs_conn st2)) (?msg @ p1) (c_user_data (hs_conn st2))]"
    using process_last [OF s2(2) assms(9) plen assms(1)] assms(6-8) by (auto simp: fragments_message_def)
  obtain pre3 where r3: "ws_frames_loop cpu malloc_ok server st2 pre2 (?last @ rest) =
      ws_frames_loop cpu malloc_ok server st3 pre3 rest"
    using frames_loop_client_frame [OF opcode_less_16(1) assms(3) _ assms(10) _ s3(1), where rest = rest and cpu = cpu and pre = pre2]
      len l1 plen by (auto simp del: rfc_frame.simps)
  have "ws_frames_loop cpu malloc_ok server st pre (fragments opc key0 p0 ms key1 p1 @ rest) =
      ws_frames_loop cpu malloc_ok server st3 pre3 rest"
    using r1 s2(1) r3 by (simp add: fragments_def del: rfc_frame.simps)
  thus ?thesis using s1 s2 s3 by (auto simp: same_client_def fragments_message_def)
qed

theorem fragmented_message_delivered_witness:
  "let st = demo_state [WrTake 200] [];
       ms = [PingIn [9, 0, 0, 0] [7], Piece [5, 5, 5, 5] [105]]
   in \<exists>st' pre'. ws_frames_loop demo_cpu (\<lambda>_. True) demo_server st []
       (fragments WS_OPCODE_TEXT [1, 2, 3, 4] [104] ms [0, 0, 0, 1] [33] @ []) =
     ws_frames_loop demo_cpu (\<lambda>_. True) demo_server st' pre' [] \<and>
     hs_log st' = [OnText 5 [104, 105, 33] UserNull] \<and> sk_wire (hs_sock st') = [138, 1, 7]"
proof -
  let ?st = "demo_state [WrTake 200] []"
  let ?ms = "[PingIn [9, 0, 0, 0] [7], Piece [5, 5, 5, 5] [105]]"
  have msg: "fragments_message [104] ?ms [33] = [104, 105, 33]" by (simp add: fragments_message_def)
  have utf8: "ws_utf8_valid [104, 105, 33]" by code_simp
  have srv: "unat (sv_max_message_size demo_server) = 1000" "sv_on_text_message demo_server" "sv_on_binary_message demo_server"
    by (simp_all add: demo_server_def)
  have len: "length (fragments WS_OPCODE_TEXT [1, 2, 3, 4] [104] ?ms [0, 0, 0, 1] [33]) < 2 ^ 63"
    by (simp add: fragments_def rfc_len_def)
  have st: "\<not> fp_in_fragmented_message (c_frame_parser (hs_conn ?st))" "takes_pongs (pings ?ms) (hs_sock ?st)"
    "c_fd (hs_conn ?st) = 5" "c_user_data (hs_conn ?st) = UserNull" "hs_log ?st = []" "sk_wire (hs_sock ?st) = []"
    by (simp_all add: demo_state_def zero_connection_def zero_frame_parser_def takes_pongs_def)
  have ev: "deliver WS_OPCODE_TEXT 5 [104, 105, 33] UserNull = OnText 5 [104, 105, 33] UserNull"
    "concat (map (between_events demo_server 5) ?ms) = []" "concat (map between_reply ?ms) = [138, 1, 7]"
    by (simp_all add: deliver_def rfc_byte0_def rfc_len_def WS_OPCODE_PONG_def)
  show ?thesis
    using fragmented_message_delivered [of WS_OPCODE_TEXT "[1, 2, 3, 4]" "[0, 0, 0, 1]" ?ms demo_server "[104]" "[33]"
        "\<lambda>_. True" "[]" ?st demo_cpu "[]"] msg utf8 srv len st ev
    by (simp add: Let_def) blast
qed
end
