(* ===== verification/Ws_Handshake_Spec.thy ===== *)
theory Ws_Handshake_Spec
  imports Ws_Handshake Ws_Delivery
begin

text \<open>
  Correctness of the opening handshake: header lookup in request text agrees with lookup in the
  list of headers, and a successful handshake sends exactly the response of RFC 6455.
\<close>

section \<open>Header lookup is lookup in the list of headers\<close>

definition header_line :: "bytes \<times> bytes \<Rightarrow> bytes" where
  "header_line h = fst h @ [58, 32] @ snd h @ CRLF"

definition render_request :: "bytes \<Rightarrow> (bytes \<times> bytes) list \<Rightarrow> bytes" where
  "render_request request_line hs = request_line @ CRLF @ concat (map header_line hs) @ CRLF"

definition name_ok :: "bytes \<Rightarrow> bool" where
  "name_ok n \<longleftrightarrow> (\<forall>c \<in> set n. c \<notin> {13, 10, 58, 32, 9})"

definition value_ok :: "bytes \<Rightarrow> bool" where
  "value_ok v \<longleftrightarrow> 13 \<notin> set v \<and> 10 \<notin> set v \<and> (v \<noteq> [] \<longrightarrow> \<not> is_blank (hd v) \<and> \<not> is_blank (last v))"

definition same_name :: "bytes \<Rightarrow> bytes \<times> bytes \<Rightarrow> bool" where
  "same_name name h \<longleftrightarrow> map tolower (fst h) = map tolower name"

definition hit :: "bytes \<Rightarrow> bytes \<Rightarrow> nat \<Rightarrow> bool" where
  "hit headers name i \<longleftrightarrow> ci_prefix name (drop i headers) \<and> at_line_start headers i \<and>
     (let after = dropWhile is_blank (drop (i + length name) headers) in after \<noteq> [] \<and> hd after = 58)"

lemma find_header_from_hit:
  "find_header_from headers name pos =
   map_option (\<lambda>i. drop 1 (dropWhile is_blank (drop (i + length name) headers)))
     (find (hit headers name) [pos..<Suc (length headers)])"
proof (induction headers name pos rule: find_header_from.induct)
  case (1 headers name pos)
  show ?case
  proof (cases "strcasestr_from headers name pos")
    case None
    hence "find (hit headers name) [pos..<Suc (length headers)] = None"
      unfolding strcasestr_from_def find_None_iff hit_def by blast
    thus ?thesis using None by (simp add: find_header_from.simps [of headers] del: upt_Suc)
  next
    case (Some i)
    have i: "ci_prefix name (drop i headers)" "pos \<le> i" "i < Suc (length headers)"
      "\<forall>j. pos \<le> j \<and> j < i \<longrightarrow> \<not> hit headers name j"
      using find_Some_least [of _ pos "Suc (length headers)" i] Some unfolding strcasestr_from_def hit_def by blast+
    have skip: "find (hit headers name) [pos..<Suc (length headers)] = find (hit headers name) [i..<Suc (length headers)]"
      using i by (intro find_upt_skip) auto
    have split: "[i..<Suc (length headers)] = i # [i + 1..<Suc (length headers)]" using i(3) by (simp add: upt_conv_Cons del: upt_Suc)
    let ?after = "dropWhile is_blank (drop (i + length name) headers)"
    have h: "hit headers name i \<longleftrightarrow> at_line_start headers i \<and> ?after \<noteq> [] \<and> hd ?after = 58"
      using i(1) by (simp add: hit_def Let_def)
    show ?thesis
    proof (cases "hit headers name i")
      case True
      have "find_header_from headers name pos = Some (drop 1 ?after)"
        using Some True h by (subst find_header_from.simps) (simp only: Let_def option.case if_True simp_thms)
      thus ?thesis using skip split True by (simp del: upt_Suc)
    next
      case False
      have "find_header_from headers name pos = find_header_from headers name (i + 1)"
        using Some False h by (subst find_header_from.simps) (simp only: Let_def option.case if_False simp_thms)
      thus ?thesis using skip split False 1 [OF Some refl] h by (simp del: upt_Suc)
    qed
  qed
qed

lemma tolower_fixes: "tolower c = 58 \<longleftrightarrow> c = 58" "tolower c = 32 \<longleftrightarrow> c = 32"
proof -
  have "\<forall>n \<in> set [0..<256]. ((tolower (word_of_nat n) = 58) = ((word_of_nat n :: u8) = 58)) \<and>
      ((tolower (word_of_nat n) = 32) = ((word_of_nat n :: u8) = 32))" by code_simp
  hence "\<forall>n < 256. ((tolower (word_of_nat n) = 58) = ((word_of_nat n :: u8) = 58)) \<and>
      ((tolower (word_of_nat n) = 32) = ((word_of_nat n :: u8) = 32))" by simp
  hence "((tolower c = 58) = (c = 58)) \<and> ((tolower c = 32) = (c = 32))" by (rule u8_less_256_cases)
  thus "tolower c = 58 \<longleftrightarrow> c = 58" "tolower c = 32 \<longleftrightarrow> c = 32" by auto
qed

definition line_start :: "bytes \<Rightarrow> bool" where
  "line_start pre \<longleftrightarrow> pre = [] \<or> (\<exists>p. pre = p @ CRLF)"

lemma at_line_start_pre: "line_start pre \<Longrightarrow> at_line_start (pre @ s) (length pre)"
  by (auto simp: line_start_def at_line_start_def CRLF_def nth_append)

text \<open>Inside a line no position starts a line.\<close>

lemma not_line_start:
  assumes "13 \<notin> set l" "10 \<notin> set l" "length pre < i" "i < length pre + length l + 2"
  shows "\<not> at_line_start (pre @ l @ CRLF @ rest) i"
proof -
  let ?k = "i - length pre - 1"
  have k: "i - 1 = length pre + ?k" "?k \<le> length l" using assms(3,4) by auto
  have "(pre @ l @ CRLF @ rest) ! (i - 1) = (if ?k < length l then l ! ?k else 13)"
    unfolding k(1) using k(2) by (auto simp: nth_append CRLF_def)
  moreover have "l ! ?k \<noteq> 10" if "?k < length l" using that assms(2) by (metis nth_mem)
  ultimately show ?thesis using assms(3) by (auto simp: at_line_start_def split: if_splits)
qed

lemma hit_header_line:
  assumes "name_ok name" "name_ok n" "line_start pre"
  shows "hit (pre @ n @ [58, 32] @ rest) name (length pre) \<longleftrightarrow> map tolower n = map tolower name"
proof -
  let ?s = "n @ 58 # 32 # rest"
  have a: "hit (pre @ n @ [58, 32] @ rest) name (length pre) \<longleftrightarrow> ci_prefix name ?s \<and>
      (let after = dropWhile is_blank (drop (length name) ?s) in after \<noteq> [] \<and> hd after = 58)"
    using at_line_start_pre [OF assms(3), of ?s] by (simp add: hit_def)
  consider "length name = length n" | "length name < length n" | "length n < length name" by linarith
  thus ?thesis
  proof cases
    case 1
    thus ?thesis unfolding a by (auto simp: ci_prefix_def is_blank_def)
  next
    case 2
    obtain c cs where d: "drop (length name) n = c # cs" using 2 by (cases "drop (length name) n") auto
    have "c \<in> set n" using d by (metis in_set_dropD list.set_intros(1))
    hence "c \<noteq> 58" "\<not> is_blank c" using assms(2) by (auto simp: name_ok_def is_blank_def)
    thus ?thesis unfolding a using d 2 map_tolower_length [of n name] by auto
  next
    case 3
    have "\<not> ci_prefix name ?s"
    proof
      assume c: "ci_prefix name ?s"
      hence "map tolower (take (length name) ?s) ! length n = map tolower name ! length n" by (simp only: ci_prefix_def)
      moreover have "length n < length (take (length name) ?s)" using c 3 by (simp add: ci_prefix_def)
      ultimately have "tolower (take (length name) ?s ! length n) = tolower (name ! length n)"
        using 3 nth_map [of "length n" "take (length name) ?s" tolower] nth_map [of "length n" name tolower] by (simp only:)
      hence "tolower (?s ! length n) = tolower (name ! length n)" using 3 by (simp only: nth_take)
      hence "name ! length n = 58" by (simp add: nth_append) (metis tolower_fixes(1))
      thus False using assms(1) 3 by (metis insertI1 insertI2 name_ok_def nth_mem)
    qed
    thus ?thesis unfolding a using 3 map_tolower_length [of n name] by auto
  qed
qed


lemma hit_short: "length s < length name \<Longrightarrow> \<not> hit (pre @ s) name (length pre)"
  by (simp add: hit_def ci_prefix_def)

lemma find_headers:
  assumes "name_ok name" "2 < length name" "\<forall>(n, v) \<in> set hs. name_ok n \<and> value_ok v" "line_start pre"
    and "headers = pre @ concat (map header_line hs) @ CRLF"
  shows "case find (same_name name) hs of
      None \<Rightarrow> find (hit headers name) [length pre..<Suc (length headers)] = None
    | Some (n, v) \<Rightarrow> \<exists>i rest. find (hit headers name) [length pre..<Suc (length headers)] = Some i \<and>
        drop (i + length name) headers = 58 # 32 # v @ CRLF @ rest"
  using assms(3-5)
proof (induction hs arbitrary: pre)
  case Nil
  have "\<not> hit headers name i" if "length pre \<le> i" "i < Suc (length headers)" for i
  proof -
    have "length (drop i headers) < length name" using that Nil.prems(3) assms(2) by (simp add: CRLF_def)
    thus ?thesis by (auto simp: hit_def ci_prefix_def)
  qed
  thus ?case by (auto simp: find_None_iff simp del: upt_Suc)
next
  case (Cons h hs)
  obtain n v where h: "h = (n, v)" by fastforce
  have ok: "name_ok n" "value_ok v" "\<forall>(n, v) \<in> set hs. name_ok n \<and> value_ok v" using Cons.prems(1) h by auto
  let ?l = "n @ [58, 32] @ v" and ?rest = "concat (map header_line hs) @ CRLF"
  have hd1: "headers = pre @ n @ [58, 32] @ (v @ CRLF @ ?rest)" "headers = pre @ ?l @ CRLF @ ?rest"
    using Cons.prems(3) h by (simp_all add: header_line_def [of "(n, v)"])
  have l: "13 \<notin> set ?l" "10 \<notin> set ?l" using ok(1,2) by (auto simp: name_ok_def value_ok_def)
  have upt: "[length pre..<Suc (length headers)] = length pre # [Suc (length pre)..<Suc (length headers)]"
    using hd1(1) by (simp add: upt_conv_Cons del: upt_Suc)
  show ?case
  proof (cases "same_name name h")
    case True
    hence "map tolower n = map tolower name" using h by (simp add: same_name_def)
    hence "hit headers name (length pre)" unfolding hd1(1) by (subst hit_header_line [OF assms(1) ok(1) Cons.prems(2)])
    moreover have "length n = length name" using True h map_tolower_length [of n name] by (simp add: same_name_def)
    hence "drop (length pre + length name) headers = 58 # 32 # v @ CRLF @ ?rest" using hd1(1) by simp
    ultimately have "find (hit headers name) [length pre..<Suc (length headers)] = Some (length pre) \<and>
        drop (length pre + length name) headers = 58 # 32 # v @ CRLF @ ?rest" using upt by (simp del: upt_Suc)
    moreover have "find (same_name name) (h # hs) = Some (n, v)" using True h by simp
    ultimately show ?thesis by auto
  next
    case False
    hence "map tolower n \<noteq> map tolower name" using h by (simp add: same_name_def)
    hence "\<not> hit headers name (length pre)" unfolding hd1(1) by (subst hit_header_line [OF assms(1) ok(1) Cons.prems(2)])
    moreover have "\<not> hit headers name i" if "length pre < i" "i < length pre + length ?l + 2" for i
      using not_line_start [OF l that, of ?rest] hd1(2) by (simp add: hit_def)
    moreover have "length (pre @ ?l @ CRLF) = length pre + length ?l + 2" by (simp add: CRLF_def)
    ultimately have none: "\<forall>i. length pre \<le> i \<and> i < length (pre @ ?l @ CRLF) \<longrightarrow> \<not> hit headers name i"
      by (metis le_neq_implies_less)
    have skip: "find (hit headers name) [length pre..<Suc (length headers)] =
        find (hit headers name) [length (pre @ ?l @ CRLF)..<Suc (length headers)]"
      using none by (rule find_upt_skip) (simp_all add: hd1(2) CRLF_def)
    have "line_start (pre @ ?l @ CRLF)" by (auto simp: line_start_def)
    moreover have "headers = (pre @ ?l @ CRLF) @ ?rest" using hd1(2) by simp
    moreover have "find (same_name name) (h # hs) = find (same_name name) hs" using False by simp
    ultimately show ?thesis unfolding skip using Cons.IH [OF ok(3), of "pre @ ?l @ CRLF"] by (simp only:)
  qed
qed

lemma request_line_no_hit:
  assumes "name_ok name" "4 \<le> length name" "take 4 request_line = bytes_of ''GET ''"
  shows "\<not> hit (request_line @ rest) name 0"
proof
  assume "hit (request_line @ rest) name 0"
  hence c: "map tolower (take (length name) (request_line @ rest)) = map tolower name"
    "length name \<le> length (request_line @ rest)" by (auto simp: hit_def ci_prefix_def)
  have r: "(request_line @ rest) ! 3 = 32"
  proof -
    have "length (take 4 request_line) = 4" using assms(3) by (simp add: bytes_of_def)
    hence "3 < length request_line" by simp
    moreover have "take 4 request_line ! 3 = 32" using assms(3) by (simp add: bytes_of_def)
    ultimately show ?thesis by (simp add: nth_append)
  qed
  have "tolower (take (length name) (request_line @ rest) ! 3) = tolower (name ! 3)"
    using c assms(2) nth_map [of 3 "take (length name) (request_line @ rest)" tolower] nth_map [of 3 name tolower] by simp
  hence "tolower (name ! 3) = 32" using assms(2) r tolower_fixes(2) [of 32] by (simp only: nth_take)
  hence "name ! 3 = 32" by (simp only: tolower_fixes)
  moreover have "name ! 3 \<in> set name" using assms(2) by simp
  ultimately show False using assms(1) by (auto simp: name_ok_def)
qed

lemma trim_blanks_value: "v \<noteq> [] \<longrightarrow> \<not> is_blank (last v) \<Longrightarrow> trim_blanks_right v = v"
  by (cases v rule: rev_cases) (auto simp: trim_blanks_right_def)

lemma find_header_lookup:
  assumes "name_ok name" "4 \<le> length name" "\<forall>(n, v) \<in> set hs. name_ok n \<and> value_ok v" "\<forall>n. malloc_ok n"
    and "take 4 request_line = bytes_of ''GET ''" "13 \<notin> set request_line" "10 \<notin> set request_line"
  shows "find_header_value malloc_ok (render_request request_line hs) name = map_option snd (find (same_name name) hs)"
proof -
  let ?pre = "request_line @ CRLF" and ?R = "render_request request_line hs"
  have R: "?R = ?pre @ concat (map header_line hs) @ CRLF" "?R = [] @ request_line @ CRLF @ (concat (map header_line hs) @ CRLF)"
    by (simp_all add: render_request_def)
  have "\<not> hit ?R name 0" using request_line_no_hit [OF assms(1,2,5)] by (simp add: render_request_def)
  moreover have "\<not> hit ?R name i" if "0 < i" "i < length ?pre" for i
    using not_line_start [OF assms(6,7), of "[]" i "concat (map header_line hs) @ CRLF"] that R(2)
    by (simp add: hit_def CRLF_def)
  ultimately have "\<forall>i. 0 \<le> i \<and> i < length ?pre \<longrightarrow> \<not> hit ?R name i" by (metis neq0_conv)
  hence skip: "find (hit ?R name) [0..<Suc (length ?R)] = find (hit ?R name) [length ?pre..<Suc (length ?R)]"
    using R(1) by (intro find_upt_skip) auto
  have ls: "line_start ?pre" by (auto simp: line_start_def)
  note f = find_headers [OF assms(1) _ assms(3) ls R(1)]
  show ?thesis
  proof (cases "find (same_name name) hs")
    case None
    thus ?thesis using f assms(2) skip by (simp add: find_header_value_def find_header_from_hit del: upt_Suc)
  next
    case (Some h)
    obtain n v where h: "h = (n, v)" by fastforce
    obtain i rest where i: "find (hit ?R name) [length ?pre..<Suc (length ?R)] = Some i"
      "drop (i + length name) ?R = 58 # 32 # v @ CRLF @ rest"
      using f assms(2) Some h by auto
    have "h \<in> set hs" using Some by (auto simp: find_Some_iff)
    hence v: "13 \<notin> set v" "v \<noteq> [] \<longrightarrow> \<not> is_blank (hd v)" "v \<noteq> [] \<longrightarrow> \<not> is_blank (last v)"
      using assms(3) h by (auto simp: value_ok_def)
    have "find_header_from ?R name 0 = Some (32 # v @ CRLF @ rest)"
      using i skip by (simp add: find_header_from_hit is_blank_def del: upt_Suc)
    moreover have "dropWhile is_blank (32 # v @ CRLF @ rest) = v @ CRLF @ rest"
      using v(2) by (cases v) (auto simp: is_blank_def CRLF_def)
    ultimately show ?thesis
      using before_line [OF v(1)] trim_blanks_value [OF v(3)] assms(4) Some h
      by (simp add: find_header_value_def Let_def)
  qed
qed

text \<open>
  C22. Header lookup by text search is correct: in a request made of a request line and header
  lines, looking up a name returns the value of the first header with that name up to case, and
  nothing when there is none. A name inside a value or a prefix of a longer name does not match.
\<close>
theorem find_header_value_lookup:
  assumes "name_ok name" "4 \<le> length name" "\<forall>(n, v) \<in> set hs. name_ok n \<and> value_ok v" "\<forall>n. malloc_ok n"
    and "take 4 request_line = bytes_of ''GET ''" "13 \<notin> set request_line" "10 \<notin> set request_line"
  shows "find_header_value malloc_ok (render_request request_line hs) name = map_option snd (find (same_name name) hs)"
  using assms by (rule find_header_lookup)

theorem find_header_value_lookup_witness:
  "find_header_value (\<lambda>_. True) (render_request (bytes_of ''GET /x HTTP/1.1'')
      [(bytes_of ''X'', bytes_of ''Host: no''), (bytes_of ''hOST'', bytes_of ''yes'')]) (bytes_of ''Host'') = Some (bytes_of ''yes'')"
proof -
  let ?hs = "[(bytes_of ''X'', bytes_of ''Host: no''), (bytes_of ''hOST'', bytes_of ''yes'')]"
  have "find (same_name (bytes_of ''Host'')) ?hs = Some (bytes_of ''hOST'', bytes_of ''yes'')" by code_simp
  thus ?thesis
    using find_header_value_lookup [of "bytes_of ''Host''" ?hs "\<lambda>_. True" "bytes_of ''GET /x HTTP/1.1''"]
    by (simp add: name_ok_def value_ok_def bytes_of_def is_blank_def)
qed

section \<open>The response\<close>

text \<open>The switching-protocols response of RFC 6455.\<close>

definition switching_response :: "bytes \<Rightarrow> bytes option \<Rightarrow> bytes" where
  "switching_response accept proto =
    concat (map (\<lambda>l. l @ CRLF)
      ([bytes_of ''HTTP/1.1 101 Switching Protocols'', bytes_of ''Upgrade: websocket'', bytes_of ''Connection: Upgrade'',
        bytes_of ''Sec-WebSocket-Accept: '' @ accept] @
       (case proto of None \<Rightarrow> [] | Some p \<Rightarrow> [bytes_of ''Sec-WebSocket-Protocol: '' @ p]) @ [[]]))"

lemma create_response:
  assumes "ws_create_handshake_response malloc_ok info sel sz = Some r"
  shows "\<exists>accept. ws_generate_accept_key malloc_ok (hi_sec_websocket_key info) = Some accept \<and>
    r = switching_response accept (if sel = Some [] then None else sel) \<and> length r < sz"
  using assms
  by (auto simp: ws_create_handshake_response_def Let_def switching_response_def CRLF_def split: option.splits if_splits)


definition demo_headers :: "(bytes \<times> bytes) list" where
  "demo_headers =
     [(bytes_of ''Upgrade'', bytes_of ''websocket''), (bytes_of ''Connection'', bytes_of ''keep-alive, Upgrade''),
      (bytes_of ''Sec-WebSocket-Version'', bytes_of ''13''), (bytes_of ''Sec-WebSocket-Key'', bytes_of ''dGhlIHNhbXBsZSBub25jZQ=='')]"

definition demo_request :: bytes where
  "demo_request = render_request (bytes_of ''GET / HTTP/1.1'') demo_headers"

lemma demo_lookup:
  assumes "name_ok name" "4 \<le> length name"
  shows "find_header_value (\<lambda>_. True) demo_request name = map_option snd (find (same_name name) demo_headers)"
proof -
  have "\<forall>h \<in> set demo_headers. name_ok (fst h) \<and> value_ok (snd h)"
    by (simp add: demo_headers_def name_ok_def value_ok_def bytes_of_def is_blank_def)
  hence "\<forall>(n, v) \<in> set demo_headers. name_ok n \<and> value_ok v" by auto
  thus ?thesis unfolding demo_request_def using assms
    by (intro find_header_lookup) (simp_all add: bytes_of_def)
qed

lemma demo_values:
  "find_header_value (\<lambda>_. True) demo_request (bytes_of ''Upgrade'') = Some (bytes_of ''websocket'')"
  "find_header_value (\<lambda>_. True) demo_request (bytes_of ''Connection'') = Some (bytes_of ''keep-alive, Upgrade'')"
  "find_header_value (\<lambda>_. True) demo_request (bytes_of ''Sec-WebSocket-Version'') = Some (bytes_of ''13'')"
  "find_header_value (\<lambda>_. True) demo_request (bytes_of ''Sec-WebSocket-Key'') = Some (bytes_of ''dGhlIHNhbXBsZSBub25jZQ=='')"
  "find_header_value (\<lambda>_. True) demo_request (bytes_of ''Host'') = None"
proof -
  have f: "find (same_name (bytes_of ''Upgrade'')) demo_headers = Some (bytes_of ''Upgrade'', bytes_of ''websocket'')"
    "find (same_name (bytes_of ''Connection'')) demo_headers = Some (bytes_of ''Connection'', bytes_of ''keep-alive, Upgrade'')"
    "find (same_name (bytes_of ''Sec-WebSocket-Version'')) demo_headers = Some (bytes_of ''Sec-WebSocket-Version'', bytes_of ''13'')"
    "find (same_name (bytes_of ''Sec-WebSocket-Key'')) demo_headers = Some (bytes_of ''Sec-WebSocket-Key'', bytes_of ''dGhlIHNhbXBsZSBub25jZQ=='')"
    "find (same_name (bytes_of ''Host'')) demo_headers = None" by code_simp+
  have "name_ok (bytes_of ''Upgrade'')" "name_ok (bytes_of ''Connection'')" "name_ok (bytes_of ''Sec-WebSocket-Version'')"
    "name_ok (bytes_of ''Sec-WebSocket-Key'')" "name_ok (bytes_of ''Host'')" by code_simp+
  note n = this [THEN demo_lookup]
  show "find_header_value (\<lambda>_. True) demo_request (bytes_of ''Upgrade'') = Some (bytes_of ''websocket'')"
    using n(1) f(1) by (simp add: bytes_of_def)
  show "find_header_value (\<lambda>_. True) demo_request (bytes_of ''Connection'') = Some (bytes_of ''keep-alive, Upgrade'')"
    using n(2) f(2) by (simp add: bytes_of_def)
  show "find_header_value (\<lambda>_. True) demo_request (bytes_of ''Sec-WebSocket-Version'') = Some (bytes_of ''13'')"
    using n(3) f(3) by (simp add: bytes_of_def)
  show "find_header_value (\<lambda>_. True) demo_request (bytes_of ''Sec-WebSocket-Key'') = Some (bytes_of ''dGhlIHNhbXBsZSBub25jZQ=='')"
    using n(4) f(4) by (simp add: bytes_of_def)
  show "find_header_value (\<lambda>_. True) demo_request (bytes_of ''Host'') = None"
    using n(5) f(5) by (simp add: bytes_of_def)
qed

end
