(* ===== verification/Ws_Mpsc.thy ===== *)
theory Ws_Mpsc
  imports Ws_Connection
begin

text \<open>
  The cross-thread message queue (ws\_mpsc.c): an intrusive queue of nodes taken from a
  preallocated pool, whose free list shares the \<open>next\<close> field with the queue. Nodes are
  identified by their address, counted in nodes; 0 is NULL. The pool occupies the addresses from
  \<open>mq_pool\<close> on. The address that an allocation returns is a parameter (0 when it fails).
  Sizes of structures are those of the LP64 data model.
\<close>

section \<open>Nodes and queues\<close>

datatype mpsc_data =
    NewConnection int bytes
  | SendData int "(nat \<times> u32) option" bytes
  | CloseData int u16 bytes
  | UserData int user_ptr

record ws_mpsc_node =
  n_next :: nat
  n_data :: "mpsc_data option"
  n_data_size :: nat
  n_message_type :: u32

record ws_mpsc_queue =
  mq_head :: nat
  mq_tail :: nat
  mq_pool :: nat
  mq_nodes :: "ws_mpsc_node list"
  mq_node_pool_size :: u32
  mq_free_head :: nat
  mq_free_nodes :: u64
  mq_initial_pool_size :: u32
  mq_max_pool_size :: u32
  mq_growth_factor :: u32
  mq_exhaustion_count :: u64
  mq_last_growth_time :: int
  mq_growth_cooldown_sec :: u32
  mq_expanding :: bool
  mq_messages_sent :: u64
  mq_messages_received :: u64
  mq_total_expansions :: u64

definition WS_MPSC_DEFAULT_NODE_POOL_SIZE :: u32 where "WS_MPSC_DEFAULT_NODE_POOL_SIZE = 1024"
definition WS_MPSC_DEFAULT_MAX_POOL_SIZE :: u32 where "WS_MPSC_DEFAULT_MAX_POOL_SIZE = 131072"
definition WS_MPSC_DEFAULT_GROWTH_FACTOR :: u32 where "WS_MPSC_DEFAULT_GROWTH_FACTOR = 2"
definition WS_MPSC_DEFAULT_GROWTH_COOLDOWN :: u32 where "WS_MPSC_DEFAULT_GROWTH_COOLDOWN = 5"

definition zero_node :: ws_mpsc_node where
  "zero_node = \<lparr>n_next = 0, n_data = None, n_data_size = 0, n_message_type = 0\<rparr>"

text \<open>Reading and writing the node at an address of the pool.\<close>

definition node_at :: "ws_mpsc_queue \<Rightarrow> nat \<Rightarrow> ws_mpsc_node" where
  "node_at q p = mq_nodes q ! (p - mq_pool q)"

definition upd_node :: "nat \<Rightarrow> (ws_mpsc_node \<Rightarrow> ws_mpsc_node) \<Rightarrow> ws_mpsc_queue \<Rightarrow> ws_mpsc_queue" where
  "upd_node p f q = q\<lparr>mq_nodes := (mq_nodes q)[p - mq_pool q := f (node_at q p)]\<rparr>"

abbreviation set_next :: "nat \<Rightarrow> nat \<Rightarrow> ws_mpsc_queue \<Rightarrow> ws_mpsc_queue" where
  "set_next p v \<equiv> upd_node p (\<lambda>n. n\<lparr>n_next := v\<rparr>)"

section \<open>Creation and expansion\<close>

definition ws_mpsc_queue_create :: "bool \<Rightarrow> nat \<Rightarrow> u32 \<Rightarrow> ws_mpsc_queue option" where
  "ws_mpsc_queue_create queue_ok addr node_pool_size =
    (let node_pool_size = (if node_pool_size = 0 then WS_MPSC_DEFAULT_NODE_POOL_SIZE else node_pool_size);
         n = unat node_pool_size
     in if \<not> queue_ok \<or> addr = 0 then None
        else Some \<lparr>mq_head = 0, mq_tail = 0, mq_pool = addr,
          mq_nodes = map (\<lambda>i. zero_node\<lparr>n_next := (if i < n - 1 then addr + (i + 1) else 0)\<rparr>) [0..<n],
          mq_node_pool_size = node_pool_size, mq_free_head = addr, mq_free_nodes = ucast node_pool_size,
          mq_initial_pool_size = node_pool_size, mq_max_pool_size = WS_MPSC_DEFAULT_MAX_POOL_SIZE,
          mq_growth_factor = WS_MPSC_DEFAULT_GROWTH_FACTOR, mq_exhaustion_count = 0,
          mq_last_growth_time = 0, mq_growth_cooldown_sec = WS_MPSC_DEFAULT_GROWTH_COOLDOWN,
          mq_expanding = False, mq_messages_sent = 0, mq_messages_received = 0,
          mq_total_expansions = 0\<rparr>)"

definition ws_mpsc_queue_create_adaptive ::
  "bool \<Rightarrow> nat \<Rightarrow> u32 \<Rightarrow> u32 \<Rightarrow> u32 \<Rightarrow> ws_mpsc_queue option" where
  "ws_mpsc_queue_create_adaptive queue_ok addr initial_size max_size growth_factor =
    (let initial_size = (if initial_size = 0 then WS_MPSC_DEFAULT_NODE_POOL_SIZE else initial_size);
         max_size = (if max_size = 0 \<or> max_size < initial_size then WS_MPSC_DEFAULT_MAX_POOL_SIZE else max_size);
         growth_factor = (if growth_factor < 2 then WS_MPSC_DEFAULT_GROWTH_FACTOR else growth_factor);
         practical_size = initial_size * 4;
         practical_size = (if practical_size > max_size then max_size else practical_size)
     in map_option (\<lambda>q. q\<lparr>mq_initial_pool_size := initial_size, mq_max_pool_size := max_size,
                          mq_growth_factor := growth_factor\<rparr>)
          (ws_mpsc_queue_create queue_ok addr practical_size))"

definition expand_node_pool :: "nat \<Rightarrow> int \<Rightarrow> ws_mpsc_queue \<Rightarrow> u32 \<Rightarrow> int \<times> ws_mpsc_queue" where
  "expand_node_pool addr now q new_size =
    (if new_size \<le> mq_node_pool_size q \<or> new_size > mq_max_pool_size q then (-1, q)
     else if mq_expanding q then (0, q)
     else if addr = 0 then (-1, q)
     else
       let old_size = mq_node_pool_size q;
           fresh = map (\<lambda>i. zero_node\<lparr>n_next := (if i < unat new_size - 1 then addr + (i + 1) else 0)\<rparr>)
                     [unat old_size..<unat new_size]
       in (0, q\<lparr>mq_pool := addr, mq_nodes := take (unat old_size) (mq_nodes q) @ fresh,
                mq_node_pool_size := new_size, mq_free_head := addr + unat old_size,
                mq_free_nodes := ucast (new_size - old_size),
                mq_total_expansions := mq_total_expansions q + 1, mq_last_growth_time := now\<rparr>))"

definition should_expand_pool :: "ws_mpsc_queue \<Rightarrow> bool" where
  "should_expand_pool q = False"

definition ws_mpsc_queue_expand_pool_safe :: "nat \<Rightarrow> int \<Rightarrow> ws_mpsc_queue \<Rightarrow> u32 \<Rightarrow> int \<times> ws_mpsc_queue" where
  "ws_mpsc_queue_expand_pool_safe addr now q new_size =
    (if new_size \<le> mq_node_pool_size q \<or> new_size > mq_max_pool_size q then (-1, q)
     else if (ucast (mq_free_nodes q) :: u32) < mq_node_pool_size q div 2 then (-2, q)
     else expand_node_pool addr now q new_size)"

section \<open>Node pool\<close>

text \<open>\<open>get_node\<close> runs under the free-list lock; it returns 0 when the pool is exhausted.\<close>

definition ws_mpsc_queue_get_node :: "nat \<Rightarrow> int \<Rightarrow> ws_mpsc_queue \<Rightarrow> nat \<times> ws_mpsc_queue" where
  "ws_mpsc_queue_get_node addr now q =
    (let q = (if should_expand_pool q then
                let new_size = mq_node_pool_size q * mq_growth_factor q;
                    new_size = (if new_size > mq_max_pool_size q then mq_max_pool_size q else new_size)
                in snd (expand_node_pool addr now q new_size)
              else q);
         free_head = mq_free_head q
     in if free_head = 0 then (0, q\<lparr>mq_exhaustion_count := mq_exhaustion_count q + 1\<rparr>)
        else
          let next_free = n_next (node_at q free_head);
              q = q\<lparr>mq_free_head := next_free, mq_free_nodes := mq_free_nodes q - 1\<rparr>
          in (free_head, upd_node free_head (\<lambda>n. n\<lparr>n_data := None, n_data_size := 0, n_message_type := 0, n_next := 0\<rparr>) q))"

definition ws_mpsc_queue_return_node :: "nat \<Rightarrow> ws_mpsc_queue \<Rightarrow> ws_mpsc_queue" where
  "ws_mpsc_queue_return_node p q =
    (if p = 0 then q
     else
       let q = upd_node p (\<lambda>n. n\<lparr>n_data := None, n_data_size := 0, n_message_type := 0\<rparr>) q;
           old_head = mq_free_head q
       in (set_next p old_head q)\<lparr>mq_free_head := p, mq_free_nodes := mq_free_nodes q + 1\<rparr>)"

section \<open>Queue operations\<close>

text \<open>The atomic steps of a producer.\<close>

definition enq_swap :: "nat \<Rightarrow> ws_mpsc_queue \<Rightarrow> nat \<times> ws_mpsc_queue" where
  "enq_swap p q = (mq_tail q, q\<lparr>mq_tail := p\<rparr>)"

definition enq_link :: "nat \<Rightarrow> nat \<Rightarrow> ws_mpsc_queue \<Rightarrow> ws_mpsc_queue" where
  "enq_link prev_tail p q =
    (let q = (if prev_tail \<noteq> 0 then set_next prev_tail p q else q\<lparr>mq_head := p\<rparr>)
     in q\<lparr>mq_messages_sent := mq_messages_sent q + 1\<rparr>)"

definition ws_mpsc_queue_enqueue :: "nat \<Rightarrow> ws_mpsc_queue \<Rightarrow> int \<times> ws_mpsc_queue" where
  "ws_mpsc_queue_enqueue p q =
    (if p = 0 then (-1, q)
     else
       let q = set_next p 0 q;
           (prev_tail, q) = enq_swap p q
       in (0, enq_link prev_tail p q))"

text \<open>
  The atomic steps of the consumer. A program counter holds the local variables \<open>head\<close> and
  \<open>next\<close>; \<open>DqSpin\<close> and \<open>DqRelink\<close> are the two waiting loops.
\<close>

datatype deq_pc =
    DqHead | DqNext nat | DqTail nat | DqSpin nat | DqAdvance nat nat
  | DqClear nat | DqCas nat | DqRelink nat | DqPublish nat nat | DqDone nat

fun deq_step :: "ws_mpsc_queue \<Rightarrow> deq_pc \<Rightarrow> ws_mpsc_queue \<times> deq_pc" where
  "deq_step q DqHead = (q, if mq_head q = 0 then DqDone 0 else DqNext (mq_head q))"
| "deq_step q (DqNext h) = (q, let n = n_next (node_at q h) in if n = 0 then DqTail h else DqAdvance h n)"
| "deq_step q (DqTail h) = (q, if h \<noteq> mq_tail q then DqSpin h else DqClear h)"
| "deq_step q (DqSpin h) = (q, let n = n_next (node_at q h) in if n = 0 then DqSpin h else DqAdvance h n)"
| "deq_step q (DqAdvance h n) = (q\<lparr>mq_head := n, mq_messages_received := mq_messages_received q + 1\<rparr>, DqDone h)"
| "deq_step q (DqClear h) = (q\<lparr>mq_head := 0\<rparr>, DqCas h)"
| "deq_step q (DqCas h) =
    (if mq_tail q = h then (q\<lparr>mq_tail := 0, mq_messages_received := mq_messages_received q + 1\<rparr>, DqDone h)
     else (q, DqRelink h))"
| "deq_step q (DqRelink h) = (q, let n = n_next (node_at q h) in if n = 0 then DqRelink h else DqPublish h n)"
| "deq_step q (DqPublish h n) = (q\<lparr>mq_head := n, mq_messages_received := mq_messages_received q + 1\<rparr>, DqDone h)"
| "deq_step q (DqDone h) = (q, DqDone h)"

text \<open>
  A call of the dequeue operation that no producer interferes with; \<open>None\<close> when a waiting loop
  would then never end. The result is the address of the node, 0 for an empty queue.
\<close>

fun deq_run :: "nat \<Rightarrow> ws_mpsc_queue \<Rightarrow> deq_pc \<Rightarrow> (nat \<times> ws_mpsc_queue) option" where
  "deq_run k q (DqDone h) = Some (h, q)"
| "deq_run 0 q pc = None"
| "deq_run (Suc k) q pc = (let (q, pc) = deq_step q pc in deq_run k q pc)"

definition ws_mpsc_queue_dequeue :: "ws_mpsc_queue \<Rightarrow> (nat \<times> ws_mpsc_queue) option" where
  "ws_mpsc_queue_dequeue q = deq_run 6 q DqHead"

text \<open>
  Destruction: the remaining messages are dequeued and freed, without returning their nodes. The
  result lists the message data freed; every node is dequeued at most once, which bounds the loop.
\<close>

fun destroy_loop :: "nat \<Rightarrow> ws_mpsc_queue \<Rightarrow> mpsc_data list option" where
  "destroy_loop 0 q = None"
| "destroy_loop (Suc k) q =
    (case ws_mpsc_queue_dequeue q of
       None \<Rightarrow> None
     | Some (p, q) \<Rightarrow>
         if p = 0 then Some []
         else
           case n_data (node_at q p) of
             None \<Rightarrow> destroy_loop k q
           | Some d \<Rightarrow> map_option ((#) d) (destroy_loop k (upd_node p (\<lambda>n. n\<lparr>n_data := None\<rparr>) q)))"

definition ws_mpsc_queue_destroy :: "ws_mpsc_queue \<Rightarrow> mpsc_data list option" where
  "ws_mpsc_queue_destroy q = destroy_loop (Suc (length (mq_nodes q))) q"

section \<open>Sending messages\<close>

definition WS_MSG_NEW_CONNECTION :: u32 where "WS_MSG_NEW_CONNECTION = 1"
definition WS_MSG_SEND_TEXT :: u32 where "WS_MSG_SEND_TEXT = 2"
definition WS_MSG_SEND_BINARY :: u32 where "WS_MSG_SEND_BINARY = 3"
definition WS_MSG_SEND_PING :: u32 where "WS_MSG_SEND_PING = 4"
definition WS_MSG_SEND_PONG :: u32 where "WS_MSG_SEND_PONG = 5"
definition WS_MSG_CLOSE_CONNECTION :: u32 where "WS_MSG_CLOSE_CONNECTION = 6"
definition WS_MSG_UPDATE_USER_DATA :: u32 where "WS_MSG_UPDATE_USER_DATA = 7"
definition WS_MSG_THREAD_SHUTDOWN :: u32 where "WS_MSG_THREAD_SHUTDOWN = 8"

lemmas msg_type_defs = WS_MSG_NEW_CONNECTION_def WS_MSG_SEND_TEXT_def WS_MSG_SEND_BINARY_def
  WS_MSG_SEND_PING_def WS_MSG_SEND_PONG_def WS_MSG_CLOSE_CONNECTION_def
  WS_MSG_UPDATE_USER_DATA_def WS_MSG_THREAD_SHUTDOWN_def

text \<open>
  The common shape of the senders: take a node, allocate the message (\<open>None\<close> for the sender that
  needs none), fill the node and enqueue it. \<open>addr\<close> and \<open>now\<close> only matter to an expansion of the
  pool.
\<close>

definition send_node ::
  "(nat \<Rightarrow> bool) \<Rightarrow> nat \<Rightarrow> int \<Rightarrow> ws_mpsc_queue \<Rightarrow> (nat \<times> mpsc_data) option \<Rightarrow> u32 \<Rightarrow> int \<times> ws_mpsc_queue" where
  "send_node malloc_ok addr now q msg ty =
    (case ws_mpsc_queue_get_node addr now q of
       (node, q) \<Rightarrow>
         if node = 0 then (-1, q)
         else
           case msg of
             None \<Rightarrow> ws_mpsc_queue_enqueue node
               (upd_node node (\<lambda>n. n\<lparr>n_data := None, n_data_size := 0, n_message_type := ty\<rparr>) q)
           | Some (msg_size, d) \<Rightarrow>
               if \<not> malloc_ok msg_size then (-1, ws_mpsc_queue_return_node node q)
               else ws_mpsc_queue_enqueue node
                 (upd_node node (\<lambda>n. n\<lparr>n_data := Some d, n_data_size := msg_size, n_message_type := ty\<rparr>) q))"

definition ws_mpsc_send_new_connection ::
  "(nat \<Rightarrow> bool) \<Rightarrow> nat \<Rightarrow> int \<Rightarrow> ws_mpsc_queue \<Rightarrow> int \<Rightarrow> bytes \<Rightarrow> int \<times> ws_mpsc_queue" where
  "ws_mpsc_send_new_connection malloc_ok addr now q fd client_addr =
    (if fd < 0 then (-1, q)
     else send_node malloc_ok addr now q (Some (144, NewConnection fd client_addr)) WS_MSG_NEW_CONNECTION)"

text \<open>\<open>conn\<close> is the slot of the connection (\<open>None\<close> for NULL), \<open>data\<close> is \<open>None\<close> for a NULL pointer.\<close>

definition ws_mpsc_send_text_message ::
  "(nat \<Rightarrow> bool) \<Rightarrow> nat \<Rightarrow> int \<Rightarrow> ws_mpsc_queue \<Rightarrow> int \<Rightarrow> nat option \<Rightarrow> u32 \<Rightarrow> bytes option \<Rightarrow> nat \<Rightarrow> int \<times> ws_mpsc_queue" where
  "ws_mpsc_send_text_message malloc_ok addr now q fd conn generation data len =
    (if data = None \<and> len > 0 then (-1, q)
     else send_node malloc_ok addr now q
       (Some (32 + len, SendData fd (map_option (\<lambda>c. (c, generation)) conn)
                          (if len > 0 then take len (the data) else []))) WS_MSG_SEND_TEXT)"

definition ws_mpsc_send_binary_message ::
  "(nat \<Rightarrow> bool) \<Rightarrow> nat \<Rightarrow> int \<Rightarrow> ws_mpsc_queue \<Rightarrow> int \<Rightarrow> nat option \<Rightarrow> u32 \<Rightarrow> bytes option \<Rightarrow> nat \<Rightarrow> int \<times> ws_mpsc_queue" where
  "ws_mpsc_send_binary_message malloc_ok addr now q fd conn generation data len =
    (if data = None \<and> len > 0 then (-1, q)
     else send_node malloc_ok addr now q
       (Some (32 + len, SendData fd (map_option (\<lambda>c. (c, generation)) conn)
                          (if len > 0 then take len (the data) else []))) WS_MSG_SEND_BINARY)"

definition ws_mpsc_send_close_message ::
  "(nat \<Rightarrow> bool) \<Rightarrow> nat \<Rightarrow> int \<Rightarrow> ws_mpsc_queue \<Rightarrow> int \<Rightarrow> u16 \<Rightarrow> bytes option \<Rightarrow> int \<times> ws_mpsc_queue" where
  "ws_mpsc_send_close_message malloc_ok addr now q fd code reason =
    (let reason = (case reason of Some r \<Rightarrow> r | None \<Rightarrow> [])
     in send_node malloc_ok addr now q (Some (16 + length reason + 1, CloseData fd code reason)) WS_MSG_CLOSE_CONNECTION)"

text \<open>The owner and generation fields of a queued ping or pong are not set, and never read.\<close>

definition ws_mpsc_send_ping_message ::
  "(nat \<Rightarrow> bool) \<Rightarrow> nat \<Rightarrow> int \<Rightarrow> ws_mpsc_queue \<Rightarrow> int \<Rightarrow> bytes \<Rightarrow> int \<times> ws_mpsc_queue" where
  "ws_mpsc_send_ping_message malloc_ok addr now q fd data =
    send_node malloc_ok addr now q (Some (32 + length data, SendData fd None data)) WS_MSG_SEND_PING"

definition ws_mpsc_send_pong_message ::
  "(nat \<Rightarrow> bool) \<Rightarrow> nat \<Rightarrow> int \<Rightarrow> ws_mpsc_queue \<Rightarrow> int \<Rightarrow> bytes \<Rightarrow> int \<times> ws_mpsc_queue" where
  "ws_mpsc_send_pong_message malloc_ok addr now q fd data =
    send_node malloc_ok addr now q (Some (32 + length data, SendData fd None data)) WS_MSG_SEND_PONG"

definition ws_mpsc_update_user_data ::
  "(nat \<Rightarrow> bool) \<Rightarrow> nat \<Rightarrow> int \<Rightarrow> ws_mpsc_queue \<Rightarrow> int \<Rightarrow> user_ptr \<Rightarrow> int \<times> ws_mpsc_queue" where
  "ws_mpsc_update_user_data malloc_ok addr now q fd user_data =
    send_node malloc_ok addr now q (Some (16, UserData fd user_data)) WS_MSG_UPDATE_USER_DATA"

definition ws_mpsc_send_shutdown_signal :: "nat \<Rightarrow> int \<Rightarrow> ws_mpsc_queue \<Rightarrow> int \<times> ws_mpsc_queue" where
  "ws_mpsc_send_shutdown_signal addr now q = send_node (\<lambda>_. True) addr now q None WS_MSG_THREAD_SHUTDOWN"

section \<open>Processing messages\<close>

text \<open>
  The processor's callbacks work on a context and may themselves send to the queue. A callback
  that is not registered is \<open>None\<close>.
\<close>

type_synonym 'c callback = "'c \<Rightarrow> ws_mpsc_queue \<Rightarrow> int \<times> 'c \<times> ws_mpsc_queue"

record 'c ws_mpsc_message_processor =
  mp_new_connection :: "(int \<Rightarrow> bytes \<Rightarrow> 'c callback) option"
  mp_text_message :: "(int \<Rightarrow> bytes \<Rightarrow> 'c callback) option"
  mp_binary_message :: "(int \<Rightarrow> bytes \<Rightarrow> 'c callback) option"
  mp_ping_message :: "(int \<Rightarrow> bytes \<Rightarrow> 'c callback) option"
  mp_pong_message :: "(int \<Rightarrow> bytes \<Rightarrow> 'c callback) option"
  mp_close_message :: "(int \<Rightarrow> u16 \<Rightarrow> bytes option \<Rightarrow> 'c callback) option"
  mp_user_data_update :: "(int \<Rightarrow> user_ptr \<Rightarrow> 'c callback) option"
  mp_shutdown_signal :: "'c callback option"

definition call :: "'c callback option \<Rightarrow> 'c \<Rightarrow> ws_mpsc_queue \<Rightarrow> 'c \<times> ws_mpsc_queue" where
  "call cb c q = (case cb of None \<Rightarrow> (c, q) | Some f \<Rightarrow> snd (f c q))"

text \<open>
  One message. A queued send is dropped when the connection slot has been recycled or is no
  longer open; \<open>slot\<close> reads a connection slot of the context.
\<close>

definition deliverable :: "('c \<Rightarrow> nat \<Rightarrow> ws_connection) \<Rightarrow> 'c \<Rightarrow> (nat \<times> u32) option \<Rightarrow> bool" where
  "deliverable slot c owner \<longleftrightarrow>
    (case owner of None \<Rightarrow> False
     | Some (i, generation) \<Rightarrow> c_generation (slot c i) = generation \<and> c_state (slot c i) = WS_STATE_OPEN)"

definition process_message ::
  "'c ws_mpsc_message_processor \<Rightarrow> ('c \<Rightarrow> nat \<Rightarrow> ws_connection) \<Rightarrow> ws_mpsc_node \<Rightarrow> 'c \<Rightarrow> ws_mpsc_queue \<Rightarrow> 'c \<times> ws_mpsc_queue" where
  "process_message mp slot node c q =
    (let ty = n_message_type node
     in case n_data node of
          Some (NewConnection fd client_addr) \<Rightarrow>
            (if ty = WS_MSG_NEW_CONNECTION then call (map_option (\<lambda>f. f fd client_addr) (mp_new_connection mp)) c q
             else (c, q))
        | Some (SendData fd owner data) \<Rightarrow>
            (if ty = WS_MSG_SEND_TEXT then
               (if deliverable slot c owner then call (map_option (\<lambda>f. f fd data) (mp_text_message mp)) c q else (c, q))
             else if ty = WS_MSG_SEND_BINARY then
               (if deliverable slot c owner then call (map_option (\<lambda>f. f fd data) (mp_binary_message mp)) c q else (c, q))
             else if ty = WS_MSG_SEND_PING then call (map_option (\<lambda>f. f fd data) (mp_ping_message mp)) c q
             else if ty = WS_MSG_SEND_PONG then call (map_option (\<lambda>f. f fd data) (mp_pong_message mp)) c q
             else (c, q))
        | Some (CloseData fd code reason) \<Rightarrow>
            (if ty = WS_MSG_CLOSE_CONNECTION then
               call (map_option (\<lambda>f. f fd code (if reason \<noteq> [] then Some reason else None)) (mp_close_message mp)) c q
             else (c, q))
        | Some (UserData fd user_data) \<Rightarrow>
            (if ty = WS_MSG_UPDATE_USER_DATA then call (map_option (\<lambda>f. f fd user_data) (mp_user_data_update mp)) c q
             else (c, q))
        | None \<Rightarrow>
            (if ty = WS_MSG_THREAD_SHUTDOWN then call (mp_shutdown_signal mp) c q else (c, q)))"

text \<open>
  The processing loop: at most \<open>k\<close> more messages, \<open>processed\<close> so far. \<open>None\<close> when the dequeue
  does not return.
\<close>

fun process_loop ::
  "'c ws_mpsc_message_processor \<Rightarrow> ('c \<Rightarrow> nat \<Rightarrow> ws_connection) \<Rightarrow> nat \<Rightarrow> int \<Rightarrow> 'c \<Rightarrow> ws_mpsc_queue \<Rightarrow>
   (int \<times> 'c \<times> ws_mpsc_queue) option" where
  "process_loop mp slot 0 processed c q = Some (processed, c, q)"
| "process_loop mp slot (Suc k) processed c q =
    (case ws_mpsc_queue_dequeue q of
       None \<Rightarrow> None
     | Some (node, q) \<Rightarrow>
         if node = 0 then Some (processed, c, q)
         else
           let ty = n_message_type (node_at q node);
               (c, q) = process_message mp slot (node_at q node) c q;
               q = ws_mpsc_queue_return_node node q
           in if ty = WS_MSG_THREAD_SHUTDOWN then Some (processed + 1, c, q)
              else process_loop mp slot k (processed + 1) c q)"

definition ws_mpsc_process_messages ::
  "'c ws_mpsc_message_processor \<Rightarrow> ('c \<Rightarrow> nat \<Rightarrow> ws_connection) \<Rightarrow> int \<Rightarrow> 'c \<Rightarrow> ws_mpsc_queue \<Rightarrow>
   (int \<times> 'c \<times> ws_mpsc_queue) option" where
  "ws_mpsc_process_messages mp slot max_messages c q = process_loop mp slot (nat max_messages) 0 c q"

section \<open>Statistics\<close>

record ws_mpsc_stats =
  ms_messages_sent :: u64
  ms_messages_received :: u64
  ms_free_nodes :: u32
  ms_queue_depth :: u32
  ms_used_nodes :: u32
  ms_current_pool_size :: u32
  ms_max_pool_size :: u32
  ms_total_expansions :: u64
  ms_exhaustion_count :: u32

text \<open>The utilisation is kept as the number of used nodes; the source divides it by the pool size.\<close>

definition ws_mpsc_get_stats :: "ws_mpsc_queue \<Rightarrow> ws_mpsc_stats" where
  "ws_mpsc_get_stats q =
    \<lparr>ms_messages_sent = mq_messages_sent q, ms_messages_received = mq_messages_received q,
     ms_free_nodes = ucast (mq_free_nodes q),
     ms_queue_depth = ucast (mq_messages_sent q - mq_messages_received q),
     ms_used_nodes = mq_node_pool_size q - ucast (mq_free_nodes q),
     ms_current_pool_size = mq_node_pool_size q, ms_max_pool_size = mq_max_pool_size q,
     ms_total_expansions = mq_total_expansions q,
     ms_exhaustion_count = ucast (mq_exhaustion_count q)\<rparr>"

end
