(* ===== verification/Fifo_Queue.thy ===== *)
theory Fifo_Queue
  imports Portico_Prelude
begin

text \<open>
  The interface of a message queue, as the event threads use it: what a sender and a receiver may
  rely on, whatever the queue's representation.
\<close>

datatype 'm queue_op = Put 'm | Take

text \<open>
  A sequence of operations: the messages accepted, the messages received, and the queue at the
  end. \<open>None\<close> when a receive does not return.
\<close>

primrec queue_run :: "('m \<Rightarrow> 'q \<Rightarrow> bool \<times> 'q) \<Rightarrow> ('q \<Rightarrow> ('m option \<times> 'q) option) \<Rightarrow>
    'm queue_op list \<Rightarrow> 'q \<Rightarrow> ('m list \<times> 'm list \<times> 'q) option" where
  "queue_run put get [] q = Some ([], [], q)"
| "queue_run put get (op # ops) q =
    (case op of
       Put m \<Rightarrow>
         (case put m q of
            (ok, q') \<Rightarrow> map_option (\<lambda>(sent, got, q). (if ok then m # sent else sent, got, q)) (queue_run put get ops q'))
     | Take \<Rightarrow>
         (case get q of
            None \<Rightarrow> None
          | Some (r, q') \<Rightarrow>
              map_option (\<lambda>(sent, got, q). (sent, (case r of None \<Rightarrow> got | Some m \<Rightarrow> m # got), q)) (queue_run put get ops q')))"

locale fifo_queue =
  fixes rep :: "'q \<Rightarrow> 'm list \<Rightarrow> bool"
    and put :: "'m \<Rightarrow> 'q \<Rightarrow> bool \<times> 'q"
    and get :: "'q \<Rightarrow> ('m option \<times> 'q) option"
  assumes put_accepted: "rep q ms \<Longrightarrow> put m q = (True, q') \<Longrightarrow> rep q' (ms @ [m])"
    and put_refused: "rep q ms \<Longrightarrow> put m q = (False, q') \<Longrightarrow> rep q' ms"
    and get_empty: "rep q [] \<Longrightarrow> \<exists>q'. get q = Some (None, q') \<and> rep q' []"
    and get_first: "rep q (m # ms) \<Longrightarrow> \<exists>q'. get q = Some (Some m, q') \<and> rep q' ms"
begin

text \<open>Nothing accepted is lost, duplicated or reordered, and every receive returns.\<close>

lemma run_fifo:
  assumes "rep q ms"
  shows "\<exists>sent got q' rest. queue_run put get ops q = Some (sent, got, q') \<and>
    ms @ sent = got @ rest \<and> rep q' rest"
  using assms
proof (induction ops arbitrary: q ms)
  case Nil
  thus ?case by auto
next
  case (Cons op ops)
  show ?case
  proof (cases op)
    case (Put m)
    obtain ok q1 where p: "put m q = (ok, q1)" by fastforce
    have "rep q1 (if ok then ms @ [m] else ms)"
      using put_accepted [OF Cons.prems] put_refused [OF Cons.prems] p by (cases ok) auto
    from Cons.IH [OF this] show ?thesis using Put p by (auto split: if_splits)
  next
    case Take
    show ?thesis
    proof (cases ms)
      case Nil
      thus ?thesis using get_empty [of q] Cons.prems Cons.IH [of _ "[]"] Take by fastforce
    next
      case (Cons m ms')
      thus ?thesis using get_first [of q m ms'] Cons.prems Cons.IH [of _ ms'] Take by fastforce
    qed
  qed
qed

end

end
