(* ===== verification/Ws_Mpsc_Fifo.thy ===== *)
theory Ws_Mpsc_Fifo
  imports Ws_Mpsc Fifo_Queue
begin

text \<open>
  The message queue used by one thread at a time: the nodes of the pool are partitioned into the
  queue, the free list and the nodes in use, and the queue is a FIFO.
\<close>

section \<open>Representation\<close>

abbreviation nxt :: "ws_mpsc_queue \<Rightarrow> nat \<Rightarrow> nat" where
  "nxt q \<equiv> (\<lambda>p. n_next (node_at q p))"

definition pool_range :: "ws_mpsc_queue \<Rightarrow> nat set" where
  "pool_range q = {mq_pool q..<mq_pool q + length (mq_nodes q)}"

text \<open>The nodes from \<open>h\<close> along the \<open>next\<close> fields up to NULL.\<close>

fun node_chain :: "(nat \<Rightarrow> nat) \<Rightarrow> nat \<Rightarrow> nat list \<Rightarrow> bool" where
  "node_chain nx h [] = (h = 0)"
| "node_chain nx h (p # ps) = (h = p \<and> p \<noteq> 0 \<and> node_chain nx (nx p) ps)"

type_synonym mpsc_message = "u32 \<times> (nat \<times> mpsc_data) option"

definition message_at :: "ws_mpsc_queue \<Rightarrow> nat \<Rightarrow> mpsc_message" where
  "message_at q p = (n_message_type (node_at q p), map_option (\<lambda>d. (n_data_size (node_at q p), d)) (n_data (node_at q p)))"

text \<open>
  The queued nodes \<open>qs\<close>, the free nodes \<open>fs\<close> and the nodes \<open>hs\<close> in the hands of a caller
  partition the pool.
\<close>

definition mq_rep :: "ws_mpsc_queue \<Rightarrow> nat list \<Rightarrow> nat list \<Rightarrow> nat list \<Rightarrow> bool" where
  "mq_rep q qs fs hs \<longleftrightarrow>
    0 < mq_pool q \<and> length (mq_nodes q) = unat (mq_node_pool_size q) \<and>
    distinct (qs @ fs @ hs) \<and> set (qs @ fs @ hs) = pool_range q \<and>
    node_chain (nxt q) (mq_head q) qs \<and> mq_tail q = (if qs = [] then 0 else last qs) \<and>
    node_chain (nxt q) (mq_free_head q) fs \<and> unat (mq_free_nodes q) = length fs"

lemma node_at_upd:
  assumes "p \<in> pool_range q" "p' \<in> pool_range q"
  shows "node_at (upd_node p f q) p' = (if p' = p then f (node_at q p) else node_at q p')"
  using assms by (auto simp: node_at_def upd_node_def pool_range_def nth_list_update)

lemma upd_node_simps [simp]:
  "mq_head (upd_node p f q) = mq_head q" "mq_tail (upd_node p f q) = mq_tail q"
  "mq_pool (upd_node p f q) = mq_pool q" "mq_free_head (upd_node p f q) = mq_free_head q"
  "mq_free_nodes (upd_node p f q) = mq_free_nodes q" "length (mq_nodes (upd_node p f q)) = length (mq_nodes q)"
  "mq_node_pool_size (upd_node p f q) = mq_node_pool_size q"
  "pool_range (upd_node p f q) = pool_range q"
  by (simp_all add: upd_node_def pool_range_def)

lemma node_at_fields [simp]:
  "node_at (q\<lparr>mq_head := x\<rparr>) p = node_at q p" "node_at (q\<lparr>mq_tail := x\<rparr>) p = node_at q p"
  "node_at (q\<lparr>mq_free_head := x\<rparr>) p = node_at q p" "node_at (q\<lparr>mq_free_nodes := c\<rparr>) p = node_at q p"
  "node_at (q\<lparr>mq_messages_sent := c\<rparr>) p = node_at q p" "node_at (q\<lparr>mq_messages_received := c\<rparr>) p = node_at q p"
  "node_at (q\<lparr>mq_exhaustion_count := c\<rparr>) p = node_at q p"
  by (simp_all add: node_at_def)

lemma pool_range_fields [simp]:
  "pool_range (q\<lparr>mq_head := x\<rparr>) = pool_range q" "pool_range (q\<lparr>mq_tail := x\<rparr>) = pool_range q"
  "pool_range (q\<lparr>mq_free_head := x\<rparr>) = pool_range q" "pool_range (q\<lparr>mq_free_nodes := c\<rparr>) = pool_range q"
  "pool_range (q\<lparr>mq_messages_sent := c\<rparr>) = pool_range q" "pool_range (q\<lparr>mq_messages_received := c\<rparr>) = pool_range q"
  "pool_range (q\<lparr>mq_exhaustion_count := c\<rparr>) = pool_range q"
  by (simp_all add: pool_range_def)

lemma node_chain_cong:
  "\<forall>p \<in> set ps. nx p = nx' p \<Longrightarrow> node_chain nx h ps = node_chain nx' h ps"
  by (induction ps arbitrary: h) auto

lemma node_chain_upd: "p \<notin> set ps \<Longrightarrow> node_chain (nx(p := v)) h ps = node_chain nx h ps"
  by (rule node_chain_cong) auto

lemma nxt_upd:
  assumes "p \<in> pool_range q" "set ps \<subseteq> pool_range q" "p \<notin> set ps"
  shows "node_chain (nxt (upd_node p f q)) h ps = node_chain (nxt q) h ps"
  using assms by (intro node_chain_cong) (auto simp: node_at_upd)

text \<open>Linking a node behind the last one.\<close>

lemma node_chain_snoc:
  assumes "node_chain nx h ps" "ps \<noteq> []" "distinct (ps @ [p])" "p \<noteq> 0" "nx p = 0"
  shows "node_chain (nx(last ps := p)) h (ps @ [p])"
  using assms
proof (induction ps arbitrary: h)
  case Nil
  thus ?case by simp
next
  case (Cons a ps)
  show ?case
  proof (cases "ps = []")
    case True
    thus ?thesis using Cons.prems by auto
  next
    case False
    hence "last ps \<noteq> a" using Cons.prems(3) by auto
    thus ?thesis using Cons False by simp
  qed
qed

section \<open>Operations on the representation\<close>

lemma create_rep:
  assumes "ws_mpsc_queue_create True addr sz = Some q"
  shows "\<exists>fs. mq_rep q [] fs []"
proof -
  let ?n = "unat (mq_node_pool_size q)"
  have a: "0 < addr" "mq_pool q = addr" "mq_free_head q = addr" "mq_head q = 0" "mq_tail q = 0"
    "mq_nodes q = map (\<lambda>i. zero_node\<lparr>n_next := (if i < ?n - 1 then addr + (i + 1) else 0)\<rparr>) [0..<?n]"
    "mq_free_nodes q = ucast (mq_node_pool_size q)" "mq_node_pool_size q \<noteq> 0"
    using assms by (auto simp: ws_mpsc_queue_create_def Let_def WS_MPSC_DEFAULT_NODE_POOL_SIZE_def split: if_splits)
  have "0 < ?n" using a(8) by (simp add: unat_gt_0)
  have nx: "nxt q p = (if p < addr + ?n - 1 then p + 1 else 0)" if "addr \<le> p" "p < addr + ?n" for p
    using that a(2,6) by (auto simp: node_at_def)
  have "node_chain (nxt q) (if k < addr + ?n then k else 0) [k..<addr + ?n]" if "addr \<le> k" "k \<le> addr + ?n" for k
    using that
  proof (induction "addr + ?n - k" arbitrary: k)
    case 0
    thus ?case by simp
  next
    case (Suc d)
    hence k: "k < addr + ?n" by simp
    have "node_chain (nxt q) (if Suc k < addr + ?n then Suc k else 0) [Suc k..<addr + ?n]"
      using Suc k by (intro Suc.hyps) auto
    moreover have "nxt q k = (if Suc k < addr + ?n then Suc k else 0)" using nx [of k] k Suc.prems by auto
    ultimately show ?case using k a(1) Suc.prems by (simp add: upt_rec [of k])
  qed
  from this [of addr] have "node_chain (nxt q) addr [addr..<addr + ?n]" using \<open>0 < ?n\<close> by simp
  moreover have "?n < 2 ^ LENGTH(32)" by (rule unsigned_less)
  hence "?n < 2 ^ 64" by simp
  ultimately have "mq_rep q [] [addr..<addr + ?n] []"
    using a by (simp add: mq_rep_def pool_range_def unsigned_ucast_eq take_bit_nat_eq_self)
  thus ?thesis by blast
qed


lemma mq_rep_range:
  assumes "mq_rep q qs fs hs" "p \<in> set (qs @ fs @ hs)"
  shows "p \<in> pool_range q" "p \<noteq> 0"
  using assms by (auto simp: mq_rep_def pool_range_def)

lemma unat_u64_minus_1: "unat (x :: u64) = Suc n \<Longrightarrow> unat (x - 1) = n"
  by (simp add: unat_minus_1)

lemma get_node_rep:
  assumes "mq_rep q qs fs hs" "ws_mpsc_queue_get_node addr now q = (p, q')"
  shows "case fs of [] \<Rightarrow> p = 0 \<and> mq_rep q' qs [] hs \<and> (\<forall>r. node_at q' r = node_at q r)
    | f # fs' \<Rightarrow> p = f \<and> mq_rep q' qs fs' (p # hs) \<and> (\<forall>r \<in> set (qs @ hs). node_at q' r = node_at q r)"
proof (cases fs)
  case Nil
  thus ?thesis using assms
    by (auto simp: ws_mpsc_queue_get_node_def should_expand_pool_def mq_rep_def)
next
  case (Cons f fs')
  have in_pool: "f \<in> pool_range q" "f \<noteq> 0" "set (qs @ fs' @ hs) \<subseteq> pool_range q"
    using assms(1) Cons mq_rep_range [OF assms(1)] by auto
  have rep: "f = mq_free_head q" "node_chain (nxt q) (nxt q f) fs'" "distinct (qs @ f # fs' @ hs)"
    "unat (mq_free_nodes q) = Suc (length fs')"
    using assms(1) Cons by (auto simp: mq_rep_def)
  let ?q = "q\<lparr>mq_free_head := nxt q f, mq_free_nodes := mq_free_nodes q - 1\<rparr>"
  let ?u = "\<lambda>n. n\<lparr>n_data := None, n_data_size := 0, n_message_type := 0, n_next := 0\<rparr>"
  have q': "p = f" "q' = upd_node f ?u ?q"
    using assms(2) rep(1) in_pool(2) by (auto simp: ws_mpsc_queue_get_node_def should_expand_pool_def Let_def)
  have "node_chain (nxt q') h ps = node_chain (nxt q) h ps" if "set ps \<subseteq> set (qs @ fs' @ hs)" for h ps
    using nxt_upd [of f ?q ps ?u h] in_pool that rep(3) q'(2) by fastforce
  moreover have "\<forall>r \<in> set (qs @ hs). node_at q' r = node_at q r"
    using in_pool rep(3) q'(2) by (auto simp: node_at_upd subset_iff)
  ultimately show ?thesis
    using assms(1) Cons q' rep unat_u64_minus_1 [OF rep(4)] by (auto simp: mq_rep_def)
qed

lemma return_node_rep:
  assumes "mq_rep q qs fs (p # hs)"
  shows "mq_rep (ws_mpsc_queue_return_node p q) qs (p # fs) hs \<and>
    (\<forall>r \<in> set (qs @ hs). node_at (ws_mpsc_queue_return_node p q) r = node_at q r)"
proof -
  have in_pool: "p \<in> pool_range q" "p \<noteq> 0" "set (qs @ fs @ hs) \<subseteq> pool_range q"
    using mq_rep_range [OF assms] by auto
  let ?q1 = "upd_node p (\<lambda>n. n\<lparr>n_data := None, n_data_size := 0, n_message_type := 0\<rparr>) q"
  let ?q2 = "set_next p (mq_free_head q) ?q1"
  define q' where "q' = ws_mpsc_queue_return_node p q"
  have q': "q' = ?q2\<lparr>mq_free_head := p, mq_free_nodes := mq_free_nodes q + 1\<rparr>"
    using in_pool(2) by (simp add: ws_mpsc_queue_return_node_def Let_def q'_def)
  have d: "distinct (qs @ fs @ p # hs)" "node_chain (nxt q) (mq_free_head q) fs"
    "unat (mq_free_nodes q) = length fs" using assms by (auto simp: mq_rep_def)
  have nodes: "node_at q' r = node_at q r" if "r \<in> set (qs @ fs @ hs)" for r
    using that in_pool d(1) by (auto simp: q' node_at_upd)
  have "length (qs @ fs @ p # hs) = card (pool_range q)"
    using assms distinct_card [OF d(1)] by (simp add: mq_rep_def)
  also have "... < 2 ^ LENGTH(32)" using assms unsigned_less [of "mq_node_pool_size q"] by (simp add: mq_rep_def pool_range_def)
  finally have "length fs + 1 < 2 ^ 64" by simp
  hence "unat (mq_free_nodes q) + unat (1 :: u64) < 2 ^ LENGTH(64)" using d(3) by simp
  hence "unat (mq_free_nodes q + 1) = length fs + 1" using d(3) unat_add_lem [THEN iffD1] by fastforce
  moreover have "nxt q' p = mq_free_head q" using in_pool by (simp add: q' node_at_upd)
  moreover have "node_chain (nxt q') h ps = node_chain (nxt q) h ps" if "set ps \<subseteq> set (qs @ fs @ hs)" for h ps
    using nodes that by (intro node_chain_cong) auto
  ultimately have "mq_rep q' qs (p # fs) hs" using assms in_pool d by (auto simp: mq_rep_def q')
  thus ?thesis using nodes by (auto simp: q'_def)
qed

lemma enqueue_rep:
  assumes "mq_rep q qs fs (p # hs)" "ws_mpsc_queue_enqueue p q = (r, q')"
  shows "r = 0 \<and> mq_rep q' (qs @ [p]) fs hs \<and> (\<forall>x \<in> set (qs @ [p]). message_at q' x = message_at q x)"
proof -
  have in_pool: "p \<in> pool_range q" "p \<noteq> 0" "set (qs @ fs @ hs) \<subseteq> pool_range q"
    using mq_rep_range [OF assms(1)] by auto
  let ?q1 = "set_next p 0 q"
  have d: "distinct (qs @ fs @ p # hs)" "node_chain (nxt q) (mq_head q) qs" using assms(1) by (auto simp: mq_rep_def)
  have n1: "nxt ?q1 x = ((nxt q)(p := 0)) x" if "x \<in> pool_range q" for x using that in_pool by (simp add: node_at_upd)
  have c1: "node_chain (nxt ?q1) h ps = node_chain (nxt q) h ps" if "set ps \<subseteq> set (qs @ fs @ hs)" for h ps
    using that in_pool d by (intro nxt_upd) auto
  show ?thesis
  proof (cases "qs = []")
    case True
    hence q': "r = 0" "q' = ?q1\<lparr>mq_tail := p, mq_head := p, mq_messages_sent := mq_messages_sent q + 1\<rparr>"
      using assms in_pool(2) by (auto simp: ws_mpsc_queue_enqueue_def enq_swap_def enq_link_def Let_def mq_rep_def upd_node_def)
    moreover have "message_at q' p = message_at q p" using in_pool by (simp add: q'(2) message_at_def node_at_upd)
    ultimately show ?thesis using True assms(1) in_pool n1 [of p] c1 [of fs] by (auto simp: mq_rep_def)
  next
    case False
    have l: "last qs \<in> set qs" "last qs \<in> pool_range q" "last qs \<noteq> 0" "last qs \<noteq> p"
      using False in_pool d mq_rep_range [OF assms(1), of "last qs"] by auto
    let ?q2 = "set_next (last qs) p ?q1"
    have q': "r = 0" "q' = ?q2\<lparr>mq_tail := p, mq_messages_sent := mq_messages_sent q + 1\<rparr>"
      using assms in_pool(2) l(3) False
      by (auto simp: ws_mpsc_queue_enqueue_def enq_swap_def enq_link_def Let_def mq_rep_def upd_node_def node_at_def)
    have n2: "nxt q' x = ((nxt ?q1)(last qs := p)) x" if "x \<in> pool_range q" for x
      using that l in_pool by (simp add: q' node_at_upd)
    have "node_chain ((nxt ?q1)(last qs := p)) (mq_head q) (qs @ [p])"
      using c1 [of qs] d False in_pool n1 [of p] by (intro node_chain_snoc) auto
    moreover have "node_chain (nxt q') (mq_head q) (qs @ [p]) =
        node_chain ((nxt ?q1)(last qs := p)) (mq_head q) (qs @ [p])"
      using n2 in_pool by (intro node_chain_cong) auto
    moreover have "node_chain (nxt q') h fs = node_chain (nxt q) h fs" for h
    proof -
      have "nxt q' x = nxt ?q1 x" if "x \<in> set fs" for x
      proof -
        have "x \<noteq> last qs" "x \<in> pool_range q" using that l(1) d(1) in_pool(3) by auto
        thus ?thesis using n2 [of x] by simp
      qed
      hence "node_chain (nxt q') h fs = node_chain (nxt ?q1) h fs" by (intro node_chain_cong) auto
      thus ?thesis using c1 [of fs h] by auto
    qed
    moreover have "\<forall>x \<in> set (qs @ [p]). message_at q' x = message_at q x"
      using in_pool l by (auto simp: q'(2) message_at_def node_at_upd subset_iff)
    ultimately show ?thesis using assms(1) q' by (auto simp: mq_rep_def)
  qed
qed

lemma dequeue_rep:
  assumes "mq_rep q qs fs hs"
  shows "\<exists>q'. ws_mpsc_queue_dequeue q = Some (case qs of [] \<Rightarrow> 0 | p # _ \<Rightarrow> p, q') \<and>
    (\<forall>r. node_at q' r = node_at q r) \<and>
    (case qs of [] \<Rightarrow> mq_rep q' [] fs hs | p # ps \<Rightarrow> mq_rep q' ps fs (p # hs))"
proof -
  have k: "(6 :: nat) = Suc (Suc (Suc (Suc (Suc (Suc 0)))))" by simp
  consider "qs = []" | p where "qs = [p]" | p n ps where "qs = p # n # ps"
    by (metis list.exhaust)
  thus ?thesis
  proof cases
    case 1
    thus ?thesis using assms by (auto simp: ws_mpsc_queue_dequeue_def k mq_rep_def)
  next
    case 2
    thus ?thesis using assms by (auto simp: ws_mpsc_queue_dequeue_def k mq_rep_def)
  next
    case 3
    thus ?thesis using assms by (auto simp: ws_mpsc_queue_dequeue_def k mq_rep_def)
  qed
qed

section \<open>The queue is a FIFO\<close>

definition mpsc_holds :: "ws_mpsc_queue \<Rightarrow> mpsc_message list \<Rightarrow> bool" where
  "mpsc_holds q ms \<longleftrightarrow> (\<exists>qs fs. mq_rep q qs fs [] \<and> map (message_at q) qs = ms)"

definition mpsc_put :: "(nat \<Rightarrow> bool) \<Rightarrow> mpsc_message \<Rightarrow> ws_mpsc_queue \<Rightarrow> bool \<times> ws_mpsc_queue" where
  "mpsc_put malloc_ok m q = (let (r, q) = send_node malloc_ok 0 0 q (snd m) (fst m) in (r = 0, q))"

definition mpsc_get :: "ws_mpsc_queue \<Rightarrow> (mpsc_message option \<times> ws_mpsc_queue) option" where
  "mpsc_get q =
    (case ws_mpsc_queue_dequeue q of
       None \<Rightarrow> None
     | Some (p, q) \<Rightarrow> if p = 0 then Some (None, q)
                      else Some (Some (message_at q p), ws_mpsc_queue_return_node p q))"

lemma upd_held_rep:
  assumes "mq_rep q qs fs (p # hs)" "\<forall>n. n_next (f n) = n_next n"
  shows "mq_rep (upd_node p f q) qs fs (p # hs) \<and> (\<forall>x \<in> set (qs @ fs @ hs). node_at (upd_node p f q) x = node_at q x) \<and>
    node_at (upd_node p f q) p = f (node_at q p)"
proof -
  have in_pool: "p \<in> pool_range q" "set (qs @ fs @ hs) \<subseteq> pool_range q" "p \<notin> set (qs @ fs @ hs)"
    using mq_rep_range [OF assms(1)] assms(1) by (auto simp: mq_rep_def)
  have "node_chain (nxt (upd_node p f q)) h ps = node_chain (nxt q) h ps" if "set ps \<subseteq> set (qs @ fs @ hs)" for h ps
    using that in_pool by (intro nxt_upd) auto
  thus ?thesis using assms(1) in_pool by (auto simp: mq_rep_def node_at_upd subset_iff)
qed

lemma send_node_rep:
  assumes "mq_rep q qs fs hs" "send_node malloc_ok addr now q msg ty = (r, q')"
  shows "(if fs \<noteq> [] \<and> (\<forall>sz d. msg = Some (sz, d) \<longrightarrow> malloc_ok sz) then
      r = 0 \<and> mq_rep q' (qs @ [hd fs]) (tl fs) hs \<and> map (message_at q') qs = map (message_at q) qs \<and>
      message_at q' (hd fs) = (ty, msg)
    else r = -1 \<and> mq_rep q' qs fs hs \<and> map (message_at q') qs = map (message_at q) qs)"
proof -
  obtain p q1 where g: "ws_mpsc_queue_get_node addr now q = (p, q1)" by fastforce
  show ?thesis
  proof (cases fs)
    case Nil
    thus ?thesis using get_node_rep [OF assms(1) g] assms(2) g by (auto simp: send_node_def message_at_def)
  next
    case (Cons f fs')
    have g1: "p = f" "mq_rep q1 qs fs' (f # hs)" "\<forall>r \<in> set (qs @ hs). node_at q1 r = node_at q r"
      using get_node_rep [OF assms(1) g] Cons by auto
    have "f \<noteq> 0" using mq_rep_range [OF g1(2)] by auto
    show ?thesis
    proof (cases "\<exists>sz d. msg = Some (sz, d) \<and> \<not> malloc_ok sz")
      case True
      thus ?thesis using return_node_rep [OF g1(2)] assms(2) g g1 Cons \<open>f \<noteq> 0\<close>
        by (auto simp: send_node_def message_at_def)
    next
      case False
      let ?u = "\<lambda>n. n\<lparr>n_data := map_option snd msg, n_data_size := (case msg of None \<Rightarrow> 0 | Some (sz, _) \<Rightarrow> sz), n_message_type := ty\<rparr>"
      have e: "ws_mpsc_queue_enqueue f (upd_node f ?u q1) = (r, q')"
        using assms(2) g g1(1) \<open>f \<noteq> 0\<close> False by (auto simp: send_node_def split: option.splits prod.splits)
      note u = upd_held_rep [OF g1(2), of ?u]
      have "message_at (upd_node f ?u q1) f = (ty, msg)"
        using u by (cases msg) (auto simp: message_at_def)
      moreover have "\<forall>x \<in> set qs. message_at (upd_node f ?u q1) x = message_at q x"
        using u g1(3) by (simp add: message_at_def)
      ultimately show ?thesis using enqueue_rep [OF _ e] u False Cons by auto
    qed
  qed
qed

lemma mpsc_put_holds:
  assumes "mpsc_holds q ms" "mpsc_put malloc_ok m q = (ok, q')"
  shows "mpsc_holds q' (if ok then ms @ [m] else ms)"
proof -
  obtain qs fs where r: "mq_rep q qs fs []" "map (message_at q) qs = ms" using assms(1) by (auto simp: mpsc_holds_def)
  obtain rc where s: "send_node malloc_ok 0 0 q (snd m) (fst m) = (rc, q')" "ok = (rc = 0)"
    using assms(2) by (auto simp: mpsc_put_def split: prod.splits)
  show ?thesis
    using send_node_rep [OF r(1) s(1)] r(2) s(2)
    by (auto simp: mpsc_holds_def split: if_splits)
qed

lemma mpsc_get_holds:
  assumes "mpsc_holds q ms"
  shows "\<exists>q'. mpsc_get q = Some (case ms of [] \<Rightarrow> None | m # _ \<Rightarrow> Some m, q') \<and> mpsc_holds q' (tl ms)"
proof -
  obtain qs fs where r: "mq_rep q qs fs []" "map (message_at q) qs = ms" using assms by (auto simp: mpsc_holds_def)
  obtain q1 where d: "ws_mpsc_queue_dequeue q = Some (case qs of [] \<Rightarrow> 0 | p # _ \<Rightarrow> p, q1)"
    "\<forall>r. node_at q1 r = node_at q r" "case qs of [] \<Rightarrow> mq_rep q1 [] fs [] | p # ps \<Rightarrow> mq_rep q1 ps fs [p]"
    using dequeue_rep [OF r(1)] by blast
  show ?thesis
  proof (cases qs)
    case Nil
    thus ?thesis using d r(2) by (auto simp: mpsc_get_def mpsc_holds_def)
  next
    case (Cons p ps)
    have rep: "mq_rep q1 ps fs [p]" using d(3) Cons by simp
    have "p \<noteq> 0" using mq_rep_range [OF rep] by auto
    thus ?thesis using return_node_rep [OF rep] d(1,2) r(2) Cons
      by (auto simp: mpsc_get_def mpsc_holds_def message_at_def)
  qed
qed

interpretation mpsc: fifo_queue mpsc_holds "mpsc_put malloc_ok" mpsc_get for malloc_ok
proof
  fix q ms m q'
  show "mpsc_holds q ms \<Longrightarrow> mpsc_put malloc_ok m q = (True, q') \<Longrightarrow> mpsc_holds q' (ms @ [m])"
    using mpsc_put_holds [of q ms malloc_ok m True q'] by simp
  show "mpsc_holds q ms \<Longrightarrow> mpsc_put malloc_ok m q = (False, q') \<Longrightarrow> mpsc_holds q' ms"
    using mpsc_put_holds [of q ms malloc_ok m False q'] by simp
  show "mpsc_holds q [] \<Longrightarrow> \<exists>q'. mpsc_get q = Some (None, q') \<and> mpsc_holds q' []"
    using mpsc_get_holds [of q "[]"] by simp
  show "mpsc_holds q (m # ms) \<Longrightarrow> \<exists>q'. mpsc_get q = Some (Some m, q') \<and> mpsc_holds q' ms"
    using mpsc_get_holds [of q "m # ms"] by simp
qed




section \<open>Destruction\<close>

lemma map_filter_nodes:
  "\<forall>r \<in> set ps. node_at q' r = node_at q r \<Longrightarrow>
   List.map_filter (\<lambda>p. n_data (node_at q' p)) ps = List.map_filter (\<lambda>p. n_data (node_at q p)) ps"
  by (induction ps) (auto simp: List.map_filter_simps split: option.splits)

lemma destroy_loop_frees:
  assumes "mq_rep q qs fs hs" "length qs < k"
  shows "destroy_loop k q = Some (List.map_filter (\<lambda>p. n_data (node_at q p)) qs)"
  using assms
proof (induction qs arbitrary: q k hs)
  case Nil
  then obtain k' where "k = Suc k'" by (cases k) auto
  thus ?case using dequeue_rep [OF Nil.prems(1)] by (auto simp: List.map_filter_def)
next
  case (Cons p qs)
  then obtain k' where k: "k = Suc k'" "length qs < k'" by (cases k) auto
  obtain q1 where d: "ws_mpsc_queue_dequeue q = Some (p, q1)" "\<forall>r. node_at q1 r = node_at q r" "mq_rep q1 qs fs (p # hs)"
    using dequeue_rep [OF Cons.prems(1)] by auto
  have "p \<noteq> 0" using mq_rep_range [OF d(3)] by auto
  show ?case
  proof (cases "n_data (node_at q p)")
    case None
    thus ?thesis using Cons.IH [OF d(3) k(2)] d k(1) \<open>p \<noteq> 0\<close> by (simp add: List.map_filter_simps)
  next
    case (Some x)
    let ?q = "upd_node p (\<lambda>n. n\<lparr>n_data := None\<rparr>) q1"
    have u: "mq_rep ?q qs fs (p # hs)" "\<forall>r \<in> set qs. node_at ?q r = node_at q r"
      using upd_held_rep [OF d(3), of "\<lambda>n. n\<lparr>n_data := None\<rparr>"] d(2) by auto
    have "List.map_filter (\<lambda>p. n_data (node_at ?q p)) qs = List.map_filter (\<lambda>p. n_data (node_at q p)) qs"
      using u(2) by (rule map_filter_nodes)
    thus ?thesis using Cons.IH [OF u(1) k(2)] d k(1) Some \<open>p \<noteq> 0\<close> by (simp add: List.map_filter_simps)
  qed
qed

text \<open>Destroying the queue frees the data of every message still in it, once, and returns.\<close>

lemma destroy_frees:
  assumes "mpsc_holds q ms"
  shows "ws_mpsc_queue_destroy q = Some (List.map_filter (\<lambda>m. map_option snd (snd m)) ms)"
proof -
  obtain qs fs where r: "mq_rep q qs fs []" "ms = map (message_at q) qs" using assms by (auto simp: mpsc_holds_def)
  have "card (set (qs @ fs)) = length (qs @ fs)" "set (qs @ fs) = pool_range q"
    using r(1) distinct_card [of "qs @ fs"] by (auto simp: mq_rep_def)
  hence "length qs < Suc (length (mq_nodes q))" by (simp add: pool_range_def)
  moreover have "List.map_filter (\<lambda>m. map_option snd (snd m)) ms = List.map_filter (\<lambda>p. n_data (node_at q p)) qs"
    unfolding r(2) by (induction qs) (auto simp: List.map_filter_simps message_at_def option.map_comp comp_def split: option.splits)
  ultimately show ?thesis using destroy_loop_frees [OF r(1)] by (simp add: ws_mpsc_queue_destroy_def del: destroy_loop.simps)
qed

section \<open>Expansion of a queue in use\<close>

text \<open>
  The guard of the public expansion operation only asks that half of the nodes are free. With a
  message queued it then moves the pool but not the head and tail, which are left pointing into
  the pool that was freed.
\<close>

lemma expand_strands_messages:
  "\<exists>q q' r. ws_mpsc_queue_create True 100 4 = Some q \<and>
     ws_mpsc_send_shutdown_signal 0 0 q = (0, q') \<and>
     fst (ws_mpsc_queue_expand_pool_safe 200 0 q' 8) = 0 \<and>
     r = snd (ws_mpsc_queue_expand_pool_safe 200 0 q' 8) \<and>
     mq_head r = 100 \<and> mq_tail r = 100 \<and> 100 \<notin> pool_range r"
proof -
  let ?q = "the (ws_mpsc_queue_create True 100 4)"
  let ?r = "snd (ws_mpsc_queue_expand_pool_safe 200 0 (snd (ws_mpsc_send_shutdown_signal 0 0 ?q)) 8)"
  have "ws_mpsc_queue_create True 100 4 = Some ?q" by (simp add: ws_mpsc_queue_create_def)
  moreover have "fst (ws_mpsc_send_shutdown_signal 0 0 ?q) = 0" by code_simp
  moreover have "fst (ws_mpsc_queue_expand_pool_safe 200 0 (snd (ws_mpsc_send_shutdown_signal 0 0 ?q)) 8) = 0" by code_simp
  moreover have "mq_head ?r = 100" "mq_tail ?r = 100" "mq_pool ?r = 200" by code_simp+
  ultimately show ?thesis by (intro exI [of _ ?q] exI [of _ "snd (ws_mpsc_send_shutdown_signal 0 0 ?q)"] exI [of _ ?r])
      (auto simp: pool_range_def prod_eq_iff)
qed

end
