(* ===== verification/Ws_Mpsc_Concurrent.thy ===== *)
theory Ws_Mpsc_Concurrent
  imports Ws_Mpsc_Fifo
begin

text \<open>
  The message queue under concurrency: the atomic steps of the producers and of the consumer as
  a transition system (under a sequentially consistent memory), its invariant, and what follows
  for every interleaving.
\<close>

section \<open>Producers and the consumer, interleaved\<close>

text \<open>
  Any number of producers and the one consumer run their atomic steps in any order. The free
  list is protected by a lock, so taking and returning a node are single steps; the queue itself is
  not. Writes to a node that its caller owns are grouped with the step that precedes them.
\<close>

datatype prod_pc = PIdle | PFill nat | PInit nat | PSwap nat | PLink nat nat

record mpsc_system =
  sy_q :: ws_mpsc_queue
  sy_prod :: "nat \<Rightarrow> prod_pc"
  sy_cons :: deq_pc
  sy_sent :: "mpsc_message list"
  sy_got :: "mpsc_message list"

text \<open>
  The history of messages sent is in the order of the exchanges of the tail, the history of those
  received in the order of returns of the dequeue operation.
\<close>

inductive sys_step :: "mpsc_system \<Rightarrow> mpsc_system \<Rightarrow> bool" where
  get: "sy_prod s p = PIdle \<Longrightarrow> ws_mpsc_queue_get_node addr now (sy_q s) = (n, q) \<Longrightarrow>
    sys_step s (s\<lparr>sy_q := q, sy_prod := (sy_prod s)(p := if n = 0 then PIdle else PFill n)\<rparr>)"
| give_up: "sy_prod s p = PFill n \<Longrightarrow>
    sys_step s (s\<lparr>sy_q := ws_mpsc_queue_return_node n (sy_q s), sy_prod := (sy_prod s)(p := PIdle)\<rparr>)"
| fill: "sy_prod s p = PFill n \<Longrightarrow>
    sys_step s (s\<lparr>sy_q := upd_node n (\<lambda>x. x\<lparr>n_data := d, n_data_size := sz, n_message_type := ty\<rparr>) (sy_q s),
                sy_prod := (sy_prod s)(p := PInit n)\<rparr>)"
| init: "sy_prod s p = PInit n \<Longrightarrow>
    sys_step s (s\<lparr>sy_q := set_next n 0 (sy_q s), sy_prod := (sy_prod s)(p := PSwap n)\<rparr>)"
| swap: "sy_prod s p = PSwap n \<Longrightarrow> enq_swap n (sy_q s) = (prev_tail, q) \<Longrightarrow>
    sys_step s (s\<lparr>sy_q := q, sy_prod := (sy_prod s)(p := PLink prev_tail n),
                sy_sent := sy_sent s @ [message_at (sy_q s) n]\<rparr>)"
| link: "sy_prod s p = PLink prev_tail n \<Longrightarrow>
    sys_step s (s\<lparr>sy_q := enq_link prev_tail n (sy_q s), sy_prod := (sy_prod s)(p := PIdle)\<rparr>)"
| consume: "(\<forall>h. sy_cons s \<noteq> DqDone h) \<Longrightarrow> deq_step (sy_q s) (sy_cons s) = (q, pc) \<Longrightarrow>
    sys_step s (s\<lparr>sy_q := q, sy_cons := pc,
                sy_got := (case pc of DqDone h \<Rightarrow> if h = 0 then sy_got s else sy_got s @ [message_at (sy_q s) h]
                           | _ \<Rightarrow> sy_got s)\<rparr>)"
| again: "sy_cons s = DqDone h \<Longrightarrow>
    sys_step s (s\<lparr>sy_q := ws_mpsc_queue_return_node h (sy_q s), sy_cons := DqHead\<rparr>)"

definition sys_init :: "ws_mpsc_queue \<Rightarrow> mpsc_system" where
  "sys_init q = \<lparr>sy_q = q, sy_prod = (\<lambda>_. PIdle), sy_cons = DqHead, sy_sent = [], sy_got = []\<rparr>"

inductive reachable :: "u32 \<Rightarrow> nat \<Rightarrow> mpsc_system \<Rightarrow> bool" for sz addr where
  start: "ws_mpsc_queue_create True addr sz = Some q \<Longrightarrow>
    reachable sz addr (sys_init q)"
| step: "reachable sz addr s \<Longrightarrow> sys_step s s' \<Longrightarrow> reachable sz addr s'"

text \<open>The same steps as an executable function of a schedule.\<close>

datatype sys_op =
    OpGet nat | OpGiveUp nat | OpFill nat "mpsc_data option" nat u32 | OpInit nat | OpSwap nat | OpLink nat | OpCons

definition sys_do :: "sys_op \<Rightarrow> mpsc_system \<Rightarrow> mpsc_system option" where
  "sys_do op s =
    (case op of
       OpGet p \<Rightarrow> (case sy_prod s p of
           PIdle \<Rightarrow> (case ws_mpsc_queue_get_node 0 0 (sy_q s) of (n, q) \<Rightarrow>
             Some (s\<lparr>sy_q := q, sy_prod := (sy_prod s)(p := if n = 0 then PIdle else PFill n)\<rparr>))
         | _ \<Rightarrow> None)
     | OpGiveUp p \<Rightarrow> (case sy_prod s p of
           PFill n \<Rightarrow> Some (s\<lparr>sy_q := ws_mpsc_queue_return_node n (sy_q s), sy_prod := (sy_prod s)(p := PIdle)\<rparr>)
         | _ \<Rightarrow> None)
     | OpFill p d sz ty \<Rightarrow> (case sy_prod s p of
           PFill n \<Rightarrow> Some (s\<lparr>sy_q := upd_node n (\<lambda>x. x\<lparr>n_data := d, n_data_size := sz, n_message_type := ty\<rparr>) (sy_q s),
                              sy_prod := (sy_prod s)(p := PInit n)\<rparr>)
         | _ \<Rightarrow> None)
     | OpInit p \<Rightarrow> (case sy_prod s p of
           PInit n \<Rightarrow> Some (s\<lparr>sy_q := set_next n 0 (sy_q s), sy_prod := (sy_prod s)(p := PSwap n)\<rparr>)
         | _ \<Rightarrow> None)
     | OpSwap p \<Rightarrow> (case sy_prod s p of
           PSwap n \<Rightarrow> (case enq_swap n (sy_q s) of (prev_tail, q) \<Rightarrow>
             Some (s\<lparr>sy_q := q, sy_prod := (sy_prod s)(p := PLink prev_tail n),
                    sy_sent := sy_sent s @ [message_at (sy_q s) n]\<rparr>))
         | _ \<Rightarrow> None)
     | OpLink p \<Rightarrow> (case sy_prod s p of
           PLink prev_tail n \<Rightarrow> Some (s\<lparr>sy_q := enq_link prev_tail n (sy_q s), sy_prod := (sy_prod s)(p := PIdle)\<rparr>)
         | _ \<Rightarrow> None)
     | OpCons \<Rightarrow> (case sy_cons s of
           DqDone h \<Rightarrow> Some (s\<lparr>sy_q := ws_mpsc_queue_return_node h (sy_q s), sy_cons := DqHead\<rparr>)
         | _ \<Rightarrow> (case deq_step (sy_q s) (sy_cons s) of (q, pc) \<Rightarrow>
             Some (s\<lparr>sy_q := q, sy_cons := pc,
                    sy_got := (case pc of DqDone h \<Rightarrow> if h = 0 then sy_got s else sy_got s @ [message_at (sy_q s) h]
                               | _ \<Rightarrow> sy_got s)\<rparr>))))"

fun sys_exec :: "sys_op list \<Rightarrow> mpsc_system \<Rightarrow> mpsc_system option" where
  "sys_exec [] s = Some s"
| "sys_exec (op # ops) s = (case sys_do op s of None \<Rightarrow> None | Some s \<Rightarrow> sys_exec ops s)"

lemma sys_do_step:
  assumes "sys_do op s = Some s'"
  shows "sys_step s s'"
proof (cases op)
  case OpCons
  show ?thesis
  proof (cases "\<exists>h. sy_cons s = DqDone h")
    case True
    thus ?thesis using assms OpCons by (auto simp: sys_do_def intro: sys_step.again)
  next
    case False
    obtain q pc where ds: "deq_step (sy_q s) (sy_cons s) = (q, pc)" by fastforce
    have "s' = s\<lparr>sy_q := q, sy_cons := pc,
        sy_got := (case pc of DqDone h \<Rightarrow> if h = 0 then sy_got s else sy_got s @ [message_at (sy_q s) h]
                   | _ \<Rightarrow> sy_got s)\<rparr>"
      using assms OpCons False ds by (cases "sy_cons s") (simp_all add: sys_do_def del: deq_step.simps)
    thus ?thesis using sys_step.consume [OF _ ds] False by simp
  qed
qed (use assms in \<open>auto simp: sys_do_def split: prod_pc.splits prod.splits intro: sys_step.intros\<close>)

lemma sys_exec_reachable:
  "sys_exec ops s = Some s' \<Longrightarrow> reachable sz addr s \<Longrightarrow> reachable sz addr s'"
proof (induction ops arbitrary: s)
  case (Cons op ops)
  obtain s1 where "sys_do op s = Some s1" "sys_exec ops s1 = Some s'" using Cons.prems(1) by (auto split: option.splits)
  thus ?case using Cons.IH reachable.step [OF Cons.prems(2)] sys_do_step by blast
qed simp

subsection \<open>Structure of the queue\<close>

text \<open>
  Consecutive nodes are linked, or a producer is about to link them.
\<close>

definition edge :: "(nat \<Rightarrow> nat) \<Rightarrow> (nat \<Rightarrow> prod_pc) \<Rightarrow> nat \<Rightarrow> nat \<Rightarrow> bool" where
  "edge nx pr a b \<longleftrightarrow> nx a = b \<or> nx a = 0 \<and> (\<exists>p. pr p = PLink a b)"

fun cons_inv :: "(nat \<Rightarrow> nat) \<Rightarrow> nat \<Rightarrow> (nat \<Rightarrow> prod_pc) \<Rightarrow> nat list \<Rightarrow> deq_pc \<Rightarrow> bool" where
  "cons_inv nx head pr qs (DqNext h) = (head = h \<and> (\<exists>vs. qs = h # vs))"
| "cons_inv nx head pr qs (DqTail h) = (head = h \<and> (\<exists>vs. qs = h # vs))"
| "cons_inv nx head pr qs (DqClear h) = (head = h \<and> (\<exists>vs. qs = h # vs))"
| "cons_inv nx head pr qs (DqSpin h) = (head = h \<and> (\<exists>n vs. qs = h # n # vs))"
| "cons_inv nx head pr qs (DqAdvance h n) = (head = h \<and> nx h = n \<and> (\<exists>vs. qs = h # n # vs))"
| "cons_inv nx head pr qs (DqCas h) = (head = 0 \<and> (\<exists>vs. qs = h # vs))"
| "cons_inv nx head pr qs (DqRelink h) = (head = 0 \<and> (\<exists>n vs. qs = h # n # vs))"
| "cons_inv nx head pr qs (DqPublish h n) = (head = 0 \<and> nx h = n \<and> (\<exists>vs. qs = h # n # vs))"
| "cons_inv nx head pr qs _ = (case qs of [] \<Rightarrow> head = 0 | a # _ \<Rightarrow> head = a \<or> head = 0 \<and> (\<exists>p. pr p = PLink 0 a))"

definition idle_cons :: "deq_pc \<Rightarrow> bool" where
  "idle_cons pc \<longleftrightarrow> pc = DqHead \<or> (\<exists>h. pc = DqDone h)"

definition pend_inv :: "(nat \<Rightarrow> nat) \<Rightarrow> nat \<Rightarrow> deq_pc \<Rightarrow> nat list \<Rightarrow> nat \<Rightarrow> nat \<Rightarrow> bool" where
  "pend_inv nx head cons qs a b \<longleftrightarrow>
    (if a = 0 then head = 0 \<and> idle_cons cons \<and> (\<exists>vs. qs = b # vs)
     else nx a = 0 \<and> (\<exists>us vs. qs = us @ a # b # vs))"

definition queue_inv :: "(nat \<Rightarrow> nat) \<Rightarrow> nat \<Rightarrow> nat \<Rightarrow> (nat \<Rightarrow> prod_pc) \<Rightarrow> deq_pc \<Rightarrow> nat list \<Rightarrow> bool" where
  "queue_inv nx head tail pr cons qs \<longleftrightarrow>
    distinct qs \<and> 0 \<notin> set qs \<and> tail = (if qs = [] then 0 else last qs) \<and>
    successively (edge nx pr) qs \<and> (qs \<noteq> [] \<longrightarrow> nx (last qs) = 0) \<and>
    (\<forall>p a b. pr p = PLink a b \<longrightarrow> pend_inv nx head cons qs a b) \<and>
    (\<forall>p p' a a' b. pr p = PLink a b \<longrightarrow> pr p' = PLink a' b \<longrightarrow> p = p') \<and>
    (\<forall>p n. pr p = PSwap n \<longrightarrow> nx n = 0) \<and>
    cons_inv nx head pr qs cons"

lemma edge_cong:
  assumes "nx a = nx' a" "\<forall>p. (pr p = PLink a b) = (pr' p = PLink a b)"
  shows "edge nx pr a b = edge nx' pr' a b"
  using assms by (simp add: edge_def)

lemma successively_edge_cong:
  assumes "\<forall>a \<in> set qs. nx a = nx' a" "\<forall>p a b. (pr p = PLink a b) = (pr' p = PLink a b)"
  shows "successively (edge nx pr) qs = successively (edge nx' pr') qs"
  using assms by (intro successively_cong) (auto simp: edge_def)

lemma cons_inv_cong:
  assumes "\<forall>a \<in> set qs. nx a = nx' a" "\<forall>p a b. (pr p = PLink a b) = (pr' p = PLink a b)"
  shows "cons_inv nx head pr qs pc = cons_inv nx' head pr' qs pc"
  using assms by (cases pc) (auto split: list.splits)

lemma pend_inv_cong:
  assumes "\<forall>a \<in> set qs. nx a = nx' a"
  shows "pend_inv nx head cons qs a b = pend_inv nx' head cons qs a b"
  using assms by (auto simp: pend_inv_def)

text \<open>A step of a producer on a node of its own.\<close>

lemma queue_inv_private:
  assumes "queue_inv nx head tail pr cons qs" "\<forall>a \<in> set qs. nx' a = nx a"
    and "\<forall>a b. pr p \<noteq> PLink a b" "\<forall>a b. pc \<noteq> PLink a b" "\<forall>n. pc = PSwap n \<longrightarrow> nx' n = 0"
    and "\<forall>p' n. p' \<noteq> p \<longrightarrow> pr p' = PSwap n \<longrightarrow> nx' n = nx n"
  shows "queue_inv nx' head tail (pr(p := pc)) cons qs"
proof -
  let ?pr = "pr(p := pc)"
  have l: "(?pr p' = PLink a b) = (pr p' = PLink a b)" for p' a b using assms(3,4) by auto
  have "successively (edge nx' ?pr) qs = successively (edge nx pr) qs"
    using assms(2) l by (intro successively_edge_cong) auto
  moreover have "cons_inv nx' head ?pr qs cons = cons_inv nx head pr qs cons"
    using assms(2) l by (intro cons_inv_cong) auto
  moreover have "pend_inv nx' head cons qs a b = pend_inv nx head cons qs a b" for a b
    using assms(2) by (intro pend_inv_cong) auto
  moreover have "nx' n = 0" if "?pr p' = PSwap n" for p' n
    using that assms(1,5,6) by (cases "p' = p") (auto simp: queue_inv_def)
  ultimately show ?thesis using assms(1,2) l unfolding queue_inv_def by auto
qed


lemma queue_inv_nodes:
  assumes "queue_inv nx head tail pr cons qs" "\<forall>a \<in> set qs. nx' a = nx a"
    and "\<forall>p n. pr p = PSwap n \<longrightarrow> nx' n = 0"
  shows "queue_inv nx' head tail pr cons qs"
proof -
  have "successively (edge nx' pr) qs = successively (edge nx pr) qs"
    using assms(2) by (intro successively_edge_cong) auto
  moreover have "cons_inv nx' head pr qs cons = cons_inv nx head pr qs cons"
    using assms(2) by (intro cons_inv_cong) auto
  moreover have "pend_inv nx' head cons qs a b = pend_inv nx head cons qs a b" for a b
    using assms(2) by (intro pend_inv_cong) auto
  ultimately show ?thesis using assms unfolding queue_inv_def by auto
qed

lemma edge_mono:
  assumes "edge nx pr a b" "\<forall>p. pr p = PLink a b \<longrightarrow> (\<exists>p'. pr' p' = PLink a b)"
  shows "edge nx pr' a b"
  using assms by (auto simp: edge_def)

lemma pend_inv_append: "pend_inv nx head cons qs a b \<Longrightarrow> pend_inv nx head cons (qs @ [n]) a b"
proof (cases "a = 0")
  case False
  assume "pend_inv nx head cons qs a b"
  then obtain us vs where "nx a = 0" "qs = us @ a # b # vs" using False by (auto simp: pend_inv_def)
  hence "nx a = 0" "qs @ [n] = us @ a # b # (vs @ [n])" by simp_all
  thus ?thesis using False unfolding pend_inv_def by metis
qed (auto simp: pend_inv_def)

lemma cons_inv_append:
  assumes "cons_inv nx head pr qs cons" "\<forall>p a b. pr p = PLink a b \<longrightarrow> (\<exists>p'. pr' p' = PLink a b)"
    and "qs = [] \<longrightarrow> (\<exists>p. pr' p = PLink 0 n)"
  shows "cons_inv nx head pr' (qs @ [n]) cons"
  using assms by (cases cons) (auto split: list.splits)

lemma pend_inv_mem: "pend_inv nx head cons qs a b \<Longrightarrow> b \<in> set qs \<and> (a \<noteq> 0 \<longrightarrow> a \<in> set qs)"
  by (auto simp: pend_inv_def split: if_splits)

lemma idle_when_empty: "cons_inv nx head pr [] cons \<Longrightarrow> idle_cons cons \<and> head = 0"
  by (cases cons) (auto simp: idle_cons_def)

text \<open>Publishing the link changes no edge.\<close>

lemma successor_unique:
  assumes "distinct (us @ a # b # vs)" "us @ a # b # vs = us' @ a # b' # vs'"
  shows "b = b' \<and> us = us' \<and> vs = vs'"
proof -
  have "a \<notin> set us" "a \<notin> set (b # vs)" using assms(1) by auto
  thus ?thesis using assms(2) append_Cons_eq_iff [of a us "b # vs" us' "b' # vs'"] by simp
qed


lemma queue_invD:
  assumes "queue_inv nx head tail pr cons qs"
  shows "distinct qs" "x \<in> set qs \<Longrightarrow> x \<noteq> 0" "tail = (if qs = [] then 0 else last qs)"
    "successively (edge nx pr) qs" "qs \<noteq> [] \<Longrightarrow> nx (last qs) = 0"
    "pr p = PLink a b \<Longrightarrow> pend_inv nx head cons qs a b"
    "pr p = PLink a b \<Longrightarrow> pr p' = PLink a' b \<Longrightarrow> p = p'"
    "pr p = PSwap n \<Longrightarrow> nx n = 0" "cons_inv nx head pr qs cons"
  using assms unfolding queue_inv_def by (blast | metis)+

lemma queue_invI:
  assumes "distinct qs" "0 \<notin> set qs" "tail = (if qs = [] then 0 else last qs)"
    and "successively (edge nx pr) qs" "qs \<noteq> [] \<Longrightarrow> nx (last qs) = 0"
    and "\<And>p a b. pr p = PLink a b \<Longrightarrow> pend_inv nx head cons qs a b"
    and "\<And>p p' a a' b. pr p = PLink a b \<Longrightarrow> pr p' = PLink a' b \<Longrightarrow> p = p'"
    and "\<And>p n. pr p = PSwap n \<Longrightarrow> nx n = 0" "cons_inv nx head pr qs cons"
  shows "queue_inv nx head tail pr cons qs"
  using assms unfolding queue_inv_def by blast

text \<open>The exchange of the tail appends the node.\<close>

lemma queue_inv_swap:
  assumes inv: "queue_inv nx head tail pr cons qs" and n: "pr p = PSwap n" "n \<notin> set qs" "n \<noteq> 0"
  shows "queue_inv nx head n (pr(p := PLink tail n)) cons (qs @ [n])"
proof -
  let ?pr = "pr(p := PLink tail n)"
  note d = queue_invD [OF inv]
  have grow: "\<exists>p''. ?pr p'' = PLink a b" if "pr p' = PLink a b" for p' a b
    using that n(1) by (intro exI [of _ p']) auto
  have b: "b \<in> set qs" if "pr p' = PLink a b" for p' a b
    using d(6) [OF that] by (auto simp: pend_inv_def split: if_splits)
  have old: "p' = p \<and> a = tail \<and> b = n \<or> p' \<noteq> p \<and> pr p' = PLink a b" if "?pr p' = PLink a b" for p' a b
    using that by (auto split: if_splits)
  show ?thesis
  proof (rule queue_invI)
    have "successively (edge nx ?pr) qs"
      using d(4) by (rule successively_mono) (use grow in \<open>blast intro: edge_mono\<close>)
    moreover have "edge nx ?pr (last qs) n" if "qs \<noteq> []" using that d(3) d(5) by (auto simp: edge_def)
    ultimately show "successively (edge nx ?pr) (qs @ [n])" by (auto simp: successively_append_iff)
  next
    fix p' a b assume "?pr p' = PLink a b"
    from old [OF this] show "pend_inv nx head cons (qs @ [n]) a b"
    proof
      assume ab: "p' = p \<and> a = tail \<and> b = n"
      show ?thesis
      proof (cases "qs = []")
        case True
        thus ?thesis using ab d(3) d(9) idle_when_empty [of nx head pr cons] by (simp add: pend_inv_def)
      next
        case False
        have "\<exists>us vs. qs @ [n] = us @ last qs # n # vs"
          using False append_butlast_last_id by (metis append.assoc append_Cons append_Nil)
        thus ?thesis using False ab d(3) d(5) d(2) [of "last qs"] by (simp add: pend_inv_def)
      qed
    next
      assume "p' \<noteq> p \<and> pr p' = PLink a b"
      thus ?thesis using d(6) by (blast intro: pend_inv_append)
    qed
  next
    have "\<exists>p. ?pr p = PLink 0 n" if "qs = []" using that d(3) by (intro exI [of _ p]) simp
    thus "cons_inv nx head ?pr (qs @ [n]) cons" using d(9) grow by (intro cons_inv_append [where pr = pr]) auto
  next
    fix p' p'' a a' b assume l: "?pr p' = PLink a b" "?pr p'' = PLink a' b"
    show "p' = p''" using old [OF l(1)] old [OF l(2)] b n(2) d(7) by metis
  next
    fix p' m assume "?pr p' = PSwap m"
    thus "nx m = 0" using d(8) by (metis fun_upd_apply prod_pc.distinct(19))
  qed (use d(1,2) d(8) [OF n(1)] n in auto)
qed

text \<open>After a link, the producers that still have one to publish are those that had.\<close>

lemma idle_upd: "(pr(p := PIdle)) p' = PLink a b \<Longrightarrow> p' \<noteq> p \<and> pr p' = PLink a b"
  "(pr(p := PIdle)) p' = PSwap n \<Longrightarrow> pr p' = PSwap n"
  by (auto split: if_splits)

lemma queue_inv_link_first:
  assumes inv: "queue_inv nx head tail pr cons qs" and p: "pr p = PLink 0 n"
  shows "queue_inv nx n tail (pr(p := PIdle)) cons qs"
proof -
  note d = queue_invD [OF inv]
  obtain vs where pi: "head = 0" "idle_cons cons" "qs = n # vs"
    using d(6) [OF p] by (auto simp: pend_inv_def)
  have nz: "a \<noteq> 0" if "(pr(p := PIdle)) p' = PLink a b" for p' a b
  proof
    assume "a = 0"
    hence "b = n" using d(6) [of p' a b] idle_upd(1) [OF that] pi(3) by (simp add: pend_inv_def)
    thus False using d(7) [OF p, of p' a] idle_upd(1) [OF that] by simp
  qed
  show ?thesis
  proof (rule queue_invI)
    show "successively (edge nx (pr(p := PIdle))) qs" using d(4)
    proof (rule successively_mono)
      fix x y assume x: "x \<in> set qs" and e: "edge nx pr x y"
      have "pr p \<noteq> PLink x y" using p d(2) [OF x] by simp
      thus "edge nx (pr(p := PIdle)) x y" using e unfolding edge_def by (metis fun_upd_other)
    qed
  next
    fix p' a b assume l: "(pr(p := PIdle)) p' = PLink a b"
    show "pend_inv nx n cons qs a b" using nz [OF l] d(6) [of p' a b] idle_upd(1) [OF l] by (simp add: pend_inv_def)
  next
    show "cons_inv nx n (pr(p := PIdle)) qs cons" using pi(2,3) by (auto simp: idle_cons_def)
  next
    fix p' p'' a a' b assume l: "(pr(p := PIdle)) p' = PLink a b" "(pr(p := PIdle)) p'' = PLink a' b"
    show "p' = p''" using d(7) idle_upd(1) [OF l(1)] idle_upd(1) [OF l(2)] by blast
  next
    fix p' m assume l: "(pr(p := PIdle)) p' = PSwap m"
    show "nx m = 0" using d(8) idle_upd(2) [OF l] by metis
  qed (use d in auto)
qed

lemma queue_inv_link:
  assumes inv: "queue_inv nx head tail pr cons qs" and p: "pr p = PLink a n" "a \<noteq> 0"
    and other: "\<forall>p n. pr p = PSwap n \<longrightarrow> n \<notin> set qs"
  shows "queue_inv (nx(a := n)) head tail (pr(p := PIdle)) cons qs \<and> a \<in> set qs"
proof -
  note d = queue_invD [OF inv]
  obtain us vs where qs: "nx a = 0" "qs = us @ a # n # vs"
    using d(6) [OF p(1)] p(2) by (auto simp: pend_inv_def)
  have dist: "distinct (us @ a # n # vs)" using d(1) qs(2) by simp
  have same: "b = n" if "pr p' = PLink a b" for p' b
    using d(6) [OF that] p(2) successor_unique [OF dist] qs(2) by (auto simp: pend_inv_def)
  have keep: "pr p' = PLink c b \<and> c \<noteq> a" if "(pr(p := PIdle)) p' = PLink c b" for p' c b
    using same [of p' b] d(7) [OF p(1), of p' c] idle_upd(1) [OF that] by auto
  have "queue_inv (nx(a := n)) head tail (pr(p := PIdle)) cons qs"
  proof (rule queue_invI)
    show "successively (edge (nx(a := n)) (pr(p := PIdle))) qs" using d(4)
    proof (rule successively_mono)
      fix x y assume xy: "x \<in> set qs" "y \<in> set qs" and e: "edge nx pr x y"
      show "edge (nx(a := n)) (pr(p := PIdle)) x y"
      proof (cases "x = a")
        case True
        hence "y = n" using e same qs(1) d(2) [OF xy(2)] by (auto simp: edge_def)
        thus ?thesis using True by (simp add: edge_def)
      next
        case False
        hence "pr p \<noteq> PLink x y" using p(1) by simp
        thus ?thesis using e False unfolding edge_def by (metis fun_upd_other)
      qed
    qed
  next
    fix p' c b assume l: "(pr(p := PIdle)) p' = PLink c b"
    show "pend_inv (nx(a := n)) head cons qs c b" using keep [OF l] d(6) [of p' c b] by (simp add: pend_inv_def)
  next
    show "cons_inv (nx(a := n)) head (pr(p := PIdle)) qs cons"
    proof (cases "idle_cons cons")
      case True
      have "pr p \<noteq> PLink 0 b" for b using p by simp
      thus ?thesis using d(9) True by (fastforce simp: idle_cons_def split: list.splits)
    next
      case False
      moreover have "0 \<notin> set qs" using d(2) by auto
      ultimately show ?thesis using d(9) qs(1) by (cases cons) (auto simp: idle_cons_def)
    qed
  next
    fix p' p'' c c' b assume l: "(pr(p := PIdle)) p' = PLink c b" "(pr(p := PIdle)) p'' = PLink c' b"
    show "p' = p''" using d(7) idle_upd(1) [OF l(1)] idle_upd(1) [OF l(2)] by blast
  next
    fix p' m assume l: "(pr(p := PIdle)) p' = PSwap m"
    hence "m \<noteq> a" using other idle_upd(2) [OF l] qs(2) by auto
    thus "(nx(a := n)) m = 0" using d(8) idle_upd(2) [OF l] by simp
  next
    assume "qs \<noteq> []"
    moreover have "last qs \<noteq> a" using dist qs(2) by (auto split: if_splits)
    ultimately show "(nx(a := n)) (last qs) = 0" using d(5) by simp
  qed (use d in auto)
  thus ?thesis using qs(2) by simp
qed

text \<open>The consumer's steps.\<close>

lemma queue_inv_pc:
  assumes inv: "queue_inv nx head tail pr cons qs" and c: "cons_inv nx head' pr qs cons'"
    and z: "\<And>p b. pr p = PLink 0 b \<Longrightarrow> head' = 0 \<and> idle_cons cons'"
  shows "queue_inv nx head' tail pr cons' qs"
proof -
  note d = queue_invD [OF inv]
  show ?thesis
  proof (rule queue_invI)
    fix p a b assume l: "pr p = PLink a b"
    show "pend_inv nx head' cons' qs a b" using d(6) [OF l] z [of p b] l by (auto simp: pend_inv_def split: if_splits)
  qed (use d c in \<open>auto intro: d(7)\<close>)
qed

lemma queue_inv_next:
  assumes "queue_inv nx head tail pr cons (h # vs)" "nx h \<noteq> 0"
  shows "\<exists>vs'. vs = nx h # vs'"
proof (cases vs)
  case Nil
  thus ?thesis using queue_invD(5) [OF assms(1)] assms(2) by simp
next
  case (Cons y vs')
  thus ?thesis using queue_invD(4) [OF assms(1)] assms(2) by (simp add: edge_def)
qed

lemma queue_inv_pop:
  assumes inv: "queue_inv nx head tail pr cons (h # n # vs)" and h: "nx h = n" "\<not> idle_cons cons"
  shows "queue_inv nx n tail pr (DqDone h) (n # vs)"
proof -
  note d = queue_invD [OF inv]
  have n: "n \<noteq> 0" using d(2) [of n] by simp
  show ?thesis
  proof (rule queue_invI)
    fix p a b assume l: "pr p = PLink a b"
    have a: "a \<noteq> 0" "nx a = 0" using d(6) [OF l] h(2) by (auto simp: pend_inv_def split: if_splits)
    then obtain us ws where us: "h # n # vs = us @ a # b # ws" using d(6) [OF l] by (auto simp: pend_inv_def)
    have "a \<noteq> h" using a(2) h(1) n by auto
    then obtain us' where "us = h # us'" using us by (cases us) auto
    thus "pend_inv nx n (DqDone h) (n # vs) a b" using us a by (auto simp: pend_inv_def)
  qed (use d h n in \<open>auto intro: d(7)\<close>)
qed

lemma queue_inv_consume:
  assumes inv: "queue_inv (nxt q) (mq_head q) (mq_tail q) pr pc qs" and "\<forall>h. pc \<noteq> DqDone h"
    and step: "deq_step q pc = (q', pc')"
  shows "(\<forall>r. node_at q' r = node_at q r) \<and>
    (queue_inv (nxt q) (mq_head q') (mq_tail q') pr pc' qs \<and> (\<forall>h. pc' = DqDone h \<longrightarrow> h = 0) \<or>
     (\<exists>h qs'. qs = h # qs' \<and> h \<noteq> 0 \<and> pc' = DqDone h \<and> queue_inv (nxt q) (mq_head q') (mq_tail q') pr pc' qs'))"
proof -
  note d = queue_invD [OF inv]
  have pend0: "mq_head q = 0 \<and> idle_cons pc" if "pr p = PLink 0 b" for p b
    using d(6) [OF that] by (simp add: pend_inv_def)
  show ?thesis
  proof (cases pc)
    case DqHead
    show ?thesis
    proof (cases "mq_head q = 0")
      case True
      have "queue_inv (nxt q) (mq_head q) (mq_tail q) pr (DqDone 0) qs"
        using inv by (rule queue_inv_pc) (use d(9) DqHead True in \<open>auto simp: idle_cons_def\<close>)
      thus ?thesis using step DqHead True by auto
    next
      case False
      have "queue_inv (nxt q) (mq_head q) (mq_tail q) pr (DqNext (mq_head q)) qs"
        using inv by (rule queue_inv_pc) (use d(9) DqHead False pend0 in \<open>auto split: list.splits\<close>)
      thus ?thesis using step DqHead False by auto
    qed
  next
    case (DqNext h)
    then obtain vs where qs: "qs = h # vs" using d(9) by auto
    have nh: "\<exists>vs'. vs = nxt q h # vs'" if "nxt q h \<noteq> 0"
      using queue_inv_next inv qs that by blast
    have "queue_inv (nxt q) (mq_head q) (mq_tail q) pr pc' qs"
      using inv by (rule queue_inv_pc)
        (use d(9) DqNext step pend0 nh qs in \<open>auto simp: idle_cons_def Let_def split: if_splits\<close>)
    thus ?thesis using step DqNext by (auto simp: Let_def split: if_splits)
  next
    case (DqTail h)
    then obtain vs where qs: "qs = h # vs" using d(9) by auto
    have "queue_inv (nxt q) (mq_head q) (mq_tail q) pr pc' qs"
      using inv by (rule queue_inv_pc)
        (use d(3,9) DqTail step pend0 qs in \<open>auto simp: idle_cons_def neq_Nil_conv split: if_splits\<close>)
    thus ?thesis using step DqTail by (auto split: if_splits)
  next
    case (DqSpin h)
    then obtain vs where qs: "qs = h # vs" using d(9) by auto
    have nh: "\<exists>vs'. vs = nxt q h # vs'" if "nxt q h \<noteq> 0"
      using queue_inv_next inv qs that by blast
    have "queue_inv (nxt q) (mq_head q) (mq_tail q) pr pc' qs"
      using inv by (rule queue_inv_pc)
        (use d(9) DqSpin step pend0 nh qs in \<open>auto simp: idle_cons_def Let_def split: if_splits\<close>)
    thus ?thesis using step DqSpin by (auto simp: Let_def split: if_splits)
  next
    case (DqAdvance h n)
    then obtain vs where qs: "qs = h # n # vs" "nxt q h = n" using d(9) by auto
    have "queue_inv (nxt q) n (mq_tail q) pr (DqDone h) (n # vs)"
      using inv qs DqAdvance by (intro queue_inv_pop [where cons = pc]) (auto simp: idle_cons_def)
    thus ?thesis using step DqAdvance qs d(2) [of h] by auto
  next
    case (DqClear h)
    have "queue_inv (nxt q) 0 (mq_tail q) pr (DqCas h) qs"
      using inv by (rule queue_inv_pc) (use d(9) DqClear pend0 in \<open>auto simp: idle_cons_def\<close>)
    thus ?thesis using step DqClear by auto
  next
    case (DqCas h)
    then obtain vs where qs: "qs = h # vs" "mq_head q = 0" using d(9) by auto
    show ?thesis
    proof (cases "mq_tail q = h")
      case True
      have "vs = []"
      proof (rule ccontr)
        assume "vs \<noteq> []"
        hence "h \<in> set vs" using True d(3) qs(1) last_in_set [of vs] by simp
        thus False using d(1) qs(1) by simp
      qed
      have none: "pr p \<noteq> PLink a b" for p a b
      proof
        assume l: "pr p = PLink a b"
        show False using d(6) [OF l] pend0 [of p b] l qs(1) \<open>vs = []\<close> DqCas
          by (cases "a = 0") (auto simp: pend_inv_def idle_cons_def Cons_eq_append_conv)
      qed
      have "queue_inv (nxt q) 0 0 pr (DqDone h) []"
        by (rule queue_invI) (use none d(8) in auto)
      thus ?thesis using step DqCas True qs \<open>vs = []\<close> d(2) [of h] by auto
    next
      case False
      have "queue_inv (nxt q) (mq_head q) (mq_tail q) pr (DqRelink h) qs"
        using inv by (rule queue_inv_pc) (use d(3,9) DqCas False pend0 qs in \<open>auto simp: idle_cons_def neq_Nil_conv split: if_splits\<close>)
      thus ?thesis using step DqCas False by auto
    qed
  next
    case (DqRelink h)
    then obtain vs where qs: "qs = h # vs" using d(9) by auto
    have nh: "\<exists>vs'. vs = nxt q h # vs'" if "nxt q h \<noteq> 0"
      using queue_inv_next inv qs that by blast
    have "queue_inv (nxt q) (mq_head q) (mq_tail q) pr pc' qs"
      using inv by (rule queue_inv_pc)
        (use d(9) DqRelink step pend0 nh qs in \<open>auto simp: idle_cons_def Let_def split: if_splits\<close>)
    thus ?thesis using step DqRelink by (auto simp: Let_def split: if_splits)
  next
    case (DqPublish h n)
    then obtain vs where qs: "qs = h # n # vs" "nxt q h = n" using d(9) by auto
    have "queue_inv (nxt q) n (mq_tail q) pr (DqDone h) (n # vs)"
      using inv qs DqPublish by (intro queue_inv_pop [where cons = pc]) (auto simp: idle_cons_def)
    thus ?thesis using step DqPublish qs d(2) [of h] by auto
  next
    case (DqDone h)
    thus ?thesis using assms(2) by simp
  qed
qed

subsection \<open>Ownership of nodes\<close>

text \<open>Every node is in the queue, in the free list, or in the hands of one thread.\<close>

fun prod_holds :: "prod_pc \<Rightarrow> nat option" where
  "prod_holds (PFill n) = Some n"
| "prod_holds (PInit n) = Some n"
| "prod_holds (PSwap n) = Some n"
| "prod_holds _ = None"

fun cons_holds :: "deq_pc \<Rightarrow> nat option" where
  "cons_holds (DqDone h) = (if h = 0 then None else Some h)"
| "cons_holds _ = None"

definition own_inv :: "ws_mpsc_queue \<Rightarrow> (nat \<Rightarrow> prod_pc) \<Rightarrow> deq_pc \<Rightarrow> nat list \<Rightarrow> nat list \<Rightarrow> bool" where
  "own_inv q pr cons qs fs \<longleftrightarrow>
    0 < mq_pool q \<and> distinct (qs @ fs) \<and> set (qs @ fs) \<subseteq> pool_range q \<and> node_chain (nxt q) (mq_free_head q) fs \<and>
    (\<forall>p n. prod_holds (pr p) = Some n \<longrightarrow> n \<in> pool_range q - set (qs @ fs) \<and> cons_holds cons \<noteq> Some n) \<and>
    (\<forall>p p' n. prod_holds (pr p) = Some n \<longrightarrow> prod_holds (pr p') = Some n \<longrightarrow> p = p') \<and>
    (\<forall>n. cons_holds cons = Some n \<longrightarrow> n \<in> pool_range q - set (qs @ fs))"

definition sys_inv :: "mpsc_system \<Rightarrow> nat list \<Rightarrow> nat list \<Rightarrow> bool" where
  "sys_inv s qs fs \<longleftrightarrow>
    queue_inv (nxt (sy_q s)) (mq_head (sy_q s)) (mq_tail (sy_q s)) (sy_prod s) (sy_cons s) qs \<and>
    own_inv (sy_q s) (sy_prod s) (sy_cons s) qs fs \<and>
    sy_sent s = sy_got s @ map (message_at (sy_q s)) qs"

lemma own_invD:
  assumes "own_inv q pr cons qs fs"
  shows "set (qs @ fs) \<subseteq> pool_range q" "distinct (qs @ fs)" "node_chain (nxt q) (mq_free_head q) fs"
    "prod_holds (pr p) = Some n \<Longrightarrow> n \<in> pool_range q \<and> n \<notin> set qs \<and> n \<notin> set fs \<and> cons_holds cons \<noteq> Some n \<and> n \<noteq> 0"
    "prod_holds (pr p) = Some n \<Longrightarrow> prod_holds (pr p') = Some n \<Longrightarrow> p = p'"
    "cons_holds cons = Some n \<Longrightarrow> n \<in> pool_range q \<and> n \<notin> set qs \<and> n \<notin> set fs \<and> n \<noteq> 0"
    "n \<in> pool_range q \<Longrightarrow> n \<noteq> 0"
proof -
  have z: "m \<noteq> 0" if "m \<in> pool_range q" for m using assms that by (auto simp: own_inv_def pool_range_def)
  thus "n \<in> pool_range q \<Longrightarrow> n \<noteq> 0" .
  show "prod_holds (pr p) = Some n \<Longrightarrow> n \<in> pool_range q \<and> n \<notin> set qs \<and> n \<notin> set fs \<and> cons_holds cons \<noteq> Some n \<and> n \<noteq> 0"
    "cons_holds cons = Some n \<Longrightarrow> n \<in> pool_range q \<and> n \<notin> set qs \<and> n \<notin> set fs \<and> n \<noteq> 0"
    using assms z unfolding own_inv_def by auto
qed (use assms in \<open>auto simp: own_inv_def\<close>)

lemma message_at_sent: "message_at (q\<lparr>mq_messages_sent := c\<rparr>) = message_at q"
  by (auto simp: message_at_def fun_eq_iff)

lemma no_swap:
  assumes "own_inv q pr cons qs fs" "prod_holds (pr p) = Some n" "pr p \<noteq> PSwap n"
  shows "\<forall>p'. pr p' \<noteq> PSwap n"
proof (intro allI notI)
  fix p' assume "pr p' = PSwap n"
  hence "p = p'" using own_invD(5) [OF assms(1,2)] by simp
  thus False using \<open>pr p' = PSwap n\<close> assms(3) by simp
qed

lemma sys_invD:
  assumes "sys_inv s qs fs"
  shows "queue_inv (nxt (sy_q s)) (mq_head (sy_q s)) (mq_tail (sy_q s)) (sy_prod s) (sy_cons s) qs"
    "own_inv (sy_q s) (sy_prod s) (sy_cons s) qs fs" "sy_sent s = sy_got s @ map (message_at (sy_q s)) qs"
  using assms by (auto simp: sys_inv_def)

text \<open>Changing a node that is neither queued nor free.\<close>

lemma sys_inv_upd:
  assumes inv: "sys_inv s qs fs" and n: "n \<in> pool_range (sy_q s)" "n \<notin> set qs" "n \<notin> set fs"
    and sw: "\<forall>p. sy_prod s p \<noteq> PSwap n"
  shows "sys_inv (s\<lparr>sy_q := upd_node n f (sy_q s)\<rparr>) qs fs"
proof -
  let ?q = "sy_q s" and ?q' = "upd_node n f (sy_q s)"
  note i = sys_invD [OF inv]
  note d = own_invD [OF i(2)]
  have same: "node_at ?q' x = node_at ?q x" if "x \<in> pool_range ?q" "x \<noteq> n" for x
    using that n(1) by (simp add: node_at_upd)
  have qsf: "x \<in> pool_range ?q \<and> x \<noteq> n" if "x \<in> set qs \<union> set fs" for x using that d(1) n by auto
  have sw': "nxt ?q' m = 0" if "sy_prod s p = PSwap m" for p m
  proof -
    have "m \<in> pool_range ?q" "m \<noteq> n" using d(4) [of p m] that sw by auto
    thus ?thesis using same queue_invD(8) [OF i(1) that] by simp
  qed
  have "queue_inv (nxt ?q') (mq_head ?q) (mq_tail ?q) (sy_prod s) (sy_cons s) qs"
    using i(1) by (rule queue_inv_nodes) (use same qsf sw' in auto)
  moreover have "node_chain (nxt ?q') (mq_free_head ?q) fs"
    using d(3) node_chain_cong [of fs "nxt ?q" "nxt ?q'"] same qsf by auto
  hence "own_inv ?q' (sy_prod s) (sy_cons s) qs fs" using i(2) unfolding own_inv_def by auto
  moreover have "map (message_at ?q') qs = map (message_at ?q) qs" using same qsf by (auto simp: message_at_def)
  ultimately show ?thesis using i(3) by (simp add: sys_inv_def)
qed

lemma sys_inv_prod:
  assumes inv: "sys_inv s qs fs" and p: "prod_holds (sy_prod s p) = Some n" "prod_holds pc = Some n"
    and sw: "pc = PSwap n \<longrightarrow> nxt (sy_q s) n = 0"
  shows "sys_inv (s\<lparr>sy_prod := (sy_prod s)(p := pc)\<rparr>) qs fs"
proof -
  note i = sys_invD [OF inv]
  have "queue_inv (nxt (sy_q s)) (mq_head (sy_q s)) (mq_tail (sy_q s)) ((sy_prod s)(p := pc)) (sy_cons s) qs"
    by (rule queue_inv_private [OF i(1)]) (use p sw in auto)
  moreover have "own_inv (sy_q s) ((sy_prod s)(p := pc)) (sy_cons s) qs fs"
    using i(2) p unfolding own_inv_def by auto
  ultimately show ?thesis using i(3) by (simp add: sys_inv_def)
qed

text \<open>Taking a node from the free list, and returning one.\<close>

lemma sys_inv_pop:
  assumes inv: "sys_inv s qs (f # fs)" and p: "sy_prod s p = PIdle"
  shows "sys_inv (s\<lparr>sy_q := (sy_q s)\<lparr>mq_free_head := nxt (sy_q s) f, mq_free_nodes := c\<rparr>,
    sy_prod := (sy_prod s)(p := PFill f)\<rparr>) qs fs"
proof -
  let ?q = "(sy_q s)\<lparr>mq_free_head := nxt (sy_q s) f, mq_free_nodes := c\<rparr>"
  note i = sys_invD [OF inv]
  note d = own_invD [OF i(2)]
  have f: "f \<in> pool_range (sy_q s)" "f \<notin> set qs" "f \<notin> set fs" "distinct (qs @ fs)"
    "node_chain (nxt (sy_q s)) (nxt (sy_q s) f) fs" "set (qs @ fs) \<subseteq> pool_range (sy_q s)"
    using d(1-3) by auto
  have nf: "prod_holds (sy_prod s p') \<noteq> Some f" "cons_holds (sy_cons s) \<noteq> Some f" for p'
    using d(4) [of p' f] d(6) [of f] by auto
  have "queue_inv (nxt (sy_q s)) (mq_head (sy_q s)) (mq_tail (sy_q s)) ((sy_prod s)(p := PFill f)) (sy_cons s) qs"
    by (rule queue_inv_private [OF i(1)]) (use p in auto)
  moreover have "own_inv ?q ((sy_prod s)(p := PFill f)) (sy_cons s) qs fs"
    using i(2) f nf p unfolding own_inv_def by (auto split: if_splits)
  ultimately show ?thesis using i(3) by (simp add: sys_inv_def message_at_def)
qed

lemma sys_inv_push_prod:
  assumes inv: "sys_inv s qs fs" and p: "sy_prod s p = PFill n" and nx: "nxt (sy_q s) n = mq_free_head (sy_q s)"
  shows "sys_inv (s\<lparr>sy_q := (sy_q s)\<lparr>mq_free_head := n, mq_free_nodes := c\<rparr>, sy_prod := (sy_prod s)(p := PIdle)\<rparr>) qs (n # fs)"
proof -
  note i = sys_invD [OF inv]
  note d = own_invD [OF i(2)]
  have n: "n \<in> pool_range (sy_q s)" "n \<notin> set qs" "n \<notin> set fs" "cons_holds (sy_cons s) \<noteq> Some n" "n \<noteq> 0"
    using d(4) [of p n] p by auto
  have nf: "prod_holds (((sy_prod s)(p := PIdle)) p') \<noteq> Some n" for p'
    using d(5) [of p n p'] p by (auto split: if_splits)
  have "queue_inv (nxt (sy_q s)) (mq_head (sy_q s)) (mq_tail (sy_q s)) ((sy_prod s)(p := PIdle)) (sy_cons s) qs"
    by (rule queue_inv_private [OF i(1)]) (use p in auto)
  moreover have "own_inv ((sy_q s)\<lparr>mq_free_head := n, mq_free_nodes := c\<rparr>) ((sy_prod s)(p := PIdle)) (sy_cons s) qs (n # fs)"
    using i(2) n nf nx p unfolding own_inv_def by (auto split: if_splits)
  ultimately show ?thesis using i(3) by (simp add: sys_inv_def message_at_def)
qed

lemma sys_inv_push_cons:
  assumes inv: "sys_inv s qs fs" and p: "sy_cons s = DqDone n" "n \<noteq> 0" and nx: "nxt (sy_q s) n = mq_free_head (sy_q s)"
  shows "sys_inv (s\<lparr>sy_q := (sy_q s)\<lparr>mq_free_head := n, mq_free_nodes := c\<rparr>, sy_cons := DqHead\<rparr>) qs (n # fs)"
proof -
  note i = sys_invD [OF inv]
  note d = own_invD [OF i(2)]
  have n: "n \<in> pool_range (sy_q s)" "n \<notin> set qs" "n \<notin> set fs" using d(6) [of n] p by auto
  have nf: "prod_holds (sy_prod s p') \<noteq> Some n" for p' using d(4) [of p' n] p by auto
  have "queue_inv (nxt (sy_q s)) (mq_head (sy_q s)) (mq_tail (sy_q s)) (sy_prod s) DqHead qs"
    by (rule queue_inv_pc [OF i(1)])
      (use queue_invD(9) [OF i(1)] queue_invD(6) [OF i(1), of _ 0] p in \<open>auto simp: idle_cons_def pend_inv_def\<close>)
  moreover have "own_inv ((sy_q s)\<lparr>mq_free_head := n, mq_free_nodes := c\<rparr>) (sy_prod s) DqHead qs (n # fs)"
    using i(2) n nf nx p unfolding own_inv_def by auto
  ultimately show ?thesis using i(3) by (simp add: sys_inv_def message_at_def)
qed

subsection \<open>Every reachable state\<close>

lemma sys_inv_step:
  assumes "sys_step s s'" "sys_inv s qs fs"
  shows "\<exists>qs' fs'. sys_inv s' qs' fs'"
  using assms
proof cases
  case (get p addr now n q)
  show ?thesis
  proof (cases fs)
    case Nil
    hence "mq_free_head (sy_q s) = 0" using own_invD(3) [OF sys_invD(2) [OF assms(2)]] by simp
    hence "n = 0" "q = (sy_q s)\<lparr>mq_exhaustion_count := mq_exhaustion_count (sy_q s) + 1\<rparr>"
      using get(3) by (auto simp: ws_mpsc_queue_get_node_def should_expand_pool_def Let_def)
    hence "sys_inv s' qs fs" using assms(2) get(1,2) by (simp add: sys_inv_def own_inv_def message_at_def fun_upd_idem)
    thus ?thesis by blast
  next
    case (Cons f fs')
    let ?q = "(sy_q s)\<lparr>mq_free_head := nxt (sy_q s) f, mq_free_nodes := mq_free_nodes (sy_q s) - 1\<rparr>"
    let ?s = "s\<lparr>sy_q := ?q, sy_prod := (sy_prod s)(p := PFill f)\<rparr>"
    let ?u = "\<lambda>n. n\<lparr>n_data := None, n_data_size := 0, n_message_type := 0, n_next := 0\<rparr>"
    have f: "mq_free_head (sy_q s) = f" "f \<noteq> 0" using own_invD(3) [OF sys_invD(2) [OF assms(2)]] Cons by auto
    hence q: "n = f" "q = upd_node f ?u ?q"
      using get(3) by (auto simp: ws_mpsc_queue_get_node_def should_expand_pool_def Let_def)
    have i: "sys_inv ?s qs fs'" using sys_inv_pop assms(2) get(2) Cons by blast
    note o = own_invD [OF sys_invD(2) [OF i]]
    have "sys_inv (?s\<lparr>sy_q := upd_node f ?u (sy_q ?s)\<rparr>) qs fs'"
    proof (rule sys_inv_upd [OF i])
      show "f \<in> pool_range (sy_q ?s)" "f \<notin> set qs" "f \<notin> set fs'" using o(4) [of p f] by auto
      show "\<forall>p'. sy_prod ?s p' \<noteq> PSwap f"
        using no_swap [OF sys_invD(2) [OF i], of p f] by simp
    qed
    moreover have "s' = ?s\<lparr>sy_q := upd_node f ?u (sy_q ?s)\<rparr>"
      using get(1) q f(2) by (intro mpsc_system.equality) simp_all
    ultimately show ?thesis by auto
  qed
next
  case (fill p n ty sz d)
  let ?u = "\<lambda>x. x\<lparr>n_data := d, n_data_size := sz, n_message_type := ty\<rparr>"
  note o = own_invD [OF sys_invD(2) [OF assms(2)]]
  have "sys_inv (s\<lparr>sy_q := upd_node n ?u (sy_q s)\<rparr>) qs fs"
    using o(4) [of p n] no_swap [OF sys_invD(2) [OF assms(2)], of p n] fill(2) by (intro sys_inv_upd [OF assms(2)]) auto
  from sys_inv_prod [OF this, of p n "PInit n"] show ?thesis using fill by auto
next
  case (init p n)
  note o = own_invD [OF sys_invD(2) [OF assms(2)]]
  have n: "n \<in> pool_range (sy_q s)" using o(4) [of p n] init(2) by simp
  have "sys_inv (s\<lparr>sy_q := set_next n 0 (sy_q s)\<rparr>) qs fs"
    using o(4) [of p n] no_swap [OF sys_invD(2) [OF assms(2)], of p n] init(2) by (intro sys_inv_upd [OF assms(2)]) auto
  from sys_inv_prod [OF this, of p n "PSwap n"] show ?thesis using init n by (auto simp: node_at_upd)
next
  case (give_up p n)
  let ?s1 = "s\<lparr>sy_q := upd_node n (\<lambda>n. n\<lparr>n_data := None, n_data_size := 0, n_message_type := 0\<rparr>) (sy_q s)\<rparr>"
  let ?s2 = "?s1\<lparr>sy_q := set_next n (mq_free_head (sy_q s)) (sy_q ?s1)\<rparr>"
  note o = own_invD [OF sys_invD(2) [OF assms(2)]]
  have n: "n \<in> pool_range (sy_q s)" "n \<noteq> 0" "n \<notin> set qs" "n \<notin> set fs" "\<forall>p. sy_prod s p \<noteq> PSwap n"
    using o(4) [of p n] no_swap [OF sys_invD(2) [OF assms(2)], of p n] give_up(2) by auto
  have "sys_inv ?s2 qs fs" using n by (intro sys_inv_upd assms(2)) auto
  from sys_inv_push_prod [OF this, of p n] show ?thesis
    using give_up n by (auto simp: ws_mpsc_queue_return_node_def Let_def node_at_upd)
next
  case (again n)
  show ?thesis
  proof (cases "n = 0")
    case True
    have "queue_inv (nxt (sy_q s)) (mq_head (sy_q s)) (mq_tail (sy_q s)) (sy_prod s) DqHead qs"
      using sys_invD(1) [OF assms(2)]
      by (rule queue_inv_pc) (use queue_invD(9) [OF sys_invD(1) [OF assms(2)]]
          queue_invD(6) [OF sys_invD(1) [OF assms(2)], of _ 0] again(2) in \<open>auto simp: idle_cons_def pend_inv_def\<close>)
    hence "sys_inv s' qs fs"
      using assms(2) again True by (simp add: sys_inv_def own_inv_def ws_mpsc_queue_return_node_def)
    thus ?thesis by blast
  next
    case False
    let ?s1 = "s\<lparr>sy_q := upd_node n (\<lambda>n. n\<lparr>n_data := None, n_data_size := 0, n_message_type := 0\<rparr>) (sy_q s)\<rparr>"
    let ?s2 = "?s1\<lparr>sy_q := set_next n (mq_free_head (sy_q s)) (sy_q ?s1)\<rparr>"
    note o = own_invD [OF sys_invD(2) [OF assms(2)]]
    have "cons_holds (sy_cons s) = Some n" using again(2) False by simp
    hence n: "n \<in> pool_range (sy_q s)" "n \<notin> set qs" "n \<notin> set fs" "\<forall>p. sy_prod s p \<noteq> PSwap n"
      using o(6) [of n] o(4) [of _ n] by (blast | metis prod_holds.simps(3))+
    have "sys_inv ?s2 qs fs" using n by (intro sys_inv_upd assms(2)) auto
    from sys_inv_push_cons [OF this, of n] show ?thesis
      using again n False by (auto simp: ws_mpsc_queue_return_node_def Let_def node_at_upd)
  qed
next
  case (swap p n prev_tail q)
  note i = sys_invD [OF assms(2)] note o = own_invD [OF i(2)]
  have n: "n \<in> pool_range (sy_q s)" "n \<noteq> 0" "n \<notin> set qs" "n \<notin> set fs" "cons_holds (sy_cons s) \<noteq> Some n"
    using o(4) [of p n] swap(2) by auto
  have q: "prev_tail = mq_tail (sy_q s)" "q = (sy_q s)\<lparr>mq_tail := n\<rparr>" using swap(3) by (auto simp: enq_swap_def)
  have "queue_inv (nxt (sy_q s)) (mq_head (sy_q s)) n ((sy_prod s)(p := PLink prev_tail n)) (sy_cons s) (qs @ [n])"
    using queue_inv_swap [OF i(1) swap(2) n(3,2)] q(1) by simp
  moreover have "prod_holds (((sy_prod s)(p := PLink prev_tail n)) p') \<noteq> Some n" for p'
    using o(5) [of p n p'] swap(2) by (auto split: if_splits)
  hence "own_inv q ((sy_prod s)(p := PLink prev_tail n)) (sy_cons s) (qs @ [n]) fs"
    using i(2) n q(2) swap(2) unfolding own_inv_def by (auto split: if_splits)
  ultimately have "sys_inv s' (qs @ [n]) fs" using i(3) swap(1) q(2) by (simp add: sys_inv_def message_at_def)
  thus ?thesis by blast
next
  case (link p a n)
  note i = sys_invD [OF assms(2)] note o = own_invD [OF i(2)]
  let ?q = "sy_q s" and ?pr = "(sy_prod s)(p := PIdle)"
  have sw: "m \<in> pool_range ?q \<and> m \<notin> set qs" if "sy_prod s p' = PSwap m" for p' m using o(4) [of p' m] that by auto
  show ?thesis
  proof (cases "a = 0")
    case True
    have "queue_inv (nxt ?q) n (mq_tail ?q) ?pr (sy_cons s) qs"
      using queue_inv_link_first [OF i(1)] link(2) True by simp
    moreover have "own_inv (?q\<lparr>mq_head := n, mq_messages_sent := mq_messages_sent ?q + 1\<rparr>) ?pr (sy_cons s) qs fs"
      using i(2) link(2) by (auto simp: own_inv_def split: if_splits)
    ultimately have "sys_inv s' qs fs" using i(3) link(1) True by (simp add: sys_inv_def enq_link_def message_at_def)
    thus ?thesis by blast
  next
    case False
    let ?q' = "set_next a n ?q"
    have l: "queue_inv ((nxt ?q)(a := n)) (mq_head ?q) (mq_tail ?q) ?pr (sy_cons s) qs" "a \<in> set qs"
      using queue_inv_link [OF i(1) link(2) False] sw by auto
    have a: "a \<in> pool_range ?q" "a \<notin> set fs" using l(2) o(1,2) by auto
    have nx: "nxt ?q' x = ((nxt ?q)(a := n)) x" "message_at ?q' x = message_at ?q x" if "x \<in> pool_range ?q" for x
      using that a(1) by (auto simp: node_at_upd message_at_def)
    have "queue_inv (nxt ?q') (mq_head ?q) (mq_tail ?q) ?pr (sy_cons s) qs"
    proof (rule queue_inv_nodes [OF l(1)])
      show "\<forall>x \<in> set qs. nxt ?q' x = ((nxt ?q)(a := n)) x" using nx(1) o(1) by auto
      show "\<forall>p' m. ?pr p' = PSwap m \<longrightarrow> nxt ?q' m = 0"
      proof (intro allI impI)
        fix p' m assume m: "?pr p' = PSwap m"
        have "m \<in> pool_range ?q" using sw idle_upd(2) [OF m] by blast
        thus "nxt ?q' m = 0" using nx(1) queue_invD(8) [OF l(1) m] by simp
      qed
    qed
    moreover have "node_chain (nxt ?q') (mq_free_head ?q) fs"
    proof -
      have "\<forall>x \<in> set fs. nxt ?q' x = nxt ?q x" using nx(1) o(1) a(2) by auto
      thus ?thesis using o(3) node_chain_cong [of fs "nxt ?q'" "nxt ?q"] by blast
    qed
    hence "own_inv (?q'\<lparr>mq_messages_sent := mq_messages_sent ?q' + 1\<rparr>) ?pr (sy_cons s) qs fs"
      using i(2) link(2) by (auto simp: own_inv_def split: if_splits)
    moreover have "map (message_at ?q') qs = map (message_at ?q) qs" using nx(2) o(1) by auto
    ultimately have "sys_inv s' qs fs" using i(3) link(1) False by (simp add: sys_inv_def enq_link_def Let_def message_at_sent)
    thus ?thesis by blast
  qed
next
  case (consume q pc)
  note i = sys_invD [OF assms(2)] note o = own_invD [OF i(2)]
  have free: "pool_range q = pool_range (sy_q s)" "mq_free_head q = mq_free_head (sy_q s)" "mq_pool q = mq_pool (sy_q s)"
    using consume(2,3) by (cases "sy_cons s"; auto simp: Let_def split: if_splits)+
  have none: "cons_holds (sy_cons s) = None" using consume(2) by (cases "sy_cons s") auto
  note c = queue_inv_consume [OF i(1) consume(2,3)]
  have nodes: "nxt q = nxt (sy_q s)" "message_at q = message_at (sy_q s)" using c by (auto simp: message_at_def)
  from c consider "queue_inv (nxt q) (mq_head q) (mq_tail q) (sy_prod s) pc qs" "\<forall>h. pc = DqDone h \<longrightarrow> h = 0"
    | h qs' where "qs = h # qs'" "h \<noteq> 0" "pc = DqDone h" "queue_inv (nxt q) (mq_head q) (mq_tail q) (sy_prod s) pc qs'"
    unfolding nodes(1) by blast
  thus ?thesis
  proof cases
    case 1
    have "cons_holds pc = None" using 1(2) by (cases pc) auto
    hence "own_inv q (sy_prod s) pc qs fs" using i(2) free nodes(1) by (auto simp: own_inv_def)
    hence "sys_inv s' qs fs" using 1 i(3) consume(1) nodes by (auto simp: sys_inv_def split: deq_pc.splits)
    thus ?thesis by blast
  next
    case 2
    have "prod_holds (sy_prod s p) \<noteq> Some h" for p using o(4) [of p h] 2(1) by auto
    hence "own_inv q (sy_prod s) pc qs' fs" using i(2) free nodes(1) none 2 by (auto simp: own_inv_def)
    hence "sys_inv s' qs' fs" using 2 i(3) consume(1) nodes by (auto simp: sys_inv_def)
    thus ?thesis by blast
  qed
qed

lemma reachable_inv:
  assumes "reachable sz addr s"
  shows "\<exists>qs fs. sys_inv s qs fs"
  using assms
proof induction
  case (start q)
  obtain fs where r: "mq_rep q [] fs []" using create_rep [OF start] by blast
  have "queue_inv (nxt q) (mq_head q) (mq_tail q) (\<lambda>_. PIdle) DqHead []"
    using r by (intro queue_invI) (auto simp: mq_rep_def)
  moreover have "own_inv q (\<lambda>_. PIdle) DqHead [] fs" using r by (auto simp: own_inv_def mq_rep_def)
  ultimately show ?case by (auto simp: sys_inv_def sys_init_def)
next
  case (step s s')
  thus ?case using sys_inv_step by blast
qed

subsection \<open>Theorems\<close>

lemma quiescent_dequeue:
  assumes inv: "queue_inv (nxt q) (mq_head q) (mq_tail q) pr DqHead (h # qs)" and idle: "\<forall>p a b. pr p \<noteq> PLink a b"
  shows "\<exists>q'. ws_mpsc_queue_dequeue q = Some (h, q')"
proof -
  have k: "(6 :: nat) = Suc (Suc (Suc (Suc (Suc (Suc 0)))))" by simp
  note d = queue_invD [OF inv]
  have h: "mq_head q = h" "h \<noteq> 0" using d(9) d(2) [of h] idle by auto
  show ?thesis
  proof (cases qs)
    case Nil
    thus ?thesis using h d(3,5) by (simp add: ws_mpsc_queue_dequeue_def k)
  next
    case (Cons n ns)
    hence "nxt q h = n" "n \<noteq> 0" using d(4) idle d(2) [of n] by (auto simp: edge_def)
    thus ?thesis using h by (simp add: ws_mpsc_queue_dequeue_def k)
  qed
qed

text \<open>
  C18. The queue is a linearizable FIFO: in every state reachable by interleaving the atomic steps
  of any number of producers with those of the consumer, the messages received are exactly the
  first messages sent, in the order in which the producers exchanged the tail. A message is
  neither lost nor duplicated nor overtaken; and as soon as no producer is between its exchange
  and its link, the next dequeue returns the oldest message that is still outstanding.
\<close>
theorem mpsc_linearizable:
  assumes "reachable sz addr s"
  shows "\<exists>rest. sy_sent s = sy_got s @ rest \<and>
    (sy_cons s = DqHead \<and> (\<forall>p a b. sy_prod s p \<noteq> PLink a b) \<and> rest \<noteq> [] \<longrightarrow>
      (\<exists>h q'. ws_mpsc_queue_dequeue (sy_q s) = Some (h, q') \<and> h \<noteq> 0 \<and> message_at (sy_q s) h = hd rest))"
proof -
  obtain qs fs where i: "sys_inv s qs fs" using reachable_inv [OF assms] by blast
  note d = sys_invD [OF i]
  have "\<exists>h q'. ws_mpsc_queue_dequeue (sy_q s) = Some (h, q') \<and> h \<noteq> 0 \<and> message_at (sy_q s) h = hd (map (message_at (sy_q s)) qs)"
    if c: "sy_cons s = DqHead" "\<forall>p a b. sy_prod s p \<noteq> PLink a b" and "qs \<noteq> []"
  proof -
    obtain h qs' where qs: "qs = h # qs'" using \<open>qs \<noteq> []\<close> by (cases qs) auto
    moreover have "h \<noteq> 0" using queue_invD(2) [OF d(1), of h] qs by simp
    ultimately show ?thesis using quiescent_dequeue [of "sy_q s" "sy_prod s" h qs'] d(1) c by auto
  qed
  thus ?thesis using d(3) by auto
qed

text \<open>
  C19. The consumer never waits in vain: whenever it is in one of its waiting loops and the field it
  waits for is still NULL, some producer is about to write that very field, so that producer's next
  step ends the wait.
\<close>
theorem mpsc_wait_ends:
  assumes "reachable sz addr s" "sy_cons s = DqSpin h \<or> sy_cons s = DqRelink h"
    and "n_next (node_at (sy_q s) h) = 0"
  shows "\<exists>p n. sy_prod s p = PLink h n \<and> n_next (node_at (enq_link h n (sy_q s)) h) \<noteq> 0"
proof -
  obtain qs fs where i: "sys_inv s qs fs" using reachable_inv [OF assms(1)] by blast
  note d = queue_invD [OF sys_invD(1) [OF i]]
  obtain n vs where qs: "qs = h # n # vs" using assms(2) d(9) by auto
  have nz: "h \<noteq> 0" "n \<noteq> 0" using d(2) [of h] d(2) [of n] qs by auto
  obtain p where "sy_prod s p = PLink h n" using d(4) assms(3) qs nz by (auto simp: edge_def)
  moreover have "h \<in> pool_range (sy_q s)" using own_invD(1) [OF sys_invD(2) [OF i]] qs by simp
  ultimately show ?thesis using nz by (auto simp: enq_link_def node_at_upd Let_def)
qed


text \<open>
  A schedule in which producer 0 completes a send and producer 1 stops between its exchange and
  its link, while the consumer runs into its waiting loop.
\<close>

definition demo_schedule :: "sys_op list" where
  "demo_schedule = [OpGet 0, OpGet 1, OpFill 0 None 0 8, OpInit 0, OpSwap 0, OpLink 0,
     OpFill 1 (Some (UserData 7 UserNull)) 16 7, OpInit 1, OpCons, OpCons, OpSwap 1, OpCons]"

definition demo_queue :: ws_mpsc_queue where
  "demo_queue = the (ws_mpsc_queue_create True 100 4)"

definition demo_system :: mpsc_system where
  "demo_system = the (sys_exec demo_schedule (sys_init demo_queue))"

lemma demo_reachable: "reachable 4 100 demo_system"
proof -
  have q: "ws_mpsc_queue_create True 100 4 = Some demo_queue"
    by (simp add: demo_queue_def ws_mpsc_queue_create_def)
  have "sys_exec demo_schedule (sys_init demo_queue) \<noteq> None" by code_simp
  hence "sys_exec demo_schedule (sys_init demo_queue) = Some demo_system" by (auto simp: demo_system_def)
  thus ?thesis using sys_exec_reachable reachable.start [OF q] by blast
qed

theorem mpsc_linearizable_witness:
  "\<exists>rest. sy_sent demo_system = sy_got demo_system @ rest"
  using mpsc_linearizable [OF demo_reachable] by blast

theorem mpsc_wait_ends_witness:
  "\<exists>p n. sy_prod demo_system p = PLink 100 n \<and> n_next (node_at (enq_link 100 n (sy_q demo_system)) 100) \<noteq> 0"
proof -
  have "sy_cons demo_system = DqSpin 100" "n_next (node_at (sy_q demo_system) 100) = 0" by code_simp+
  thus ?thesis using mpsc_wait_ends [OF demo_reachable, of 100] by simp
qed

end
