(* ===== verification/Ws_Buffer.thy ===== *)
theory Ws_Buffer
  imports Slot_Pool
begin

text \<open>
  The buffer pools of an event thread (ws\_buffer.c). The mapped memory block is the list of
  buffers, each a header and its data area; the free list is the array of next indices. A pool
  is used by its own event thread only, so the compare-and-swap of the source succeeds on the
  value just read; a spurious failure of the weak form repeats the same step.
\<close>

definition WS_BUFFER_POOL_MAGIC :: u32 where
  "WS_BUFFER_POOL_MAGIC = 0xBEEFCAFE"

definition WS_BUFFER_FREE_MAGIC :: u32 where
  "WS_BUFFER_FREE_MAGIC = 0xDEADBEEF"

definition WS_BUFFER_INVALID_INDEX :: u32 where
  "WS_BUFFER_INVALID_INDEX = 0xFFFFFFFF"

record ws_buffer_header =
  bh_magic :: u32
  bh_pool_id :: u32
  bh_buffer_index :: u32
  bh_next_free :: u32

text \<open>\<open>sizeof(ws_buffer_header_t)\<close>, a packed struct of four 32-bit words.\<close>

definition HEADER_SIZE :: u32 where
  "HEADER_SIZE = 16"

record ws_buffer_pool =
  bp_mapped :: bool
  bp_headers :: "ws_buffer_header list"
  bp_data :: "bytes list"
  bp_buffer_size :: u32
  bp_buffer_count :: u32
  bp_free_head :: u32
  bp_free_next :: "u32 list"
  bp_allocated_count :: u32
  bp_peak_usage :: u32
  bp_initial_buffer_count :: u32
  bp_max_buffer_count :: u32
  bp_exhaustion_count :: u32
  bp_expanding :: bool
  bp_last_expansion_time :: int
  bp_expansion_cooldown_sec :: u32

text \<open>The structure after \<open>memset(pool, 0, sizeof(ws_buffer_pool_t))\<close>.\<close>

definition zero_pool :: ws_buffer_pool where
  "zero_pool = \<lparr>bp_mapped = False, bp_headers = [], bp_data = [], bp_buffer_size = 0,
     bp_buffer_count = 0, bp_free_head = 0, bp_free_next = [], bp_allocated_count = 0,
     bp_peak_usage = 0, bp_initial_buffer_count = 0, bp_max_buffer_count = 0,
     bp_exhaustion_count = 0, bp_expanding = False, bp_last_expansion_time = 0,
     bp_expansion_cooldown_sec = 0\<rparr>"

definition WS_ALIGN_UP :: "u32 \<Rightarrow> u32 \<Rightarrow> u32" where
  "WS_ALIGN_UP x align = (x + align - 1) AND NOT (align - 1)"

definition init_next_free :: "nat \<Rightarrow> nat \<Rightarrow> u32" where
  "init_next_free count i = (if i = count - 1 then WS_BUFFER_INVALID_INDEX else word_of_nat (i + 1))"

text \<open>
  \<open>mmap_ok n\<close> tells whether mapping \<open>n\<close> bytes succeeds. The result pairs the return
  value (0 or -1) with the pool.
\<close>

definition ws_buffer_pool_init ::
  "(nat \<Rightarrow> bool) \<Rightarrow> ws_buffer_pool \<Rightarrow> u32 \<Rightarrow> u32 \<Rightarrow> int \<times> ws_buffer_pool" where
  "ws_buffer_pool_init mmap_ok pool buffer_size buffer_count =
    (if buffer_size = 0 \<or> buffer_count = 0 then (-1, pool)
     else
       let aligned_buffer_size = WS_ALIGN_UP (buffer_size + HEADER_SIZE) 64;
           n = unat buffer_count;
           pool = zero_pool\<lparr>bp_buffer_size := aligned_buffer_size, bp_buffer_count := buffer_count\<rparr>;
           total_memory = unat aligned_buffer_size * n + n * 4
       in if \<not> mmap_ok total_memory then (-1, pool)
          else (0, pool\<lparr>
            bp_mapped := True,
            bp_headers := map (\<lambda>i. \<lparr>bh_magic = WS_BUFFER_FREE_MAGIC, bh_pool_id = 0,
               bh_buffer_index = word_of_nat i, bh_next_free = init_next_free n i\<rparr>) [0..<n],
            bp_data := replicate n (replicate (unat (aligned_buffer_size - HEADER_SIZE)) 0),
            bp_free_next := map (init_next_free n) [0..<n],
            bp_free_head := 0, bp_allocated_count := 0, bp_peak_usage := 0\<rparr>))"

definition ws_buffer_pool_cleanup :: "ws_buffer_pool \<Rightarrow> ws_buffer_pool" where
  "ws_buffer_pool_cleanup pool = (if \<not> bp_mapped pool then pool else zero_pool)"

definition ws_buffer_pool_init_adaptive ::
  "(nat \<Rightarrow> bool) \<Rightarrow> ws_buffer_pool \<Rightarrow> u32 \<Rightarrow> u32 \<Rightarrow> u32 \<Rightarrow> int \<times> ws_buffer_pool" where
  "ws_buffer_pool_init_adaptive mmap_ok pool buffer_size initial_count max_count =
    (if buffer_size = 0 \<or> initial_count = 0 \<or> max_count < initial_count then (-1, pool)
     else
       let actual_initial = initial_count * 4;
           actual_initial = (if actual_initial > max_count then max_count else actual_initial);
           (result, pool) = ws_buffer_pool_init mmap_ok pool buffer_size actual_initial
       in if result \<noteq> 0 then (result, pool)
          else (0, pool\<lparr>bp_initial_buffer_count := initial_count, bp_max_buffer_count := max_count,
                  bp_exhaustion_count := 0, bp_expanding := False, bp_last_expansion_time := 0,
                  bp_expansion_cooldown_sec := 5\<rparr>))"

text \<open>Expansion is declined on every path, and never requested.\<close>

definition ws_buffer_pool_expand_safe :: "ws_buffer_pool \<Rightarrow> u32 \<Rightarrow> int" where
  "ws_buffer_pool_expand_safe pool additional_buffers =
    (if additional_buffers = 0 then -1
     else if bp_buffer_count pool + additional_buffers > bp_max_buffer_count pool then -1
     else -1)"

definition ws_buffer_pool_should_expand :: "ws_buffer_pool \<Rightarrow> bool" where
  "ws_buffer_pool_should_expand pool = False"

definition ws_buffer_pool_reset_exhaustion_counter :: "ws_buffer_pool \<Rightarrow> ws_buffer_pool" where
  "ws_buffer_pool_reset_exhaustion_counter pool = pool\<lparr>bp_exhaustion_count := 0\<rparr>"

section \<open>Allocation\<close>

definition header_at :: "ws_buffer_pool \<Rightarrow> u32 \<Rightarrow> ws_buffer_header" where
  "header_at pool idx = bp_headers pool ! unat idx"

definition set_header :: "u32 \<Rightarrow> ws_buffer_header \<Rightarrow> ws_buffer_pool \<Rightarrow> ws_buffer_pool" where
  "set_header idx h pool = pool\<lparr>bp_headers := (bp_headers pool)[unat idx := h]\<rparr>"

definition ws_buffer_pool_allocate :: "ws_buffer_pool \<Rightarrow> u32 \<times> ws_buffer_pool" where
  "ws_buffer_pool_allocate pool =
    (let current_head = bp_free_head pool in
     if current_head = WS_BUFFER_INVALID_INDEX then
       (WS_BUFFER_INVALID_INDEX, pool\<lparr>bp_exhaustion_count := bp_exhaustion_count pool + 1\<rparr>)
     else
       let header = header_at pool current_head in
       if bh_magic header \<noteq> WS_BUFFER_FREE_MAGIC \<or> bh_buffer_index header \<noteq> current_head then
         (WS_BUFFER_INVALID_INDEX, pool)
       else
         let next_head = bp_free_next pool ! unat current_head;
             pool = pool\<lparr>bp_free_head := next_head\<rparr>;
             pool = set_header current_head (header\<lparr>bh_magic := WS_BUFFER_POOL_MAGIC\<rparr>) pool;
             current_allocated = bp_allocated_count pool + 1;
             pool = pool\<lparr>bp_allocated_count := current_allocated\<rparr>;
             pool = (if current_allocated > bp_peak_usage pool
                     then pool\<lparr>bp_peak_usage := current_allocated\<rparr> else pool)
         in (current_head, pool))"

definition ws_buffer_pool_deallocate :: "ws_buffer_pool \<Rightarrow> u32 \<Rightarrow> ws_buffer_pool" where
  "ws_buffer_pool_deallocate pool buffer_idx =
    (if buffer_idx \<ge> bp_buffer_count pool then pool
     else
       let header = header_at pool buffer_idx in
       if bh_magic header \<noteq> WS_BUFFER_POOL_MAGIC \<or> bh_buffer_index header \<noteq> buffer_idx then pool
       else
         let data_size = bp_buffer_size pool - HEADER_SIZE;
             pool = pool\<lparr>bp_data := (bp_data pool)[unat buffer_idx := replicate (unat data_size) 0]\<rparr>;
             current_head = bp_free_head pool;
             pool = pool\<lparr>bp_free_next := (bp_free_next pool)[unat buffer_idx := current_head]\<rparr>;
             pool = set_header buffer_idx
               (header\<lparr>bh_magic := WS_BUFFER_FREE_MAGIC, bh_next_free := current_head\<rparr>) pool;
             pool = pool\<lparr>bp_free_head := buffer_idx\<rparr>
         in pool\<lparr>bp_allocated_count := bp_allocated_count pool - 1\<rparr>)"

section \<open>Access\<close>

text \<open>
  Data pointers are offsets from the start of the memory block (\<open>None\<close> is NULL);
  a foreign pointer is any integer offset, in a range where the quotient fits 32 bits (beyond it
  the source reads a header outside the block).
\<close>

definition ws_buffer_pool_get_buffer :: "ws_buffer_pool \<Rightarrow> u32 \<Rightarrow> int option" where
  "ws_buffer_pool_get_buffer pool buffer_idx =
    (if buffer_idx \<ge> bp_buffer_count pool then None
     else
       let header = header_at pool buffer_idx in
       if bh_magic header \<noteq> WS_BUFFER_POOL_MAGIC \<or> bh_buffer_index header \<noteq> buffer_idx then None
       else Some (uint buffer_idx * uint (bp_buffer_size pool) + uint HEADER_SIZE))"

definition ws_buffer_pool_get_data_size :: "ws_buffer_pool \<Rightarrow> nat" where
  "ws_buffer_pool_get_data_size pool = unat (ucast (bp_buffer_size pool) - ucast HEADER_SIZE :: u64)"

definition ws_buffer_pool_get_buffer_index :: "ws_buffer_pool \<Rightarrow> int \<Rightarrow> u32" where
  "ws_buffer_pool_get_buffer_index pool data_ptr =
    (let header_ptr = data_ptr - uint HEADER_SIZE in
     if header_ptr < 0 then WS_BUFFER_INVALID_INDEX
     else if header_ptr mod uint (bp_buffer_size pool) \<noteq> 0 then WS_BUFFER_INVALID_INDEX
     else
       let buffer_idx = (word_of_int (header_ptr div uint (bp_buffer_size pool)) :: u32) in
       if buffer_idx \<ge> bp_buffer_count pool then WS_BUFFER_INVALID_INDEX
       else
         let header = header_at pool buffer_idx in
         if bh_magic header \<noteq> WS_BUFFER_POOL_MAGIC \<or> bh_buffer_index header \<noteq> buffer_idx
         then WS_BUFFER_INVALID_INDEX
         else buffer_idx)"

record ws_buffer_pool_stats =
  st_total_buffers :: u32
  st_allocated_buffers :: u32
  st_peak_allocated :: u32
  st_total_allocations :: u64
  st_total_deallocations :: u64
  st_allocation_failures :: u64
  st_initial_buffer_count :: u32
  st_max_buffer_count :: u32
  st_exhaustion_events :: u32
  st_is_adaptive :: bool

definition ws_buffer_pool_get_stats :: "ws_buffer_pool \<Rightarrow> ws_buffer_pool_stats" where
  "ws_buffer_pool_get_stats pool =
    \<lparr>st_total_buffers = bp_buffer_count pool, st_allocated_buffers = bp_allocated_count pool,
     st_peak_allocated = bp_peak_usage pool, st_total_allocations = 0, st_total_deallocations = 0,
     st_allocation_failures = 0, st_initial_buffer_count = bp_initial_buffer_count pool,
     st_max_buffer_count = bp_max_buffer_count pool,
     st_exhaustion_events = bp_exhaustion_count pool,
     st_is_adaptive = (bp_max_buffer_count pool > 0)\<rparr>"

section \<open>The pools of a thread\<close>

datatype pool_ref = Small | Medium | Large

record ws_thread_pools =
  small_buffers :: ws_buffer_pool
  medium_buffers :: ws_buffer_pool
  large_buffers :: ws_buffer_pool

fun get_pool :: "ws_thread_pools \<Rightarrow> pool_ref \<Rightarrow> ws_buffer_pool" where
  "get_pool t Small = small_buffers t"
| "get_pool t Medium = medium_buffers t"
| "get_pool t Large = large_buffers t"

fun set_pool :: "pool_ref \<Rightarrow> ws_buffer_pool \<Rightarrow> ws_thread_pools \<Rightarrow> ws_thread_pools" where
  "set_pool Small p t = t\<lparr>small_buffers := p\<rparr>"
| "set_pool Medium p t = t\<lparr>medium_buffers := p\<rparr>"
| "set_pool Large p t = t\<lparr>large_buffers := p\<rparr>"

record ws_buffer_allocation =
  al_buffer_idx :: u32
  al_pool :: "pool_ref option"
  al_data :: "int option"
  al_data_size :: nat

definition zero_allocation :: ws_buffer_allocation where
  "zero_allocation = \<lparr>al_buffer_idx = 0, al_pool = None, al_data = None, al_data_size = 0\<rparr>"

definition ws_allocate_buffer_for_size ::
  "ws_thread_pools \<Rightarrow> nat \<Rightarrow> ws_buffer_allocation \<times> ws_thread_pools" where
  "ws_allocate_buffer_for_size thread needed_size =
    (let small_data_size = ws_buffer_pool_get_data_size (small_buffers thread);
         medium_data_size = ws_buffer_pool_get_data_size (medium_buffers thread);
         large_data_size = ws_buffer_pool_get_data_size (large_buffers thread);
         choice = (if needed_size \<le> small_data_size then Some Small
                   else if needed_size \<le> medium_data_size then Some Medium
                   else if needed_size \<le> large_data_size then Some Large
                   else None)
     in case choice of
          None \<Rightarrow> (zero_allocation, thread)
        | Some pool \<Rightarrow>
            let (buffer_idx, p) = ws_buffer_pool_allocate (get_pool thread pool);
                thread = set_pool pool p thread
            in if buffer_idx = WS_BUFFER_INVALID_INDEX then (zero_allocation, thread)
               else case ws_buffer_pool_get_buffer (get_pool thread pool) buffer_idx of
                      None \<Rightarrow> (zero_allocation,
                        set_pool pool (ws_buffer_pool_deallocate (get_pool thread pool) buffer_idx) thread)
                    | Some data \<Rightarrow>
                        (\<lparr>al_buffer_idx = buffer_idx, al_pool = Some pool, al_data = Some data,
                          al_data_size = ws_buffer_pool_get_data_size (get_pool thread pool)\<rparr>, thread))"

definition ws_deallocate_buffer ::
  "ws_buffer_allocation \<Rightarrow> ws_thread_pools \<Rightarrow> ws_buffer_allocation \<times> ws_thread_pools" where
  "ws_deallocate_buffer allocation thread =
    (case al_pool allocation of
       None \<Rightarrow> (allocation, thread)
     | Some pool \<Rightarrow>
         if al_buffer_idx allocation = WS_BUFFER_INVALID_INDEX then (allocation, thread)
         else (zero_allocation,
           set_pool pool
             (ws_buffer_pool_deallocate (get_pool thread pool) (al_buffer_idx allocation)) thread))"

section \<open>Validation\<close>

text \<open>The walk of \<open>ws_buffer_pool_validate\<close>: the free and allocated counts, or failure.\<close>

fun validate_walk :: "u32 \<Rightarrow> ws_buffer_header list \<Rightarrow> u32 \<Rightarrow> u32 \<Rightarrow> (u32 \<times> u32) option" where
  "validate_walk i [] free_count allocated_count = Some (free_count, allocated_count)"
| "validate_walk i (h # hs) free_count allocated_count =
    (if bh_buffer_index h \<noteq> i then None
     else if bh_magic h = WS_BUFFER_FREE_MAGIC then validate_walk (i + 1) hs (free_count + 1) allocated_count
     else if bh_magic h = WS_BUFFER_POOL_MAGIC then validate_walk (i + 1) hs free_count (allocated_count + 1)
     else None)"

definition ws_buffer_pool_validate :: "ws_buffer_pool \<Rightarrow> int" where
  "ws_buffer_pool_validate pool =
    (if \<not> bp_mapped pool then -1
     else case validate_walk 0 (take (unat (bp_buffer_count pool)) (bp_headers pool)) 0 0 of
       None \<Rightarrow> -1
     | Some (free_count, allocated_count) \<Rightarrow>
         if allocated_count \<noteq> bp_allocated_count pool then -1
         else if free_count + allocated_count \<noteq> bp_buffer_count pool then -1
         else 0)"


section \<open>Free-list invariant\<close>

text \<open>
  The pool represents the free stack \<open>xs\<close>: the chain visits each free buffer once, the
  magic numbers tell free from allocated, every header carries its own index, and the counters
  agree.
\<close>

definition pool_rep :: "ws_buffer_pool \<Rightarrow> nat list \<Rightarrow> bool" where
  "pool_rep p xs \<longleftrightarrow>
    bp_mapped p \<and>
    length (bp_headers p) = unat (bp_buffer_count p) \<and>
    length (bp_free_next p) = unat (bp_buffer_count p) \<and>
    length (bp_data p) = unat (bp_buffer_count p) \<and>
    free_chain WS_BUFFER_INVALID_INDEX (bp_free_next p) (bp_free_head p) xs \<and> distinct xs \<and>
    (\<forall>i < unat (bp_buffer_count p).
       bh_buffer_index (bp_headers p ! i) = word_of_nat i \<and>
       bh_magic (bp_headers p ! i) =
         (if i \<in> set xs then WS_BUFFER_FREE_MAGIC else WS_BUFFER_POOL_MAGIC)) \<and>
    unat (bp_allocated_count p) + length xs = unat (bp_buffer_count p) \<and>
    bp_allocated_count p \<le> bp_peak_usage p"

definition pool_inv :: "ws_buffer_pool \<Rightarrow> bool" where
  "pool_inv p \<longleftrightarrow> (\<exists>xs. pool_rep p xs)"

definition pool_live :: "ws_buffer_pool \<Rightarrow> nat set" where
  "pool_live p = {i. i < unat (bp_buffer_count p) \<and> bh_magic (bp_headers p ! i) = WS_BUFFER_POOL_MAGIC}"

definition pool_cap :: "ws_buffer_pool \<Rightarrow> nat" where
  "pool_cap p = unat (bp_buffer_count p)"

lemma magic_distinct [simp]:
  "WS_BUFFER_FREE_MAGIC \<noteq> WS_BUFFER_POOL_MAGIC" "WS_BUFFER_POOL_MAGIC \<noteq> WS_BUFFER_FREE_MAGIC"
  by (simp_all add: WS_BUFFER_FREE_MAGIC_def WS_BUFFER_POOL_MAGIC_def)

lemma index_below_count:
  "i < unat (n :: u32) \<Longrightarrow> (word_of_nat i :: u32) \<noteq> WS_BUFFER_INVALID_INDEX \<and> unat (word_of_nat i :: u32) = i"
proof -
  assume i: "i < unat n"
  have "unat n < 2 ^ 32" using unsigned_less [of n] by simp
  hence "i < 2 ^ 32 - 1" using i by simp
  hence "unat (word_of_nat i :: u32) = i" by (simp add: unat_of_nat)
  moreover have "unat WS_BUFFER_INVALID_INDEX = 2 ^ 32 - 1" by (simp add: WS_BUFFER_INVALID_INDEX_def)
  ultimately show ?thesis using \<open>i < 2 ^ 32 - 1\<close> by (metis less_irrefl)
qed

lemma pool_rep_bound: "pool_rep p xs \<Longrightarrow> set xs \<subseteq> {..<unat (bp_buffer_count p)}"
  using free_chain_bound by (fastforce simp: pool_rep_def)

lemma pool_live_rep: "pool_rep p xs \<Longrightarrow> pool_live p = {..<unat (bp_buffer_count p)} - set xs"
  by (auto simp: pool_live_def pool_rep_def)

section \<open>Initialisation\<close>

lemma init_rep:
  assumes "ws_buffer_pool_init mmap_ok pool bsize bcount = (0, p)"
  shows "pool_rep p [0..<unat bcount] \<and> bp_buffer_count p = bcount"
proof -
  have n: "bcount \<noteq> 0" using assms by (auto simp: ws_buffer_pool_init_def split: if_splits)
  hence "0 < unat bcount" by (simp add: unat_gt_0)
  moreover have "free_chain WS_BUFFER_INVALID_INDEX (map (init_next_free (unat bcount)) [0..<unat bcount])
      (if 0 = unat bcount then WS_BUFFER_INVALID_INDEX else word_of_nat 0) [0..<unat bcount]"
    by (rule free_chain_upt) (auto simp: init_next_free_def)
  ultimately have "free_chain WS_BUFFER_INVALID_INDEX
      (map (init_next_free (unat bcount)) [0..<unat bcount]) 0 [0..<unat bcount]" by simp
  thus ?thesis using assms
    by (auto simp: ws_buffer_pool_init_def Let_def pool_rep_def zero_pool_def split: if_splits)
qed

section \<open>Allocation and release\<close>

lemma allocate_rep:
  assumes "pool_rep p xs"
  shows "case xs of
      [] \<Rightarrow> ws_buffer_pool_allocate p =
        (WS_BUFFER_INVALID_INDEX, p\<lparr>bp_exhaustion_count := bp_exhaustion_count p + 1\<rparr>)
    | i # ys \<Rightarrow> fst (ws_buffer_pool_allocate p) = word_of_nat i \<and>
        pool_rep (snd (ws_buffer_pool_allocate p)) ys \<and>
        bp_buffer_count (snd (ws_buffer_pool_allocate p)) = bp_buffer_count p"
proof (cases xs)
  case Nil
  thus ?thesis using assms by (simp add: pool_rep_def ws_buffer_pool_allocate_def)
next
  case (Cons i ys)
  have i: "i < unat (bp_buffer_count p)" using pool_rep_bound [OF assms] Cons by simp
  note w = index_below_count [OF i]
  have head: "bp_free_head p = word_of_nat i" "i \<notin> set ys" using assms Cons by (auto simp: pool_rep_def)
  have hdr: "bh_magic (bp_headers p ! i) = WS_BUFFER_FREE_MAGIC"
    "bh_buffer_index (bp_headers p ! i) = word_of_nat i"
    using assms i Cons by (auto simp: pool_rep_def)
  have cnt: "unat (bp_allocated_count p + 1) = unat (bp_allocated_count p) + 1"
  proof -
    have "unat (bp_allocated_count p) < unat (bp_buffer_count p)"
      using assms Cons by (simp add: pool_rep_def)
    thus ?thesis by (rule unat_plus_1)
  qed
  show ?thesis
    using assms Cons i w head hdr cnt
    by (auto simp: ws_buffer_pool_allocate_def Let_def header_at_def set_header_def pool_rep_def
        nth_list_update not_less)
qed


lemma deallocate_dead:
  assumes "pool_rep p xs" "unat i \<notin> pool_live p"
  shows "ws_buffer_pool_deallocate p i = p"
proof (cases "i < bp_buffer_count p")
  case True
  hence "bh_magic (bp_headers p ! unat i) \<noteq> WS_BUFFER_POOL_MAGIC"
    using assms(2) by (simp add: pool_live_def word_less_nat_alt)
  thus ?thesis using True by (simp add: ws_buffer_pool_deallocate_def header_at_def)
next
  case False
  thus ?thesis by (simp add: ws_buffer_pool_deallocate_def)
qed

lemma deallocate_rep:
  assumes rep: "pool_rep p xs" and i: "unat i \<in> pool_live p"
  shows "pool_rep (ws_buffer_pool_deallocate p i) (unat i # xs) \<and>
    bp_buffer_count (ws_buffer_pool_deallocate p i) = bp_buffer_count p"
proof -
  have lt: "unat i < unat (bp_buffer_count p)" "\<not> bp_buffer_count p \<le> i" "unat i \<notin> set xs"
    using i pool_live_rep [OF rep] by (auto simp: word_le_nat_alt)
  have hdr: "bh_magic (bp_headers p ! unat i) = WS_BUFFER_POOL_MAGIC"
    "bh_buffer_index (bp_headers p ! unat i) = i"
    using i lt rep by (auto simp: pool_live_def pool_rep_def)
  have "length xs < unat (bp_buffer_count p)"
  proof -
    have "set (unat i # xs) \<subseteq> {..<unat (bp_buffer_count p)}"
      using lt(1) pool_rep_bound [OF rep] by simp
    hence "card (set (unat i # xs)) \<le> unat (bp_buffer_count p)"
      using card_mono [of "{..<unat (bp_buffer_count p)}"] by fastforce
    moreover have "distinct (unat i # xs)" using rep lt(3) by (simp add: pool_rep_def)
    ultimately show ?thesis by (simp only: distinct_card) simp
  qed
  hence "0 < unat (bp_allocated_count p)" using rep by (simp add: pool_rep_def)
  hence cnt: "unat (bp_allocated_count p - 1) + Suc (length xs) = unat (bp_buffer_count p)"
      "bp_allocated_count p - 1 \<le> bp_peak_usage p"
    using rep unat_minus_1 [of "bp_allocated_count p"]
    by (auto simp: pool_rep_def word_le_nat_alt)
  show ?thesis
    using rep lt hdr cnt
    by (auto simp: ws_buffer_pool_deallocate_def Let_def header_at_def set_header_def pool_rep_def
        nth_list_update free_chain_update)
qed

text \<open>The pool operations with indices as numbers, failure as \<open>None\<close>.\<close>

definition pool_alloc :: "ws_buffer_pool \<Rightarrow> nat option \<times> ws_buffer_pool" where
  "pool_alloc p = (let (i, q) = ws_buffer_pool_allocate p
     in (if i = WS_BUFFER_INVALID_INDEX then None else Some (unat i), q))"

definition pool_release :: "nat \<Rightarrow> ws_buffer_pool \<Rightarrow> ws_buffer_pool" where
  "pool_release i p = (if i < 2 ^ 32 then ws_buffer_pool_deallocate p (word_of_nat i) else p)"

lemma pool_rep_exhaustion: "pool_rep (p\<lparr>bp_exhaustion_count := n\<rparr>) xs = pool_rep p xs"
  by (simp add: pool_rep_def)

lemma pool_alloc_some:
  assumes "pool_inv p" "pool_alloc p = (Some i, q)"
  shows "pool_inv q \<and> i < pool_cap p \<and> i \<notin> pool_live p \<and> pool_live q = insert i (pool_live p) \<and>
    pool_cap q = pool_cap p"
proof -
  obtain xs where rep: "pool_rep p xs" using assms(1) by (auto simp: pool_inv_def)
  obtain j ys where xs: "xs = j # ys"
    using allocate_rep [OF rep] assms(2) by (cases xs) (auto simp: pool_alloc_def)
  have j: "j < unat (bp_buffer_count p)" "j \<notin> set ys"
    using pool_rep_bound [OF rep] rep xs by (auto simp: pool_rep_def)
  note w = index_below_count [OF j(1)]
  have q: "i = j" "pool_rep q ys" "bp_buffer_count q = bp_buffer_count p"
    using allocate_rep [OF rep] assms(2) xs w by (auto simp: pool_alloc_def case_prod_beta Let_def)
  show ?thesis
    using q j pool_live_rep [OF rep] pool_live_rep [OF q(2)] xs
    by (auto simp: pool_inv_def pool_cap_def)
qed

lemma pool_alloc_none:
  assumes "pool_inv p" "pool_alloc p = (None, q)"
  shows "pool_inv q \<and> pool_live p = {..<pool_cap p} \<and> pool_live q = pool_live p \<and> pool_cap q = pool_cap p"
proof -
  obtain xs where rep: "pool_rep p xs" using assms(1) by (auto simp: pool_inv_def)
  have xs: "xs = []"
  proof (cases xs)
    case (Cons j ys)
    hence "j < unat (bp_buffer_count p)" using pool_rep_bound [OF rep] by simp
    thus ?thesis using allocate_rep [OF rep] Cons assms(2) index_below_count
      by (auto simp: pool_alloc_def case_prod_beta Let_def split: if_splits)
  qed simp
  hence "q = p\<lparr>bp_exhaustion_count := bp_exhaustion_count p + 1\<rparr>"
    using allocate_rep [OF rep] assms(2) by (simp add: pool_alloc_def)
  thus ?thesis
    using rep xs pool_live_rep [OF rep]
    by (auto simp: pool_inv_def pool_cap_def pool_live_def pool_rep_exhaustion)
qed

lemma pool_release_live:
  assumes "pool_inv p" "i \<in> pool_live p"
  shows "pool_inv (pool_release i p) \<and> pool_live (pool_release i p) = pool_live p - {i} \<and>
    pool_cap (pool_release i p) = pool_cap p"
proof -
  obtain xs where rep: "pool_rep p xs" using assms(1) by (auto simp: pool_inv_def)
  have lt: "i < unat (bp_buffer_count p)" using assms(2) by (simp add: pool_live_def)
  note w = index_below_count [OF lt]
  have "unat (bp_buffer_count p) < 2 ^ 32" using unsigned_less [of "bp_buffer_count p"] by simp
  hence eq: "pool_release i p = ws_buffer_pool_deallocate p (word_of_nat i)"
    using lt by (simp add: pool_release_def)
  have "pool_rep (pool_release i p) (i # xs)" "bp_buffer_count (pool_release i p) = bp_buffer_count p"
    using deallocate_rep [OF rep, of "word_of_nat i"] w assms(2) unfolding eq by auto
  thus ?thesis
    using pool_live_rep [of "pool_release i p" "i # xs"] pool_live_rep [OF rep]
    by (auto simp: pool_inv_def pool_cap_def)
qed

lemma pool_release_dead:
  assumes "pool_inv p" "i \<notin> pool_live p"
  shows "pool_release i p = p"
  using assms deallocate_dead [of p _ "word_of_nat i"]
  by (auto simp: pool_release_def pool_inv_def unat_of_nat)

interpretation bpool: guarded_pool pool_inv pool_live pool_cap pool_alloc pool_release
proof (unfold_locales, goal_cases)
  case (1 p)
  thus ?case by (auto simp: pool_live_def pool_cap_def)
next
  case (2 p i q)
  thus ?case by (rule pool_alloc_some)
next
  case (3 p q)
  thus ?case by (rule pool_alloc_none)
next
  case (4 p i)
  thus ?case by (rule pool_release_live)
next
  case (5 p i)
  thus ?case by (rule pool_release_dead)
qed


lemma init_inv: "ws_buffer_pool_init mmap_ok pool bsize bcount = (0, p) \<Longrightarrow> pool_inv p"
  using init_rep pool_inv_def by blast

section \<open>Validation accepts every reachable pool\<close>

lemma validate_walk_counts:
  assumes "\<forall>j < length hs. bh_buffer_index (hs ! j) = i + word_of_nat j \<and>
      bh_magic (hs ! j) \<in> {WS_BUFFER_FREE_MAGIC, WS_BUFFER_POOL_MAGIC}"
  shows "validate_walk i hs f a =
    Some (f + word_of_nat (length (filter (\<lambda>h. bh_magic h = WS_BUFFER_FREE_MAGIC) hs)),
          a + word_of_nat (length (filter (\<lambda>h. bh_magic h \<noteq> WS_BUFFER_FREE_MAGIC) hs)))"
  using assms
proof (induction hs arbitrary: i f a)
  case Nil
  thus ?case by simp
next
  case (Cons h hs)
  have h: "bh_buffer_index h = i" "bh_magic h \<in> {WS_BUFFER_FREE_MAGIC, WS_BUFFER_POOL_MAGIC}"
    using Cons.prems by force+
  have "\<forall>j < length hs. bh_buffer_index (hs ! j) = i + 1 + word_of_nat j \<and>
      bh_magic (hs ! j) \<in> {WS_BUFFER_FREE_MAGIC, WS_BUFFER_POOL_MAGIC}"
  proof (intro allI impI)
    fix j assume "j < length hs"
    thus "bh_buffer_index (hs ! j) = i + 1 + word_of_nat j \<and>
        bh_magic (hs ! j) \<in> {WS_BUFFER_FREE_MAGIC, WS_BUFFER_POOL_MAGIC}"
      using Cons.prems [rule_format, of "Suc j"] by (simp add: add.assoc)
  qed
  from Cons.IH [OF this] show ?case using h by (auto simp: ac_simps)
qed

lemma free_headers_count:
  assumes "pool_rep p xs"
  shows "length (filter (\<lambda>h. bh_magic h = WS_BUFFER_FREE_MAGIC) (bp_headers p)) = length xs"
proof -
  have "{i. i < length (bp_headers p) \<and> bh_magic (bp_headers p ! i) = WS_BUFFER_FREE_MAGIC} = set xs"
    using assms pool_rep_bound [OF assms] by (auto simp: pool_rep_def split: if_splits)
  moreover have "card (set xs) = length xs" using assms by (simp add: pool_rep_def distinct_card)
  ultimately show ?thesis by (simp add: length_filter_conv_card)
qed

lemma validate_rep:
  assumes "pool_rep p xs"
  shows "ws_buffer_pool_validate p = 0"
proof -
  let ?F = "\<lambda>h. bh_magic h = WS_BUFFER_FREE_MAGIC"
  have len: "length (bp_headers p) = unat (bp_buffer_count p)" "bp_mapped p"
      "unat (bp_allocated_count p) + length xs = unat (bp_buffer_count p)"
    using assms by (auto simp: pool_rep_def)
  have "validate_walk 0 (bp_headers p) 0 0 =
      Some (word_of_nat (length (filter ?F (bp_headers p))),
            word_of_nat (length (filter (\<lambda>h. \<not> ?F h) (bp_headers p))))"
    using assms by (subst validate_walk_counts) (auto simp: pool_rep_def)
  moreover have "length (filter (\<lambda>h. \<not> ?F h) (bp_headers p)) = unat (bp_allocated_count p)"
    using sum_length_filter_compl [of ?F "bp_headers p"] free_headers_count [OF assms] len by simp
  moreover have "word_of_nat (length xs) + bp_allocated_count p = bp_buffer_count p"
    using arg_cong [OF len(3), of "word_of_nat :: nat \<Rightarrow> u32"] by (simp add: add.commute)
  ultimately show ?thesis
    using len free_headers_count [OF assms] by (simp add: ws_buffer_pool_validate_def)
qed



text \<open>
  C8. A data pointer handed out for a buffer leads back to its index, and only allocated
  buffers have one.
\<close>

theorem get_buffer_index_round_trip:
  assumes "pool_inv p" "0 < bp_buffer_size p" "ws_buffer_pool_get_buffer p i = Some ptr"
  shows "ws_buffer_pool_get_buffer_index p ptr = i \<and> unat i \<in> pool_live p"
proof -
  have i: "\<not> bp_buffer_count p \<le> i" "bh_magic (header_at p i) = WS_BUFFER_POOL_MAGIC"
    "bh_buffer_index (header_at p i) = i"
    "ptr = uint i * uint (bp_buffer_size p) + uint HEADER_SIZE"
    using assms(3) by (auto simp: ws_buffer_pool_get_buffer_def Let_def split: if_splits)
  have "0 < uint (bp_buffer_size p)" "\<not> uint i * uint (bp_buffer_size p) < 0"
    using assms(2) by (simp_all add: word_less_def not_less)
  thus ?thesis
    using i by (simp add: ws_buffer_pool_get_buffer_index_def Let_def pool_live_def header_at_def
        word_le_nat_alt)
qed

theorem get_buffer_index_round_trip_witness:
  "let p = snd (pool_alloc (snd (ws_buffer_pool_init (\<lambda>_. True) zero_pool 100 2)))
   in ws_buffer_pool_get_buffer_index p 16 = 0"
proof -
  define p0 where "p0 = snd (ws_buffer_pool_init (\<lambda>_. True) zero_pool 100 2)"
  have "fst (ws_buffer_pool_init (\<lambda>_. True) zero_pool 100 2) = 0" by code_simp
  hence "ws_buffer_pool_init (\<lambda>_. True) zero_pool 100 2 = (0, p0)" by (simp add: p0_def prod_eq_iff)
  hence "pool_inv p0" by (rule init_inv)
  hence "pool_inv (snd (pool_alloc p0))" using bpool.alloc_inv by blast
  moreover have "0 < bp_buffer_size (snd (pool_alloc p0))" unfolding p0_def by code_simp
  moreover have "ws_buffer_pool_get_buffer (snd (pool_alloc p0)) 0 = Some 16" unfolding p0_def by code_simp
  ultimately show ?thesis using get_buffer_index_round_trip by (simp add: p0_def Let_def)
qed



end
