(* ===== verification/Spec2Isabelle.thy ===== *)
theory Spec2Isabelle
  imports Http_Conn Ws_Handshake_Spec Ws_Mpsc_Concurrent Ws_Delivery Ws_Buffer Ws_Utils Ws_Utf8 Key_Map Slot_Pool
begin

text \<open>
  Verification of portico, a WebSocket and HTTP server library in C.
\<close>

end
